(* ===== verification/Prelude.thy ===== *)
theory Prelude
  imports Main "HOL-Library.Word" "HOL-Library.Signed_Division"
begin

text \<open>
  Shared vocabulary of the development: names for the machine integers of the code, the two
  lemma collections the component theories extend, and generic facts on words and lists.

  A C++ unsigned integer of width \<open>w\<close> and a signed integer of width \<open>w\<close> are both modelled by
  \<^typ>\<open>'a word\<close> with \<open>LENGTH('a) = w\<close>. The operation says which reading is meant: \<open>uint\<close>, \<open>drop_bit\<close>,
  \<open><\<close> and \<open>div\<close> for the unsigned one, \<open>sint\<close>, \<open>signed_drop_bit\<close>, \<open><s\<close> and the truncating \<open>sdiv_word\<close>
  for the signed one. Arithmetic wraps around, as it does in the code.
\<close>

unbundle bit_operations_syntax

named_theorems code_defs \<comment> \<open>definitions that translate straight-line code\<close>
named_theorems word_range \<comment> \<open>bounds of the signed and unsigned readings of words\<close>

type_synonym u8 = "8 word"
type_synonym u16 = "16 word"
type_synonym u32 = "32 word"
type_synonym u64 = "64 word"

section \<open>Signed and unsigned readings\<close>

lemma sint_ge_64 [word_range]: "- (2 ^ 63) \<le> sint (x :: u64)"
  using sint_ge [of x] by simp

lemma sint_lt_64 [word_range]: "sint (x :: u64) < 2 ^ 63"
  using sint_lt [of x] by simp

lemma uint_lt_64 [word_range]: "uint (x :: u64) < 2 ^ 64"
  using uint_bounded [of x] by simp

lemma uint_lt_32 [word_range]: "uint (x :: u32) < 2 ^ 32"
  using uint_bounded [of x] by simp

lemma word_of_int_sint [simp]: "word_of_int (sint w) = (w :: 'a::len word)"
  by (rule word_int_cases [of w]) simp

lemma sint_word_of_int_small:
  assumes "- (2 ^ (LENGTH('a) - 1)) \<le> i" "i < 2 ^ (LENGTH('a) - 1)"
  shows "sint (word_of_int i :: 'a::len word) = i"
  using assms by (simp add: signed_take_bit_int_eq_self sint_sbintrunc')

lemma sint_word_of_int_64:
  "- (2 ^ 63) \<le> i \<Longrightarrow> i < 2 ^ 63 \<Longrightarrow> sint (word_of_int i :: u64) = i"
  by (rule sint_word_of_int_small) simp_all

section \<open>Equality of words bit by bit\<close>

lemma word_eqI_list:
  fixes a b :: "'a::len word"
  assumes "list_all (\<lambda>n. bit a n \<longleftrightarrow> bit b n) [0..<LENGTH('a)]"
  shows "a = b"
  using assms by (intro bit_word_eqI) (simp add: list_all_iff)

section \<open>Searching an index range\<close>

lemma length_takeWhile_upt_eq:
  assumes "k \<le> n" "\<forall>i<k. P i" "k < n \<Longrightarrow> \<not> P k"
  shows "length (takeWhile P [0..<n]) = k"
proof -
  have "[0..<n] = [0..<k] @ [k..<n]"
    using assms(1) by (metis le_add_diff_inverse upt_add_eq_append zero_le)
  moreover have "takeWhile P [k..<n] = []"
    using assms by (cases "k < n") (simp_all add: upt_conv_Cons)
  moreover have "takeWhile P ([0..<k] @ [k..<n]) = [0..<k] @ takeWhile P [k..<n]"
    using assms(2) by (intro takeWhile_append2) simp
  ultimately show ?thesis
    by simp
qed

lemma takeWhile_upt_props:
  fixes P :: "nat \<Rightarrow> bool" and n :: nat
  defines "k \<equiv> length (takeWhile P [0..<n])"
  shows "k \<le> n" "i < k \<Longrightarrow> P i" "k < n \<Longrightarrow> \<not> P k"
proof -
  show le: "k \<le> n"
    unfolding k_def using length_takeWhile_le [of P "[0..<n]"] by simp
  show "i < k \<Longrightarrow> P i"
    unfolding k_def using le
    by (metis (no_types, lifting) diff_zero k_def length_upt nth_mem nth_upt order_less_le_trans
        plus_nat.add_0 set_takeWhileD takeWhile_nth)
  show "k < n \<Longrightarrow> \<not> P k"
    unfolding k_def
    by (metis diff_zero length_upt nth_length_takeWhile nth_upt plus_nat.add_0)
qed

section \<open>Bits and magnitude\<close>

lemma bit_word_imp_le:
  "bit (v :: 'a::len word) n \<Longrightarrow> 2 ^ n \<le> uint v"
proof -
  assume "bit v n"
  then have "odd (uint v div 2 ^ n)"
    by (simp add: bit_iff_odd bit_uint_iff flip: uint_word_of_int_eq) (metis bit_iff_odd bit_uint_iff bit_imp_le_length)
  then have "uint v div 2 ^ n \<noteq> 0"
    by (metis even_zero)
  then show ?thesis
    by (metis div_pos_pos_trivial not_le unsigned_greater_eq)
qed

lemma uint_less_2p_iff_bits:
  "uint (v :: 'a::len word) < 2 ^ k \<longleftrightarrow> (\<forall>n\<ge>k. \<not> bit v n)"
proof
  assume "uint v < 2 ^ k"
  then show "\<forall>n\<ge>k. \<not> bit v n"
    using bit_word_imp_le [of v] by (meson not_le one_le_numeral order_trans power_increasing)
next
  assume *: "\<forall>n\<ge>k. \<not> bit v n"
  have "take_bit k (uint v) = uint v"
    by (rule bit_eqI) (use * linorder_not_less in \<open>auto simp: bit_take_bit_iff bit_uint_iff\<close>)
  then show "uint v < 2 ^ k"
    by (simp add: take_bit_int_eq_self_iff)
qed

lemma and_one_eq_0_iff: "v AND 1 = 0 \<longleftrightarrow> \<not> bit (v :: 'a::len word) 0"
  by (simp add: and_one_eq bit_0 even_iff_mod_2_eq_zero)

lemma nat_or_exp_add:
  assumes "2 ^ Suc j dvd (z :: nat)"
  shows "z OR 2 ^ j = z + 2 ^ j"
proof -
  have z: "take_bit (Suc j) z = 0"
    using assms by (simp add: take_bit_eq_mod dvd_eq_mod_eq_0)
  have "z AND 2 ^ j = 0"
  proof (rule bit_eqI)
    fix n
    have "bit (take_bit (Suc j) z) n = bit (0 :: nat) n" by (simp only: z)
    then show "bit (z AND 2 ^ j) n = bit (0 :: nat) n"
      by (auto simp: bit_simps)
  qed
  then show ?thesis by (simp add: disjunctive_add_eq_or)
qed

lemma uint_nonneg: "0 \<le> uint (w :: 'a::len word)"
  by simp

lemma uint_pos_iff: "0 < uint w \<longleftrightarrow> w \<noteq> (0 :: 'a::len word)"
  by (simp add: less_le uint_0_iff)

lemma uint_drop_bit: "uint (drop_bit n (v :: 'a::len word)) = uint v div 2 ^ n"
  by (simp only: unsigned_drop_bit_eq [where ?'a = int])
    (simp add: drop_bit_eq_div take_bit_int_eq_self uint_bounded)

lemma sint_signed_drop_bit: "sint (signed_drop_bit n (v :: 'a::len word)) = sint v div 2 ^ n"
  by (simp add: sint_signed_drop_bit_eq drop_bit_eq_div)

lemma sint_eq_0_iff: "sint (v :: 'a::len word) = 0 \<longleftrightarrow> v = 0"
  by (metis signed_word_eqI signed_0)

lemma sint_eq_minus_1_iff: "sint (v :: 'a::len word) = - 1 \<longleftrightarrow> v = - 1"
  by (metis signed_word_eqI sint_n1)

lemma uint_minus_1:
  fixes A :: "'a::len word"
  assumes "A \<noteq> 0"
  shows "uint (A - 1) = uint A - 1"
proof -
  have "0 < uint A" using assms by (simp add: less_le uint_0_iff)
  then have "(uint A - 1) mod 2 ^ LENGTH('a) = uint A - 1"
    using uint_bounded [of A] by (intro mod_pos_pos_trivial) linarith+
  then show ?thesis
    by (simp add: uint_word_ariths)
qed

lemma int_div_less_iff:
  assumes "0 < (c :: int)"
  shows "a div c < b \<longleftrightarrow> a < b * c"
proof
  assume "a div c < b"
  then have "(a div c + 1) * c \<le> b * c"
    using assms by (intro mult_right_mono) simp_all
  moreover have "a < (a div c + 1) * c"
    using assms by (simp add: distrib_right) (metis add.commute add_strict_left_mono mod_mult_div_eq mult.commute pos_mod_bound)
  ultimately show "a < b * c" by simp
next
  assume *: "a < b * c"
  show "a div c < b"
  proof (rule ccontr)
    assume "\<not> a div c < b"
    then have "b * c \<le> a div c * c"
      using assms by (intro mult_right_mono) simp_all
    also have "\<dots> \<le> a"
      using assms by (metis div_mult_mod_eq le_add_same_cancel1 pos_mod_sign)
    finally show False using * by simp
  qed
qed

lemma unat_max_word: "uint (- 1 :: 'a::len word) = 2 ^ LENGTH('a) - 1"
  by (simp add: unsigned_minus_1_eq_mask mask_eq_exp_minus_1)

section \<open>Narrowing\<close>

lemma ucast_word_of_int_down:
  "LENGTH('b) \<le> LENGTH('a) \<Longrightarrow> ucast (word_of_int k :: 'a::len word) = (word_of_int k :: 'b::len word)"
  by (intro bit_word_eqI) (auto simp: bit_simps)

lemma scast_word_of_int_down:
  "LENGTH('b) \<le> LENGTH('a) \<Longrightarrow> scast (word_of_int k :: 'a::len word) = (word_of_int k :: 'b::len word)"
proof (intro bit_word_eqI)
  fix n assume "LENGTH('b) \<le> LENGTH('a)" "n < LENGTH('b)"
  then show "bit (scast (word_of_int k :: 'a word) :: 'b word) n \<longleftrightarrow> bit (word_of_int k :: 'b word) n"
    by (cases "n = LENGTH('a) - 1") (auto simp: bit_simps min_def)
qed

section \<open>Naturals as words\<close>

lemma unat_of_nat64: "n < 2 ^ 64 \<Longrightarrow> unat (of_nat n :: u64) = n"
  by (simp add: unat_of_nat)

lemma unat_of_nat32: "n < 2 ^ 32 \<Longrightarrow> unat (of_nat n :: u32) = n"
  by (simp add: unat_of_nat)

lemma ucast_of_nat_32: "n < 2 ^ 32 \<Longrightarrow> (ucast (of_nat n :: u64) :: u32) = of_nat n"
  by (simp add: unsigned_of_nat take_bit_nat_eq_self)

lemma ucast_of_nat_64: "n < 2 ^ 32 \<Longrightarrow> (ucast (of_nat n :: u32) :: u64) = of_nat n"
  by (simp add: unsigned_of_nat take_bit_nat_eq_self)

end
