(* ===== verification/MathExtras.thy ===== *)
theory MathExtras
  imports Prelude
begin

text \<open>
  \<open>llvm/include/llvm/Support/MathExtras.h\<close> and \<open>llvm/include/llvm/ADT/bit.h\<close>: the bit and
  range helpers the other components are written with. A template parameter that is a type is
  the width of a word type, a template parameter that is a number is an argument. Shift
  amounts and bit indices are \<open>nat\<close>; the asserts of the source bound them by the width.
  Compiler builtins (\<open>__builtin_ctz\<close> and its kin) are modelled by what they are documented to
  return; the portable bisection loops the header falls back to are modelled as written.
\<close>

section \<open>Masks\<close>

definition maskTrailingOnes :: "nat \<Rightarrow> 'a::len word" where
  "maskTrailingOnes N = (if N = 0 then 0 else drop_bit (LENGTH('a) - N) (- 1))"

definition maskLeadingOnes :: "nat \<Rightarrow> 'a::len word" where
  "maskLeadingOnes N = NOT (maskTrailingOnes (LENGTH('a) - N))"

definition maskTrailingZeros :: "nat \<Rightarrow> 'a::len word" where
  "maskTrailingZeros N = maskLeadingOnes (LENGTH('a) - N)"

definition maskLeadingZeros :: "nat \<Rightarrow> 'a::len word" where
  "maskLeadingZeros N = maskTrailingOnes (LENGTH('a) - N)"

lemma bit_maskTrailingOnes [bit_simps]:
  "N \<le> LENGTH('a) \<Longrightarrow> bit (maskTrailingOnes N :: 'a::len word) n \<longleftrightarrow> n < N"
  by (auto simp: maskTrailingOnes_def bit_simps)

lemma bit_maskLeadingOnes [bit_simps]:
  "N \<le> LENGTH('a) \<Longrightarrow>
   bit (maskLeadingOnes N :: 'a::len word) n \<longleftrightarrow> n < LENGTH('a) \<and> LENGTH('a) - N \<le> n"
  by (auto simp: maskLeadingOnes_def bit_simps)

lemma bit_maskTrailingZeros [bit_simps]:
  "N \<le> LENGTH('a) \<Longrightarrow> bit (maskTrailingZeros N :: 'a::len word) n \<longleftrightarrow> n < LENGTH('a) \<and> N \<le> n"
  by (auto simp: maskTrailingZeros_def bit_simps)

lemma bit_maskLeadingZeros [bit_simps]:
  "N \<le> LENGTH('a) \<Longrightarrow> bit (maskLeadingZeros N :: 'a::len word) n \<longleftrightarrow> n < LENGTH('a) - N"
  by (auto simp: maskLeadingZeros_def bit_simps)

section \<open>Bit reversal by table\<close>

definition R2 :: "nat \<Rightarrow> nat list" where
  "R2 n = [n, n + 2 * 64, n + 1 * 64, n + 3 * 64]"

definition R4 :: "nat \<Rightarrow> nat list" where
  "R4 n = R2 n @ R2 (n + 2 * 16) @ R2 (n + 1 * 16) @ R2 (n + 3 * 16)"

definition R6 :: "nat \<Rightarrow> nat list" where
  "R6 n = R4 n @ R4 (n + 2 * 4) @ R4 (n + 1 * 4) @ R4 (n + 3 * 4)"

definition BitReverseTable256 :: "u8 list" where
  "BitReverseTable256 = map of_nat (R6 0 @ R6 2 @ R6 1 @ R6 3)"

definition mem_bytes :: "'a::len word \<Rightarrow> u8 list" where
  "mem_bytes v = map (\<lambda>i. ucast (drop_bit (8 * i) v)) [0..<LENGTH('a) div 8]"

definition of_mem_bytes :: "u8 list \<Rightarrow> 'a::len word" where
  "of_mem_bytes bs = foldr (\<lambda>b acc. push_bit 8 acc OR ucast b) bs 0"

definition reverseBits :: "'a::len word \<Rightarrow> 'a word" where
  "reverseBits v = of_mem_bytes (rev (map (\<lambda>b. BitReverseTable256 ! unat b) (mem_bytes v)))"

section \<open>Halves\<close>

definition Hi_32 :: "u64 \<Rightarrow> u32" where
  "Hi_32 v = ucast (drop_bit 32 v)"

definition Lo_32 :: "u64 \<Rightarrow> u32" where
  "Lo_32 v = ucast v"

definition Make_64 :: "u32 \<Rightarrow> u32 \<Rightarrow> u64" where
  "Make_64 h l = push_bit 32 (ucast h) OR ucast l"

section \<open>Range checks\<close>

definition isInt :: "nat \<Rightarrow> u64 \<Rightarrow> bool" where
  "isInt N x =
    (if N = 8 then scast (scast x :: u8) = x
     else if N = 16 then scast (scast x :: u16) = x
     else if N = 32 then scast (scast x :: u32) = x
     else if N < 64 then sint (- push_bit (N - 1) 1 :: u64) \<le> sint x \<and> sint x < sint (push_bit (N - 1) 1 :: u64)
     else True)"

definition isShiftedInt :: "nat \<Rightarrow> nat \<Rightarrow> u64 \<Rightarrow> bool" where
  "isShiftedInt N S x \<longleftrightarrow> isInt (N + S) x \<and> x mod push_bit S 1 = 0"

definition isUInt :: "nat \<Rightarrow> u64 \<Rightarrow> bool" where
  "isUInt N x =
    (if N = 8 then ucast (ucast x :: u8) = x
     else if N = 16 then ucast (ucast x :: u16) = x
     else if N = 32 then ucast (ucast x :: u32) = x
     else if N < 64 then x < push_bit N 1
     else True)"

definition isShiftedUInt :: "nat \<Rightarrow> nat \<Rightarrow> u64 \<Rightarrow> bool" where
  "isShiftedUInt N S x \<longleftrightarrow> isUInt (N + S) x \<and> x mod push_bit S 1 = 0"

definition maxUIntN :: "nat \<Rightarrow> u64" where
  "maxUIntN N = drop_bit (64 - N) (- 1)"

definition minIntN :: "nat \<Rightarrow> u64" where
  "minIntN N = 1 + NOT (push_bit (N - 1) 1)"

definition maxIntN :: "nat \<Rightarrow> u64" where
  "maxIntN N = push_bit (N - 1) 1 - 1"

definition isUIntN :: "nat \<Rightarrow> u64 \<Rightarrow> bool" where
  "isUIntN N x \<longleftrightarrow> N \<ge> 64 \<or> x \<le> maxUIntN N"

definition isIntN :: "nat \<Rightarrow> u64 \<Rightarrow> bool" where
  "isIntN N x \<longleftrightarrow> N \<ge> 64 \<or> (minIntN N \<le>s x \<and> x \<le>s maxIntN N)"

lemma scast_scast_eq_iff:
  fixes x :: "'a::len word"
  assumes "LENGTH('b) \<le> LENGTH('a)"
  shows "scast (scast x :: 'b::len word) = x \<longleftrightarrow>
    - (2 ^ (LENGTH('b) - 1)) \<le> sint x \<and> sint x < 2 ^ (LENGTH('b) - 1)"
proof -
  have le: "LENGTH('b) - 1 \<le> LENGTH('a) - 1"
    using assms by simp
  have "sint (scast (scast x :: 'b word) :: 'a word)
      = signed_take_bit (LENGTH('a) - 1) (signed_take_bit (LENGTH('b) - 1) (sint x))"
    by (simp only: signed_scast_eq [where ?'a = int] One_nat_def)
  also have "\<dots> = signed_take_bit (LENGTH('b) - 1) (sint x)"
    using le by (simp only: signed_take_bit_signed_take_bit min_absorb2)
  finally have "scast (scast x :: 'b word) = x \<longleftrightarrow> signed_take_bit (LENGTH('b) - 1) (sint x) = sint x"
    by (metis signed_word_eqI)
  then show ?thesis
    by (simp only: signed_take_bit_int_eq_self_iff)
qed

lemma ucast_ucast_eq_iff:
  fixes x :: "'a::len word"
  assumes "LENGTH('b) \<le> LENGTH('a)"
  shows "ucast (ucast x :: 'b::len word) = x \<longleftrightarrow> uint x < 2 ^ LENGTH('b)"
proof -
  have "uint (ucast (ucast x :: 'b word) :: 'a word) = take_bit LENGTH('a) (take_bit LENGTH('b) (uint x))"
    by (simp only: unsigned_ucast_eq [where ?'a = int])
  also have "\<dots> = take_bit LENGTH('b) (uint x)"
    using assms by (simp only: take_bit_take_bit min_absorb2)
  finally have "ucast (ucast x :: 'b word) = x \<longleftrightarrow> take_bit LENGTH('b) (uint x) = uint x"
    by (metis unsigned_word_eqI)
  then show ?thesis
    by (simp add: take_bit_int_eq_self_iff)
qed

lemma push_bit_1_word: "push_bit n (1 :: 'a::len word) = word_of_int (2 ^ n)"
  by (simp add: push_bit_eq_mult)

lemma sint_push_bit_1:
  assumes "n < 63"
  shows "sint (push_bit n 1 :: u64) = 2 ^ n"
proof -
  have "(2::int) ^ n < 2 ^ 63"
    using assms by (rule power_strict_increasing) simp
  then show ?thesis
    unfolding push_bit_1_word by (intro sint_word_of_int_64) (auto intro: order_trans [of _ 0])
qed

lemma sint_uminus_push_bit_1:
  assumes "n \<le> 63"
  shows "sint (- push_bit n 1 :: u64) = - (2 ^ n)"
proof -
  have "(2::int) ^ n \<le> 2 ^ 63"
    using assms by (intro power_increasing) simp_all
  moreover have "- push_bit n (1 :: u64) = word_of_int (- (2 ^ n))"
    unfolding push_bit_1_word by simp
  ultimately show ?thesis
    by (simp only:) (rule sint_word_of_int_64, auto intro: order_trans [of _ 0] le_less_trans [of _ 0])
qed

lemma isInt_iff_aux:
  assumes "0 < N" "N \<le> 64"
  shows "isInt N x \<longleftrightarrow> - (2 ^ (N - 1)) \<le> sint x \<and> sint x < 2 ^ (N - 1)"
proof -
  consider "N = 8" | "N = 16" | "N = 32" | "N = 64" | "N \<noteq> 8" "N \<noteq> 16" "N \<noteq> 32" "N < 64"
    using assms by linarith
  then show ?thesis
  proof cases
    case 4
    then show ?thesis using sint_ge_64 [of x] sint_lt_64 [of x] by (simp add: isInt_def)
  next
    case 5
    then show ?thesis
      using assms sint_push_bit_1 [of "N - 1"] sint_uminus_push_bit_1 [of "N - 1"]
      by (simp add: isInt_def)
  qed (simp_all add: isInt_def scast_scast_eq_iff)
qed

lemma isUInt_iff_aux:
  assumes "0 < N" "N \<le> 64"
  shows "isUInt N x \<longleftrightarrow> uint x < 2 ^ N"
proof -
  consider "N = 8" | "N = 16" | "N = 32" | "N = 64" | "N \<noteq> 8" "N \<noteq> 16" "N \<noteq> 32" "N < 64"
    using assms by linarith
  then show ?thesis
  proof cases
    case 4
    then show ?thesis using uint_lt_64 [of x] by (simp add: isUInt_def)
  next
    case 5
    have "uint (push_bit N (1 :: u64)) = 2 ^ N"
      using 5 by (simp only: push_bit_1_word uint_word_of_int_eq) (simp add: take_bit_int_eq_self_iff)
    then show ?thesis
      using 5 by (simp add: isUInt_def word_less_def)
  qed (simp_all add: isUInt_def ucast_ucast_eq_iff)
qed

section \<open>Counting bits\<close>

text \<open>
  \<open>builtin_ctz\<close>, \<open>builtin_clz\<close> and \<open>builtin_popcount\<close> stand for the compiler builtins of those
  names: the index of the lowest set bit, the number of zeros above the highest one, and the
  number of set bits.
\<close>

definition builtin_ctz :: "'a::len word \<Rightarrow> nat" where
  "builtin_ctz v = length (takeWhile (\<lambda>i. \<not> bit v i) [0..<LENGTH('a)])"

definition builtin_clz :: "'a::len word \<Rightarrow> nat" where
  "builtin_clz v = length (takeWhile (\<lambda>i. \<not> bit v (LENGTH('a) - 1 - i)) [0..<LENGTH('a)])"

definition builtin_popcount :: "'a::len word \<Rightarrow> nat" where
  "builtin_popcount v = length (filter (bit v) [0..<LENGTH('a)])"

definition countr_zero :: "'a::len word \<Rightarrow> nat" where
  "countr_zero v = (if v = 0 then LENGTH('a) else builtin_ctz v)"

definition countl_zero :: "'a::len word \<Rightarrow> nat" where
  "countl_zero v = (if v = 0 then LENGTH('a) else builtin_clz v)"

definition countl_one :: "'a::len word \<Rightarrow> nat" where
  "countl_one v = countl_zero (NOT v)"

definition countr_one :: "'a::len word \<Rightarrow> nat" where
  "countr_one v = countr_zero (NOT v)"

definition popcount :: "'a::len word \<Rightarrow> nat" where
  "popcount v = builtin_popcount v"

text \<open>The bisection of the primary templates, used where no builtin is available.\<close>

function ctz_loop :: "nat \<Rightarrow> 'a::len word \<Rightarrow> 'a word \<Rightarrow> nat \<Rightarrow> nat" where
  "ctz_loop Shift Mask Val ZeroBits =
    (if Shift = 0 then ZeroBits
     else if Val AND Mask = 0
       then ctz_loop (Shift div 2) (drop_bit (Shift div 2) Mask) (drop_bit Shift Val) (ZeroBits OR Shift)
       else ctz_loop (Shift div 2) (drop_bit (Shift div 2) Mask) Val ZeroBits)"
  by pat_completeness auto
termination
  by (relation "measure (\<lambda>(Shift, Mask, Val, ZeroBits). Shift)") auto

definition TrailingZerosCounter_count :: "'a::len word \<Rightarrow> nat" where
  "TrailingZerosCounter_count Val =
    (if Val = 0 then LENGTH('a)
     else if Val AND 1 \<noteq> 0 then 0
     else ctz_loop (LENGTH('a) div 2) (drop_bit (LENGTH('a) div 2) (- 1)) Val 0)"

function clz_loop :: "nat \<Rightarrow> 'a::len word \<Rightarrow> nat \<Rightarrow> nat" where
  "clz_loop Shift Val ZeroBits =
    (if Shift = 0 then ZeroBits
     else if drop_bit Shift Val \<noteq> 0 then clz_loop (Shift div 2) (drop_bit Shift Val) ZeroBits
     else clz_loop (Shift div 2) Val (ZeroBits OR Shift))"
  by pat_completeness auto
termination
  by (relation "measure (\<lambda>(Shift, Val, ZeroBits). Shift)") auto

definition LeadingZerosCounter_count :: "'a::len word \<Rightarrow> nat" where
  "LeadingZerosCounter_count Val =
    (if Val = 0 then LENGTH('a) else clz_loop (LENGTH('a) div 2) Val 0)"

declare ctz_loop.simps [simp del] clz_loop.simps [simp del]

definition bit_width :: "'a::len word \<Rightarrow> nat" where
  "bit_width v = LENGTH('a) - countl_zero v"

definition bit_floor :: "'a::len word \<Rightarrow> 'a word" where
  "bit_floor v = (if v = 0 then 0 else push_bit (bit_width v - 1) 1)"

definition bit_ceil :: "'a::len word \<Rightarrow> 'a word" where
  "bit_ceil v = (if v < 2 then 1 else push_bit (bit_width (v - 1)) 1)"

definition byteswap_16 :: "u16 \<Rightarrow> u16" where
  "byteswap_16 v = push_bit 8 v OR drop_bit 8 v"

definition byteswap_32 :: "u32 \<Rightarrow> u32" where
  "byteswap_32 v =
    (let Byte0 = v AND 0x000000FF; Byte1 = v AND 0x0000FF00;
         Byte2 = v AND 0x00FF0000; Byte3 = v AND 0xFF000000
     in push_bit 24 Byte0 OR push_bit 8 Byte1 OR drop_bit 8 Byte2 OR drop_bit 24 Byte3)"

definition byteswap_64 :: "u64 \<Rightarrow> u64" where
  "byteswap_64 v =
    (let Hi = ucast (byteswap_32 (ucast v)); Lo = byteswap_32 (ucast (drop_bit 32 v))
     in push_bit 32 Hi OR ucast Lo)"

text \<open>
  The rotations reduce the \<open>int\<close> amount modulo the \<open>unsigned\<close> width, so the reduced amount is
  below the width and the test for a negative amount after it never succeeds.
\<close>

definition rotl :: "'a::len word \<Rightarrow> u32 \<Rightarrow> 'a word" where
  "rotl v R =
    (let R' = unat (R mod of_nat LENGTH('a)) in
     if R' = 0 then v else push_bit R' v OR drop_bit (LENGTH('a) - R') v)"

definition rotr :: "'a::len word \<Rightarrow> u32 \<Rightarrow> 'a word" where
  "rotr v R =
    (let R' = unat (R mod of_nat LENGTH('a)) in
     if R' = 0 then v else drop_bit R' v OR push_bit (LENGTH('a) - R') v)"

section \<open>Powers of two and logarithms\<close>

definition has_single_bit :: "'a::len word \<Rightarrow> bool" where
  "has_single_bit v \<longleftrightarrow> v \<noteq> 0 \<and> v AND (v - 1) = 0"

definition isMask_32 :: "u32 \<Rightarrow> bool" where
  "isMask_32 v \<longleftrightarrow> v \<noteq> 0 \<and> (v + 1) AND v = 0"

definition isMask_64 :: "u64 \<Rightarrow> bool" where
  "isMask_64 v \<longleftrightarrow> v \<noteq> 0 \<and> (v + 1) AND v = 0"

definition isShiftedMask_32 :: "u32 \<Rightarrow> bool" where
  "isShiftedMask_32 v \<longleftrightarrow> v \<noteq> 0 \<and> isMask_32 ((v - 1) OR v)"

definition isShiftedMask_64 :: "u64 \<Rightarrow> bool" where
  "isShiftedMask_64 v \<longleftrightarrow> v \<noteq> 0 \<and> isMask_64 ((v - 1) OR v)"

definition isPowerOf2_32 :: "u32 \<Rightarrow> bool" where
  "isPowerOf2_32 v = has_single_bit v"

definition isPowerOf2_64 :: "u64 \<Rightarrow> bool" where
  "isPowerOf2_64 v = has_single_bit v"

text \<open>The two out-parameters are left unchanged unless the result is true.\<close>

definition isShiftedMask_32_idx :: "u32 \<Rightarrow> (nat \<times> nat) option" where
  "isShiftedMask_32_idx v =
    (if \<not> isShiftedMask_32 v then None else Some (countr_zero v, popcount v))"

definition isShiftedMask_64_idx :: "u64 \<Rightarrow> (nat \<times> nat) option" where
  "isShiftedMask_64_idx v =
    (if \<not> isShiftedMask_64 v then None else Some (countr_zero v, popcount v))"

text \<open>
  \<open>CTLog2\<close> is instantiated for powers of two only: a template recursion that never reaches 1
  does not compile, hence the \<open>option\<close>.
\<close>

fun CTLog2 :: "nat \<Rightarrow> nat option" where
  "CTLog2 kValue =
    (if kValue = 0 then None else if kValue = 1 then Some 0
     else if odd kValue then None else map_option Suc (CTLog2 (kValue div 2)))"

declare CTLog2.simps [simp del]

definition Log2_32 :: "u32 \<Rightarrow> u32" where
  "Log2_32 v = 31 - of_nat (countl_zero v)"

definition Log2_64 :: "u64 \<Rightarrow> u32" where
  "Log2_64 v = 63 - of_nat (countl_zero v)"

definition Log2_32_Ceil :: "u32 \<Rightarrow> u32" where
  "Log2_32_Ceil v = 32 - of_nat (countl_zero (v - 1))"

definition Log2_64_Ceil :: "u64 \<Rightarrow> u32" where
  "Log2_64_Ceil v = 64 - of_nat (countl_zero (v - 1))"

definition MinAlign :: "u64 \<Rightarrow> u64 \<Rightarrow> u64" where
  "MinAlign A B = (A OR B) AND (1 + NOT (A OR B))"

definition NextPowerOf2 :: "u64 \<Rightarrow> u64" where
  "NextPowerOf2 A0 =
    (let A1 = A0 OR drop_bit 1 A0; A2 = A1 OR drop_bit 2 A1; A3 = A2 OR drop_bit 4 A2;
         A4 = A3 OR drop_bit 8 A3; A5 = A4 OR drop_bit 16 A4; A6 = A5 OR drop_bit 32 A5
     in A6 + 1)"

definition PowerOf2Ceil :: "u64 \<Rightarrow> u64" where
  "PowerOf2Ceil A = (if A = 0 then 0 else NextPowerOf2 (A - 1))"

section \<open>Alignment and rounding\<close>

definition alignTo :: "u64 \<Rightarrow> u64 \<Rightarrow> u64" where
  "alignTo Value Align = (Value + Align - 1) div Align * Align"

definition alignToPowerOf2 :: "u64 \<Rightarrow> u64 \<Rightarrow> u64" where
  "alignToPowerOf2 Value Align = (Value + Align - 1) AND - Align"

definition alignTo_skew :: "u64 \<Rightarrow> u64 \<Rightarrow> u64 \<Rightarrow> u64" where
  "alignTo_skew Value Align Skew =
    (let Skew' = Skew mod Align in alignTo (Value - Skew') Align + Skew')"

definition divideCeil :: "u64 \<Rightarrow> u64 \<Rightarrow> u64" where
  "divideCeil Numerator Denominator = alignTo Numerator Denominator div Denominator"

definition divideNearest :: "u64 \<Rightarrow> u64 \<Rightarrow> u64" where
  "divideNearest Numerator Denominator = (Numerator + Denominator div 2) div Denominator"

definition alignDown :: "u64 \<Rightarrow> u64 \<Rightarrow> u64 \<Rightarrow> u64" where
  "alignDown Value Align Skew =
    (let Skew' = Skew mod Align in (Value - Skew') div Align * Align + Skew')"

section \<open>Sign extension\<close>

definition SignExtend32 :: "u32 \<Rightarrow> nat \<Rightarrow> u32" where
  "SignExtend32 X B = signed_drop_bit (32 - B) (push_bit (32 - B) X)"

definition SignExtend64 :: "u64 \<Rightarrow> nat \<Rightarrow> u64" where
  "SignExtend64 X B = signed_drop_bit (64 - B) (push_bit (64 - B) X)"

section \<open>Saturating and checked arithmetic\<close>

definition AbsoluteDifference :: "'a::len word \<Rightarrow> 'a word \<Rightarrow> 'a word" where
  "AbsoluteDifference X Y = (if X > Y then X - Y else Y - X)"

text \<open>The result is paired with the flag the code stores through \<open>ResultOverflowed\<close>.\<close>

definition SaturatingAdd :: "'a::len word \<Rightarrow> 'a word \<Rightarrow> 'a word \<times> bool" where
  "SaturatingAdd X Y =
    (let Z = X + Y; Overflowed = (Z < X \<or> Z < Y) in
     if Overflowed then (- 1, True) else (Z, False))"

text \<open>The variadic overload, with the operands after the second as a list.\<close>

fun SaturatingAdd_list :: "'a::len word \<Rightarrow> 'a word \<Rightarrow> 'a word list \<Rightarrow> 'a word" where
  "SaturatingAdd_list X Y [] = fst (SaturatingAdd X Y)"
| "SaturatingAdd_list X Y (Z # Args) =
    (let (XY, Overflowed) = SaturatingAdd X Y in
     if Overflowed then SaturatingAdd_list (- 1) 1 Args else SaturatingAdd_list XY Z Args)"

definition SaturatingMultiply :: "'a::len word \<Rightarrow> 'a word \<Rightarrow> 'a word \<times> bool" where
  "SaturatingMultiply X Y =
    (let Log2Z = sint (Log2_64 (ucast X) + Log2_64 (ucast Y));
         Max = - 1;
         Log2Max = sint (Log2_64 (ucast (Max :: 'a word))) in
     if Log2Z < Log2Max then (X * Y, False)
     else if Log2Z > Log2Max then (Max, True)
     else
       let Z = drop_bit 1 X * Y in
       if Z AND NOT (drop_bit 1 Max) \<noteq> 0 then (Max, True)
       else
         let Z' = push_bit 1 Z in
         if X AND 1 \<noteq> 0 then SaturatingAdd Z' Y else (Z', False))"

definition SaturatingMultiplyAdd :: "'a::len word \<Rightarrow> 'a word \<Rightarrow> 'a word \<Rightarrow> 'a word \<times> bool" where
  "SaturatingMultiplyAdd X Y A =
    (let (Product, Overflowed) = SaturatingMultiply X Y in
     if Overflowed then (Product, True) else SaturatingAdd A Product)"

definition AddOverflow :: "'a::len word \<Rightarrow> 'a word \<Rightarrow> 'a word \<times> bool" where
  "AddOverflow X Y =
    (let Result = X + Y in
     (Result,
      if 0 <s X \<and> 0 <s Y then Result \<le>s 0
      else if X <s 0 \<and> Y <s 0 then 0 \<le>s Result
      else False))"

definition SubOverflow :: "'a::len word \<Rightarrow> 'a word \<Rightarrow> 'a word \<times> bool" where
  "SubOverflow X Y =
    (let Result = X - Y in
     (Result,
      if X \<le>s 0 \<and> 0 <s Y then 0 \<le>s Result
      else if 0 \<le>s X \<and> Y <s 0 then Result \<le>s 0
      else False))"

definition MulOverflow :: "'a::len word \<Rightarrow> 'a word \<Rightarrow> 'a word \<times> bool" where
  "MulOverflow X Y =
    (let UX = (if X <s 0 then 0 - X else X);
         UY = (if Y <s 0 then 0 - Y else Y);
         UResult = UX * UY;
         IsNegative = ((X <s 0) \<noteq> (Y <s 0));
         Result = (if IsNegative then 0 - UResult else UResult);
         Max = (push_bit (LENGTH('a) - 1) 1 - 1 :: 'a word) in
     (Result,
      if UX = 0 \<or> UY = 0 then False
      else if IsNegative then UX > (Max + 1) div UY
      else UX > Max div UY))"

end
