(* ===== verification/MathFacts.thy ===== *)
theory MathFacts
  imports MathExtras
begin

text \<open>
  What the helpers of \<open>MathExtras\<close> compute: the counters are the position of the extreme set
  bits, on the builtin and on the bisection path; rounding is to the nearest multiple or power;
  sign extension, rotation, and the saturating and checked arithmetic agree with the
  mathematical operation on the integers the words stand for.
\<close>

section \<open>Facts about the counters\<close>

lemma builtin_ctz_props:
  assumes "v \<noteq> (0 :: 'a::len word)"
  shows "builtin_ctz v < LENGTH('a)" "bit v (builtin_ctz v)" "i < builtin_ctz v \<Longrightarrow> \<not> bit v i"
proof -
  obtain j where j: "bit v j" "j < LENGTH('a)"
    using assms by (metis bit_imp_le_length bit_word_eqI bit_0_eq bot_apply bot_bool_def)
  show lt: "builtin_ctz v < LENGTH('a)"
    unfolding builtin_ctz_def
    using takeWhile_upt_props(1,2) [where P = "\<lambda>i. \<not> bit v i" and n = "LENGTH('a)"] j
    by (metis le_neq_implies_less)
  then show "bit v (builtin_ctz v)"
    unfolding builtin_ctz_def using takeWhile_upt_props(3) by blast
  show "i < builtin_ctz v \<Longrightarrow> \<not> bit v i"
    unfolding builtin_ctz_def using takeWhile_upt_props(2) by blast
qed

lemma builtin_ctz_eqI:
  "bit (v :: 'a::len word) k \<Longrightarrow> (\<And>i. i < k \<Longrightarrow> \<not> bit v i) \<Longrightarrow> builtin_ctz v = k"
  unfolding builtin_ctz_def by (rule length_takeWhile_upt_eq) (auto dest: bit_imp_le_length)

lemma builtin_clz_props:
  assumes "v \<noteq> (0 :: 'a::len word)"
  shows "builtin_clz v < LENGTH('a)" "bit v (LENGTH('a) - 1 - builtin_clz v)"
    "LENGTH('a) - 1 - builtin_clz v < i \<Longrightarrow> \<not> bit v i"
proof -
  let ?P = "\<lambda>i. \<not> bit v (LENGTH('a) - 1 - i)"
  obtain j where j: "bit v j" "j < LENGTH('a)"
    using assms by (metis bit_imp_le_length bit_word_eqI bit_0_eq bot_apply bot_bool_def)
  have "\<not> ?P (LENGTH('a) - 1 - j)"
    using j by simp
  then have "\<not> LENGTH('a) - 1 - j < builtin_clz v"
    unfolding builtin_clz_def using takeWhile_upt_props(2) [where P = ?P] by blast
  then show lt: "builtin_clz v < LENGTH('a)"
    using j by (metis (no_types, lifting) One_nat_def diff_less leI len_gt_0 less_trans zero_less_one order_le_less_trans diff_le_self diff_Suc_less)
  then show "bit v (LENGTH('a) - 1 - builtin_clz v)"
    unfolding builtin_clz_def using takeWhile_upt_props(3) [where P = ?P] by blast
  show "\<not> bit v i" if i: "LENGTH('a) - 1 - builtin_clz v < i"
  proof (cases "i < LENGTH('a)")
    case True
    then have "LENGTH('a) - 1 - i < builtin_clz v" using i by linarith
    then have "?P (LENGTH('a) - 1 - i)"
      unfolding builtin_clz_def using takeWhile_upt_props(2) [where P = ?P] by blast
    then show ?thesis using True by simp
  qed (simp add: impossible_bit)
qed

lemma builtin_clz_eqI:
  assumes "bit (v :: 'a::len word) (LENGTH('a) - 1 - k)" "k < LENGTH('a)" "\<And>i. LENGTH('a) - 1 - k < i \<Longrightarrow> \<not> bit v i"
  shows "builtin_clz v = k"
  unfolding builtin_clz_def by (rule length_takeWhile_upt_eq) (use assms in auto)

lemma countl_zero_le: "countl_zero (v :: 'a::len word) \<le> LENGTH('a)"
  using builtin_clz_props(1) [of v] by (cases "v = 0") (simp_all add: countl_zero_def)

lemma countr_zero_le: "countr_zero (v :: 'a::len word) \<le> LENGTH('a)"
  using builtin_ctz_props(1) [of v] by (cases "v = 0") (simp_all add: countr_zero_def)

lemma countl_zero_bounds:
  fixes v :: "'a::len word"
  assumes "v \<noteq> 0"
  defines "l \<equiv> LENGTH('a) - 1 - countl_zero v"
  shows "2 ^ l \<le> uint v" "uint v < 2 ^ Suc l"
proof -
  have l: "l = LENGTH('a) - 1 - builtin_clz v"
    using assms by (simp add: countl_zero_def)
  show "2 ^ l \<le> uint v"
    using builtin_clz_props(2) [OF assms(1)] bit_word_imp_le l by blast
  show "uint v < 2 ^ Suc l"
    unfolding uint_less_2p_iff_bits using builtin_clz_props(3) [OF assms(1)] l by auto
qed

lemma not_bit_lt_countr_zero: "i < countr_zero v \<Longrightarrow> \<not> bit (v :: 'a::len word) i"
  using builtin_ctz_props(3) [of v i] by (cases "v = 0") (simp_all add: countr_zero_def)

lemma bit_countr_zero: "v \<noteq> 0 \<Longrightarrow> bit (v :: 'a::len word) (countr_zero v)"
  using builtin_ctz_props(2) [of v] by (simp add: countr_zero_def)

lemma dvd_countr_zero: "2 ^ countr_zero v dvd sint (v :: 'a::len word)"
proof -
  have "take_bit (countr_zero v) (sint v) = 0"
    by (rule bit_eqI) (auto simp: bit_take_bit_iff bit_sint_iff not_bit_lt_countr_zero
        dest!: not_bit_lt_countr_zero order_less_le_trans [OF _ countr_zero_le])
  then show ?thesis
    by (simp add: take_bit_eq_mod dvd_eq_mod_eq_0)
qed

lemma countl_one_bits:
  fixes v :: "'a::len word"
  shows "LENGTH('a) - countl_one v \<le> i \<Longrightarrow> i < LENGTH('a) \<Longrightarrow> bit v i"
proof -
  assume i: "LENGTH('a) - countl_one v \<le> i" "i < LENGTH('a)"
  show "bit v i"
  proof (cases "NOT v = 0")
    case True
    then have "v = NOT 0" by (metis bit.double_compl)
    then show ?thesis using i(2) by (simp add: bit_simps)
  next
    case False
    then have "LENGTH('a) - 1 - builtin_clz (NOT v) < i"
      using i builtin_clz_props(1) [OF False] by (simp add: countl_one_def countl_zero_def)
    then have "\<not> bit (NOT v) i"
      by (rule builtin_clz_props(3) [OF False])
    then show ?thesis using i(2) by (simp add: bit_simps)
  qed
qed

lemma countr_one_bits:
  fixes v :: "'a::len word"
  assumes "i < countr_one v"
  shows "bit v i"
proof -
  have "\<not> bit (NOT v) i"
    using assms by (simp add: countr_one_def not_bit_lt_countr_zero)
  moreover have "i < LENGTH('a)"
    using assms countr_zero_le [of "NOT v"] by (simp add: countr_one_def)
  ultimately show ?thesis by (simp add: bit_simps)
qed

text \<open>The bisection loops return what the builtins return, for every power-of-two width.\<close>

lemma ctz_loop_correct:
  fixes v :: "'a::len word"
  assumes "s = (if j = 0 then 0 else 2 ^ (j - 1))" "2 ^ j \<le> LENGTH('a)" "v \<noteq> 0"
    "builtin_ctz v < 2 ^ j" "2 ^ j dvd z" "s \<noteq> 0 \<Longrightarrow> m = mask s"
  shows "ctz_loop s m v z = z + builtin_ctz v"
  using assms
proof (induction j arbitrary: s m v z)
  case 0
  then show ?case by (simp add: ctz_loop.simps)
next
  case (Suc j)
  have s: "s = 2 ^ j" and m: "m = mask s" using Suc.prems(1,6) by simp_all
  let ?s' = "if j = 0 then 0 else 2 ^ (j - 1) :: nat"
  let ?m' = "drop_bit ?s' m"
  have half: "s div 2 = ?s'"
    using s by (cases j) simp_all
  have mask': "?s' \<noteq> 0 \<Longrightarrow> ?m' = mask ?s'"
    using m s Suc.prems(2) by (cases j) (auto intro!: bit_word_eqI simp: bit_simps)
  have le: "2 ^ j \<le> LENGTH('a)" using Suc.prems(2) by simp
  have dvd: "2 ^ j dvd z"
    using Suc.prems(5) by (metis dvd_trans le_imp_power_dvd lessI less_imp_le)
  show ?case
  proof (cases "v AND m = 0")
    case True
    have low: "\<not> bit v i" if "i < s" for i
    proof -
      have "\<not> bit (v AND m) i" using True by simp
      with that show ?thesis
        using m by (auto simp: bit_simps dest: bit_imp_le_length)
    qed
    have ge: "s \<le> builtin_ctz v"
      using low builtin_ctz_props(2) [OF Suc.prems(3)] not_less by blast
    have bit': "bit (drop_bit s v) (builtin_ctz v - s)"
      using ge builtin_ctz_props(2) [OF Suc.prems(3)] by (simp add: bit_simps)
    then have nz: "drop_bit s v \<noteq> 0" by auto
    have ctz': "builtin_ctz (drop_bit s v) = builtin_ctz v - s"
      by (rule builtin_ctz_eqI [OF bit']) (use builtin_ctz_props(3) [OF Suc.prems(3)] in \<open>auto simp: bit_simps\<close>)
    have or: "z OR s = z + s"
      using Suc.prems(5) s by (simp only: nat_or_exp_add)
    have "ctz_loop ?s' ?m' (drop_bit s v) (z OR s) = (z OR s) + builtin_ctz (drop_bit s v)"
    proof (rule Suc.IH)
      show "2 ^ j dvd z OR s" using dvd s or by simp
      show "builtin_ctz (drop_bit s v) < 2 ^ j" using ctz' Suc.prems(4) s ge by simp
    qed (use nz le mask' in simp_all)
    then show ?thesis
      using True half ctz' ge s or by (subst ctz_loop.simps) simp
  next
    case False
    then obtain i where "bit (v AND m) i" by (metis bit_0_eq bit_word_eqI bot_apply bot_bool_def)
    then have "bit v i" "i < s" using m by (auto simp: bit_simps)
    then have "builtin_ctz v < 2 ^ j"
      using builtin_ctz_props(3) [OF Suc.prems(3)] s by (meson not_less order_le_less_trans)
    then have "ctz_loop ?s' ?m' v z = z + builtin_ctz v"
      using Suc.prems(3) le dvd mask' by (intro Suc.IH) simp_all
    then show ?thesis
      using False half s by (subst ctz_loop.simps) simp
  qed
qed

lemma TrailingZerosCounter_count_eq:
  assumes "LENGTH('a::len) = 2 ^ k"
  shows "TrailingZerosCounter_count (v :: 'a word) = countr_zero v"
proof (cases "v = 0")
  case False
  show ?thesis
  proof (cases "bit v 0")
    case True
    then have "builtin_ctz v = 0" by (rule builtin_ctz_eqI) simp
    then show ?thesis
      using True False by (simp add: TrailingZerosCounter_count_def countr_zero_def and_one_eq_0_iff)
  next
    case no: False
    let ?s = "if k = 0 then 0 else 2 ^ (k - 1) :: nat"
    have s: "LENGTH('a) div 2 = ?s"
      using assms by (cases k) simp_all
    have "?s \<noteq> 0 \<Longrightarrow> drop_bit ?s (- 1 :: 'a word) = mask ?s"
      using assms by (cases k) (auto intro!: bit_word_eqI simp: bit_simps)
    then have "ctz_loop ?s (drop_bit ?s (- 1)) v 0 = 0 + builtin_ctz v"
      using False builtin_ctz_props(1) [OF False] assms
      by (intro ctz_loop_correct [where j = k]) simp_all
    then show ?thesis
      using False no s by (simp add: TrailingZerosCounter_count_def countr_zero_def and_one_eq_0_iff del: drop_bit_minus_one)
  qed
qed (simp add: TrailingZerosCounter_count_def countr_zero_def)

lemma clz_loop_correct:
  fixes v :: "'a::len word"
  assumes "s = (if j = 0 then 0 else 2 ^ (j - 1))" "v \<noteq> 0" "uint v < 2 ^ (2 ^ j :: nat)" "2 ^ j dvd z" "2 ^ j \<le> LENGTH('a)"
  shows "clz_loop s v z + LENGTH('a) = z + builtin_clz v + 2 ^ j"
  using assms
proof (induction j arbitrary: s v z)
  case 0
  then have "uint v < 2" by simp
  moreover have "uint v \<noteq> 0" using 0 by (simp add: uint_0_iff)
  moreover have "0 \<le> uint v" by simp
  ultimately have "uint v = uint (1 :: 'a word)" by (simp only: uint_1_eq)
  then have v: "v = 1" by (rule unsigned_word_eqI)
  have "builtin_clz (1 :: 'a word) = LENGTH('a) - 1"
    by (rule builtin_clz_eqI) (auto simp: bit_simps)
  then show ?case using 0 v by (simp add: clz_loop.simps)
next
  case (Suc j)
  have s: "s = 2 ^ j" using Suc.prems(1) by simp
  let ?s' = "if j = 0 then 0 else 2 ^ (j - 1) :: nat"
  have half: "s div 2 = ?s'"
    using s by (cases j) simp_all
  have dvd: "2 ^ j dvd z"
    using Suc.prems(4) by (metis dvd_trans le_imp_power_dvd lessI less_imp_le)
  have le: "2 ^ j \<le> LENGTH('a)" using Suc.prems(5) by simp
  note clz = builtin_clz_props [OF Suc.prems(2)]
  show ?case
  proof (cases "drop_bit s v = 0")
    case True
    have small: "uint v < 2 ^ (2 ^ j :: nat)"
      unfolding uint_less_2p_iff_bits
    proof (intro allI impI)
      fix n :: nat assume "2 ^ j \<le> n"
      moreover have "\<not> bit (drop_bit s v) (n - s)" using True by simp
      ultimately show "\<not> bit v n" using s by (simp add: bit_simps)
    qed
    have or: "z OR s = z + s"
      using Suc.prems(4) s by (simp only: nat_or_exp_add)
    have "clz_loop ?s' v (z OR s) + LENGTH('a) = (z OR s) + builtin_clz v + 2 ^ j"
      using Suc.prems(2) small le dvd or s by (intro Suc.IH) simp_all
    then show ?thesis
      using True half s or by (subst clz_loop.simps) simp
  next
    case False
    have small: "uint (drop_bit s v) < 2 ^ (2 ^ j :: nat)"
      using Suc.prems(3) s unfolding uint_less_2p_iff_bits by (auto simp: bit_simps)
    have top: "s \<le> LENGTH('a) - 1 - builtin_clz v"
    proof (rule ccontr)
      assume "\<not> ?thesis"
      then have "drop_bit s v = 0"
        using clz(3) by (auto intro!: bit_word_eqI simp: bit_simps)
      with False show False by simp
    qed
    have "builtin_clz (drop_bit s v) = builtin_clz v + s"
      by (rule builtin_clz_eqI) (use clz top in \<open>auto simp: bit_simps add.commute\<close>)
    moreover have "clz_loop ?s' (drop_bit s v) z + LENGTH('a) = z + builtin_clz (drop_bit s v) + 2 ^ j"
      using False small le dvd by (intro Suc.IH) simp_all
    ultimately show ?thesis
      using False half s by (subst clz_loop.simps) simp
  qed
qed

lemma LeadingZerosCounter_count_eq:
  assumes "LENGTH('a::len) = 2 ^ k"
  shows "LeadingZerosCounter_count (v :: 'a word) = countl_zero v"
proof (cases "v = 0")
  case False
  let ?s = "if k = 0 then 0 else 2 ^ (k - 1) :: nat"
  have "clz_loop ?s v 0 + LENGTH('a) = 0 + builtin_clz v + 2 ^ k"
    using False assms uint_bounded [of v] by (intro clz_loop_correct) simp_all
  moreover have "LENGTH('a) div 2 = ?s"
    using assms by (cases k) simp_all
  ultimately show ?thesis
    using False assms by (simp add: LeadingZerosCounter_count_def countl_zero_def)
qed (simp add: LeadingZerosCounter_count_def countl_zero_def)

section \<open>Facts about extension, alignment and powers of two\<close>

lemma sint_SignExtend64:
  assumes "0 < B" "B \<le> 64"
  shows "sint (SignExtend64 x B) = signed_take_bit (B - 1) (uint x)"
proof (rule bit_eqI)
  fix n
  obtain b where B: "B = Suc b" "b < 64"
    using assms by (cases B) auto
  consider "n < b" | "n = b" | "b < n" by linarith
  then show "bit (sint (SignExtend64 x B)) n = bit (signed_take_bit (B - 1) (uint x)) n"
    by cases (use B in \<open>auto simp: SignExtend64_def bit_sint_iff bit_signed_take_bit_iff bit_uint_iff bit_simps min_def\<close>)
qed

lemma bit_SignExtend64: 
  assumes "0 < B" "B \<le> 64" "n < 64"
  shows "bit (SignExtend64 v B) n \<longleftrightarrow> bit v (min n (B - 1))"
  unfolding SignExtend64_def using assms by (auto simp: bit_simps min_def)

lemma Hi52_Lo12: "((v + 0x800) AND NOT 0xfff) + SignExtend64 v 12 = v"
proof -
  define Y where "Y = (word_of_int (uint v + 2048) :: u64)"
  have y: "v + 0x800 = Y" by (simp add: Y_def)
  have m: "(0xfff :: u64) = mask 12" by (simp add: mask_eq_exp_minus_1)
  have A: "Y AND NOT 0xfff = push_bit 12 (drop_bit 12 Y)"
    unfolding m by (intro bit_word_eqI) (auto simp: bit_simps)
  have B: "SignExtend64 v 12 = take_bit 12 Y - 2048"
  proof -
    have "sint (SignExtend64 v 12) = take_bit 12 (uint v + 2048) - 2048"
      using sint_SignExtend64 [of 12 v] by (simp add: signed_take_bit_eq_take_bit_shift)
    then have "SignExtend64 v 12 = word_of_int (take_bit 12 (uint v + 2048) - 2048)"
      by (metis word_of_int_sint)
    moreover have "take_bit 12 (word_of_int K :: u64) = word_of_int (take_bit 12 K)" for K
      by (intro bit_word_eqI) (auto simp: bit_simps)
    ultimately show ?thesis unfolding Y_def by (simp only: of_int_diff of_int_numeral)
  qed
  have "push_bit 12 (drop_bit 12 Y) + (take_bit 12 Y - 2048) = Y - 2048"
    by (simp only: bits_ident add_diff_eq)
  then show ?thesis unfolding y A B by (simp only: y [symmetric] add_diff_cancel)
qed
lemma sint_SignExtend32:
  assumes "0 < B" "B \<le> 32"
  shows "sint (SignExtend32 x B) = signed_take_bit (B - 1) (uint x)"
proof (rule bit_eqI)
  fix n
  obtain b where B: "B = Suc b" "b < 32"
    using assms by (cases B) auto
  consider "n < b" | "n = b" | "b < n" by linarith
  then show "bit (sint (SignExtend32 x B)) n = bit (signed_take_bit (B - 1) (uint x)) n"
    by cases (use B in \<open>auto simp: SignExtend32_def bit_sint_iff bit_signed_take_bit_iff bit_uint_iff bit_simps min_def\<close>)
qed

lemma alignTo_least:
  assumes "Align \<noteq> 0" "uint Value + uint Align - 1 < 2 ^ 64"
  shows "uint (alignTo Value Align) = uint Align * ((uint Value + uint Align - 1) div uint Align)"
proof -
  have pos: "0 < uint Align"
    using assms(1) by (simp add: less_le uint_0_iff)
  let ?s = "uint Value + uint Align - 1"
  have "0 \<le> ?s"
    using pos uint_nonneg [of Value] by linarith
  then have s: "uint (Value + Align - 1) = ?s"
    using assms(2) mod_pos_pos_trivial [of ?s "2 ^ 64"] by (simp add: uint_word_ariths mod_diff_left_eq)
  have "?s div uint Align * uint Align \<le> ?s"
    using pos by (metis div_mult_mod_eq le_add_same_cancel1 pos_mod_sign)
  then have "uint (alignTo Value Align) = ?s div uint Align * uint Align"
    using assms(2) pos s unfolding alignTo_def
    by (simp add: uint_word_ariths uint_div pos_imp_zdiv_nonneg_iff mod_pos_pos_trivial)
  then show ?thesis by (simp add: mult.commute)
qed

lemma bit_smear:
  fixes x a :: "u64"
  assumes "\<And>n. bit x n \<longleftrightarrow> (\<exists>j<k. bit a (n + j))"
  shows "bit (x OR drop_bit k x) n \<longleftrightarrow> (\<exists>j<2 * k. bit a (n + j))"
proof
  assume "bit (x OR drop_bit k x) n"
  then consider j where "j < k" "bit a (n + j)" | j where "j < k" "bit a (n + k + j)"
    using assms by (auto simp: bit_simps add.commute)
  then show "\<exists>j<2 * k. bit a (n + j)"
  proof cases
    case 1
    then show ?thesis by (intro exI [of _ j]) simp
  next
    case 2
    then show ?thesis by (intro exI [of _ "k + j"]) (simp add: add.assoc)
  qed
next
  assume "\<exists>j<2 * k. bit a (n + j)"
  then obtain j where j: "j < 2 * k" "bit a (n + j)" by blast
  show "bit (x OR drop_bit k x) n"
  proof (cases "j < k")
    case True
    then show ?thesis using j assms by (auto simp: bit_simps)
  next
    case False
    then have "bit x (n + k)"
      unfolding assms using j by (intro exI [of _ "j - k"]) (auto simp: add.assoc)
    then show ?thesis by (simp add: bit_simps add.commute)
  qed
qed

lemma NextPowerOf2_eq:
  "NextPowerOf2 A = push_bit (bit_width A) 1"
proof -
  define x where "x = NextPowerOf2 A - 1"
  have bits: "bit x n \<longleftrightarrow> (\<exists>j<64. bit A (n + j))" for n
  proof -
    let ?A1 = "A OR drop_bit 1 A" let ?A2 = "?A1 OR drop_bit 2 ?A1" let ?A3 = "?A2 OR drop_bit 4 ?A2"
    let ?A4 = "?A3 OR drop_bit 8 ?A3" let ?A5 = "?A4 OR drop_bit 16 ?A4"
    have 0: "bit A n \<longleftrightarrow> (\<exists>j<1. bit A (n + j))" for n by simp
    have 1: "bit ?A1 n \<longleftrightarrow> (\<exists>j<2. bit A (n + j))" for n
      using bit_smear [OF 0, of n] by simp
    have 2: "bit ?A2 n \<longleftrightarrow> (\<exists>j<4. bit A (n + j))" for n
      using bit_smear [OF 1, of n] by simp
    have 3: "bit ?A3 n \<longleftrightarrow> (\<exists>j<8. bit A (n + j))" for n
      using bit_smear [OF 2, of n] by simp
    have 4: "bit ?A4 n \<longleftrightarrow> (\<exists>j<16. bit A (n + j))" for n
      using bit_smear [OF 3, of n] by simp
    have 5: "bit ?A5 n \<longleftrightarrow> (\<exists>j<32. bit A (n + j))" for n
      using bit_smear [OF 4, of n] by simp
    show ?thesis
      unfolding x_def NextPowerOf2_def Let_def using bit_smear [OF 5, of n] by simp
  qed
  have "x = mask (bit_width A)"
  proof (cases "A = 0")
    case True
    then show ?thesis
      by (auto intro!: bit_word_eqI simp: bits bit_width_def countl_zero_def)
  next
    case False
    note clz = builtin_clz_props [OF False]
    show ?thesis
    proof (rule bit_word_eqI)
      fix n assume n: "n < LENGTH(64)"
      have w: "bit_width A = 64 - builtin_clz A"
        using False by (simp add: bit_width_def countl_zero_def)
      show "bit x n \<longleftrightarrow> bit (mask (bit_width A) :: u64) n"
      proof (cases "n < 64 - builtin_clz A")
        case True
        then have "bit A (n + (63 - builtin_clz A - n))" "63 - builtin_clz A - n < 64"
          using clz(1,2) by auto
        then show ?thesis using True w n unfolding bits by (auto simp: bit_simps)
      next
        case False
        then have "\<not> bit A (n + j)" for j
          using clz(1) clz(3) [of "n + j"] by auto
        then show ?thesis using False w unfolding bits by (auto simp: bit_simps)
      qed
    qed
  qed
  then have "NextPowerOf2 A = mask (bit_width A) + 1"
    unfolding x_def by (metis diff_add_cancel)
  then show ?thesis
    by (simp add: mask_eq_decr_exp)
qed

lemma bit_width_bounds:
  fixes v :: "'a::len word"
  assumes "v \<noteq> 0"
  shows "0 < bit_width v" "2 ^ (bit_width v - 1) \<le> uint v" "uint v < 2 ^ bit_width v"
proof -
  have "countl_zero v < LENGTH('a)"
    using builtin_clz_props(1) [OF assms] assms by (simp add: countl_zero_def)
  then have *: "bit_width v = Suc (LENGTH('a) - 1 - countl_zero v)"
    by (simp add: bit_width_def)
  show "0 < bit_width v" "2 ^ (bit_width v - 1) \<le> uint v" "uint v < 2 ^ bit_width v"
    using countl_zero_bounds [OF assms] by (simp_all add: *)
qed

lemma bit_width_le: "bit_width (v :: 'a::len word) \<le> LENGTH('a)"
  by (simp add: bit_width_def)

lemma uint_push_bit_1: "n < LENGTH('a) \<Longrightarrow> uint (push_bit n 1 :: 'a::len word) = 2 ^ n"
  by (simp only: push_bit_1_word uint_word_of_int_eq) (simp add: take_bit_int_eq_self_iff)

lemma PowerOf2Ceil_props:
  assumes "A \<noteq> 0" "uint A \<le> 2 ^ 63"
  obtains k where "k < 64" "PowerOf2Ceil A = push_bit k 1" "uint A \<le> 2 ^ k" "k \<noteq> 0 \<Longrightarrow> 2 ^ (k - 1) < uint A"
proof -
  let ?k = "bit_width (A - 1)"
  have A1: "uint (A - 1) = uint A - 1"
    using assms(1) by (rule uint_minus_1)
  show thesis
  proof (cases "A = 1")
    case True
    then show ?thesis
      by (intro that [of 0]) (simp_all add: PowerOf2Ceil_def NextPowerOf2_eq bit_width_def countl_zero_def)
  next
    case False
    then have nz: "A - 1 \<noteq> 0" by simp
    note w = bit_width_bounds [OF nz]
    have "(2::int) ^ (?k - 1) < 2 ^ 63" using w(2) A1 assms(2) by linarith
    then have "?k - 1 < 63"
      by (simp only: power_strict_increasing_iff one_less_numeral_iff semiring_norm)
    then have "?k < 64" using w(1) by simp
    then show ?thesis
      using w A1 by (intro that [of ?k]) (simp_all add: PowerOf2Ceil_def NextPowerOf2_eq assms(1))
  qed
qed

section \<open>Facts about saturating and checked arithmetic\<close>

lemma SaturatingAdd_spec:
  fixes X Y :: "'a::len word"
  shows "uint (fst (SaturatingAdd X Y)) = min (uint X + uint Y) (2 ^ LENGTH('a) - 1)"
    "snd (SaturatingAdd X Y) \<longleftrightarrow> 2 ^ LENGTH('a) \<le> uint X + uint Y"
proof -
  let ?n = "2 ^ LENGTH('a) :: int"
  have b: "uint X < ?n" "uint Y < ?n" "0 \<le> uint X" "0 \<le> uint Y"
    by (simp_all add: uint_bounded)
  note sum = uint_plus_if' [of X Y]
  have ov: "X + Y < X \<or> X + Y < Y \<longleftrightarrow> ?n \<le> uint X + uint Y"
    using b sum by (auto simp: word_less_def)
  then show "uint (fst (SaturatingAdd X Y)) = min (uint X + uint Y) (?n - 1)"
    using sum by (auto simp: SaturatingAdd_def Let_def unat_max_word min_def)
  show "snd (SaturatingAdd X Y) \<longleftrightarrow> ?n \<le> uint X + uint Y"
    using ov by (auto simp: SaturatingAdd_def Let_def)
qed

lemma bit_width_uint_le:
  fixes v :: "'a::len word" and w :: "'b::len word"
  assumes "uint v = uint w"
  shows "bit_width w \<le> bit_width v"
proof (cases "w = 0")
  case True
  then show ?thesis by (simp add: bit_width_def countl_zero_def)
next
  case False
  with assms have "v \<noteq> 0" by (metis uint_0_iff)
  show ?thesis
  proof (rule ccontr)
    assume "\<not> ?thesis"
    then have "(2::int) ^ bit_width v \<le> 2 ^ (bit_width w - 1)"
      by (intro power_increasing) simp_all
    then show False
      using bit_width_bounds [OF False] bit_width_bounds [OF \<open>v \<noteq> 0\<close>] assms by linarith
  qed
qed

lemma sint_Log2_64_ucast:
  fixes X :: "'a::len word"
  assumes "LENGTH('a) \<le> 64"
  shows "Log2_64 (ucast X) = (if X = 0 then - 1 else of_nat (bit_width X - 1))"
proof (cases "X = 0")
  case True
  then show ?thesis by (simp add: Log2_64_def countl_zero_def)
next
  case False
  have u: "uint (ucast X :: u64) = uint X"
  proof -
    have "(2::int) ^ LENGTH('a) \<le> 2 ^ 64"
      using assms by (intro power_increasing) simp_all
    then have "uint X < 2 ^ 64"
      using uint_bounded [of X] by linarith
    then show ?thesis
      by (simp only: unsigned_ucast_eq [where ?'a = int]) (simp add: take_bit_int_eq_self_iff)
  qed
  have nz: "(ucast X :: u64) \<noteq> 0"
    using u False by (metis uint_0_iff unsigned_0)
  have "bit_width (ucast X :: u64) = bit_width X"
    using bit_width_uint_le [OF u] bit_width_uint_le [OF u [symmetric]] by (rule order_antisym [rotated])
  then have "countl_zero (ucast X :: u64) = 64 - bit_width X"
    using countl_zero_le [of "ucast X :: u64"] by (auto simp: bit_width_def)
  moreover have "0 < bit_width X" "bit_width X \<le> 64"
    using bit_width_bounds(1) [OF False] bit_width_le [of X] assms by simp_all
  ultimately show ?thesis
    using False by (simp add: Log2_64_def)
qed

lemma Log2_64_ucast_sum:
  fixes X Y :: "'a::len word"
  assumes "LENGTH('a) \<le> 64"
  shows "sint (Log2_64 (ucast X) + Log2_64 (ucast Y)) =
    (if X = 0 then - 1 else int (bit_width X) - 1) + (if Y = 0 then - 1 else int (bit_width Y) - 1)"
proof -
  have *: "Log2_64 (ucast Z) = word_of_int (if Z = 0 then - 1 else int (bit_width Z) - 1)" for Z :: "'a word"
    using sint_Log2_64_ucast [OF assms, of Z] bit_width_bounds(1) [of Z] by (auto simp: of_nat_diff)
  have b: "bit_width Z \<le> 64" for Z :: "'a word"
    using bit_width_le [of Z] assms by simp
  show ?thesis
    unfolding * wi_hom_add using b [of X] b [of Y] by (intro sint_word_of_int_small) auto
qed

lemma Log2_64_max:
  assumes "LENGTH('a::len) \<le> 64"
  shows "sint (Log2_64 (ucast (- 1 :: 'a word))) = int LENGTH('a) - 1"
proof -
  have "builtin_clz (- 1 :: 'a word) = 0"
    by (rule builtin_clz_eqI) (auto simp: bit_simps)
  then have w: "bit_width (- 1 :: 'a word) = LENGTH('a)"
    by (simp add: bit_width_def countl_zero_def)
  have "Log2_64 (ucast (- 1 :: 'a word)) = word_of_int (int LENGTH('a) - 1)"
    using sint_Log2_64_ucast [OF assms, of "- 1"] w by (cases "LENGTH('a)") simp_all
  then show ?thesis
    using assms by (simp only:) (rule sint_word_of_int_small, auto)
qed

text \<open>The last branch of \<open>SaturatingMultiply\<close>, reached when the logarithms add up to the width.\<close>

definition saturating_halves :: "'a::len word \<Rightarrow> 'a word \<Rightarrow> 'a word \<times> bool" where
  "saturating_halves X Y =
    (let Z = drop_bit 1 X * Y in
     if Z AND NOT (drop_bit 1 (- 1)) \<noteq> 0 then (- 1, True)
     else
       let Z' = push_bit 1 Z in
       if X AND 1 \<noteq> 0 then SaturatingAdd Z' Y else (Z', False))"

lemma saturating_halves_spec:
  fixes X Y :: "'a::len word"
  assumes high: "uint X * uint Y < 2 * 2 ^ LENGTH('a)"
  shows "uint (fst (saturating_halves X Y)) = min (uint X * uint Y) (2 ^ LENGTH('a) - 1)
    \<and> (snd (saturating_halves X Y) \<longleftrightarrow> 2 ^ LENGTH('a) \<le> uint X * uint Y)"
proof -
  let ?n = "LENGTH('a)" let ?M = "2 ^ ?n :: int"
  define q where "q = uint X div 2"
  define r where "r = uint X mod 2"
  have X: "uint X = 2 * q + r" by (simp add: q_def r_def)
  have r: "r = 0 \<or> r = 1" by (auto simp: r_def)
  have q0: "0 \<le> q" by (simp add: q_def)
  have prod: "uint X * uint Y = 2 * (q * uint Y) + r * uint Y"
    unfolding X by (simp add: algebra_simps)
  have rY: "0 \<le> r * uint Y" "r * uint Y \<le> uint Y" using r by auto
  have qY: "q * uint Y < ?M"
    using high prod rY by linarith
  have "uint (drop_bit 1 X) = q"
    by (simp only: unsigned_drop_bit_eq [where ?'a = int] q_def) (simp add: drop_bit_eq_div take_bit_int_eq_self uint_bounded)
  then have Z: "uint (drop_bit 1 X * Y) = q * uint Y"
    using qY q0 by (simp only: uint_word_ariths) (simp add: mod_pos_pos_trivial)
  have top: "drop_bit 1 X * Y AND NOT (drop_bit 1 (- 1)) \<noteq> 0 \<longleftrightarrow> 2 ^ (?n - 1) \<le> q * uint Y"
  proof -
    have "uint (drop_bit 1 X * Y) < 2 ^ (?n - 1) \<longleftrightarrow> drop_bit 1 X * Y AND NOT (drop_bit 1 (- 1)) = 0"
      unfolding uint_less_2p_iff_bits
      by (auto simp: bit_eq_iff bit_simps dest: bit_imp_le_length) (metis Suc_leI Suc_pred' bit_imp_le_length diff_Suc_less le_less_Suc_eq len_gt_0 not_less not_less_eq_eq One_nat_def)
    then show ?thesis using Z by linarith
  qed
  have n: "?M = 2 * 2 ^ (?n - 1)"
    by (metis Suc_pred' len_gt_0 power_Suc)
  have mul: "saturating_halves X Y =
    (if 2 ^ (?n - 1) \<le> q * uint Y then (- 1, True)
     else if X AND 1 \<noteq> 0 then SaturatingAdd (push_bit 1 (drop_bit 1 X * Y)) Y
     else (push_bit 1 (drop_bit 1 X * Y), False))"
    using top by (simp add: saturating_halves_def Let_def del: drop_bit_minus_one)
  show ?thesis
  proof (cases "2 ^ (?n - 1) \<le> q * uint Y")
    case True
    then have "?M \<le> uint X * uint Y" using prod rY n by linarith
    then show ?thesis using True mul by (simp add: unat_max_word)
  next
    case False
    have "0 \<le> q * uint Y" using q0 by simp
    then have Z': "uint (push_bit 1 (drop_bit 1 X * Y)) = 2 * (q * uint Y)"
      using False n by (simp only: unsigned_push_bit_eq [where ?'a = int] Z)
        (simp add: push_bit_eq_mult take_bit_int_eq_self)
    have odd: "X AND 1 \<noteq> 0 \<longleftrightarrow> r = 1"
    proof -
      have "bit X 0 \<longleftrightarrow> odd (uint X)"
        by (simp add: bit_uint_iff flip: bit_0)
      then show ?thesis by (simp add: and_one_eq_0_iff r_def odd_iff_mod_2_eq_one)
    qed
    define P where "P = uint X * uint Y"
    from r show ?thesis
    proof
      assume r0: "r = 0"
      then have "saturating_halves X Y = (push_bit 1 (drop_bit 1 X * Y), False)"
        using False mul odd by simp
      moreover have "2 * (q * uint Y) < ?M" using False n by linarith
      moreover have "P = 2 * (q * uint Y)" using r0 prod by (simp only: P_def)
      ultimately show ?thesis using Z' by (simp add: P_def [symmetric])
    next
      assume r1: "r = 1"
      then have "saturating_halves X Y = SaturatingAdd (push_bit 1 (drop_bit 1 X * Y)) Y"
        using False mul odd by simp
      moreover have "P = 2 * (q * uint Y) + uint Y" using r1 prod by (simp only: P_def)
      ultimately show ?thesis
        using Z' SaturatingAdd_spec [of "push_bit 1 (drop_bit 1 X * Y)" Y]
        by (simp add: P_def [symmetric])
    qed
  qed
qed

lemma SaturatingMultiply_spec:
  fixes X Y :: "'a::len word"
  assumes "LENGTH('a) \<le> 64"
  shows "uint (fst (SaturatingMultiply X Y)) = min (uint X * uint Y) (2 ^ LENGTH('a) - 1)
    \<and> (snd (SaturatingMultiply X Y) \<longleftrightarrow> 2 ^ LENGTH('a) \<le> uint X * uint Y)"
proof -
  let ?n = "LENGTH('a)" let ?M = "2 ^ ?n :: int"
  let ?lz = "sint (Log2_64 (ucast X) + Log2_64 (ucast Y))"
  have prodw: "uint (X * Y) = uint X * uint Y" if "uint X * uint Y < ?M"
    using that by (simp add: uint_word_ariths mod_pos_pos_trivial)
  show ?thesis
  proof (cases "X = 0 \<or> Y = 0")
    case True
    have "?lz < int ?n - 1"
      using True bit_width_le [of X] bit_width_le [of Y] by (auto simp: Log2_64_ucast_sum [OF assms])
    then show ?thesis
      using True by (auto simp: SaturatingMultiply_def Let_def Log2_64_max [OF assms])
  next
    case False
    then have nz: "X \<noteq> 0" "Y \<noteq> 0" by simp_all
    define a where "a = bit_width X - 1"
    define b where "b = bit_width Y - 1"
    have a: "bit_width X = Suc a" and b: "bit_width Y = Suc b"
      using bit_width_bounds(1) [OF nz(1)] bit_width_bounds(1) [OF nz(2)] by (simp_all add: a_def b_def)
    have bx: "2 ^ a \<le> uint X" "uint X < 2 ^ Suc a" and yb: "2 ^ b \<le> uint Y" "uint Y < 2 ^ Suc b"
      using bit_width_bounds(2,3) [OF nz(1)] bit_width_bounds(2,3) [OF nz(2)] a b by simp_all
    have lz: "?lz = int (a + b)"
      using nz a b by (simp add: Log2_64_ucast_sum [OF assms])
    have low: "2 ^ (a + b) \<le> uint X * uint Y"
      using mult_mono [OF bx(1) yb(1)] by (simp add: power_add)
    have high: "uint X * uint Y < 2 ^ (a + b + 2)"
      using mult_strict_mono [OF bx(2) yb(2)] by (simp add: power_add)
    consider (less) "a + b + 1 < ?n" | (gt) "?n \<le> a + b" | (eq) "a + b + 1 = ?n"
      by linarith
    then show ?thesis
    proof cases
      case less
      then have "(2::int) ^ (a + b + 2) \<le> ?M"
        by (intro power_increasing) simp_all
      then have small: "uint X * uint Y < ?M" using high by linarith
      have "SaturatingMultiply X Y = (X * Y, False)"
        using less lz by (simp add: SaturatingMultiply_def Let_def Log2_64_max [OF assms])
      then show ?thesis using small prodw by simp
    next
      case gt
      then have "?M \<le> 2 ^ (a + b)"
        by (intro power_increasing) simp_all
      then have big: "?M \<le> uint X * uint Y" using low by linarith
      have "SaturatingMultiply X Y = (- 1, True)"
        using gt lz by (simp add: SaturatingMultiply_def Let_def Log2_64_max [OF assms])
      then show ?thesis using big by (simp add: unat_max_word)
    next
      case eq
      have "SaturatingMultiply X Y = saturating_halves X Y"
        using eq lz by (simp add: SaturatingMultiply_def saturating_halves_def Let_def Log2_64_max [OF assms])
      moreover have "uint X * uint Y < 2 * ?M"
        using high by (simp flip: eq)
      ultimately show ?thesis
        by (simp only: saturating_halves_spec)
    qed
  qed
qed

lemma uint_abs_word:
  fixes X :: "'a::len word"
  shows "uint (if X <s 0 then 0 - X else X) = \<bar>sint X\<bar>"
proof -
  let ?n = "LENGTH('a)"
  have M: "(2::int) ^ ?n = 2 * 2 ^ (?n - 1)"
    by (metis Suc_pred' len_gt_0 power_Suc)
  have b: "- (2 ^ (?n - 1)) \<le> sint X" "sint X < 2 ^ (?n - 1)"
    using sint_ge [of X] sint_lt [of X] by simp_all
  show ?thesis
  proof (cases "X <s 0")
    case True
    then have neg: "sint X < 0" by (simp add: word_sless_alt)
    have "0 - X = word_of_int (- sint X)"
      by (metis diff_0 word_of_int_sint wi_hom_neg)
    then have "uint (0 - X) = take_bit ?n (- sint X)"
      by (simp only: uint_word_of_int_eq)
    also have "\<dots> = - sint X"
      using b neg M by (intro take_bit_int_eq_self) linarith+
    finally show ?thesis using True neg by simp
  next
    case False
    then have pos: "0 \<le> sint X" by (simp add: word_sless_alt)
    have "uint X = take_bit ?n (sint X)"
      by (metis uint_word_of_int_eq word_of_int_sint)
    also have "\<dots> = sint X"
      using b pos M by (intro take_bit_int_eq_self) linarith+
    finally show ?thesis using False pos by simp
  qed
qed

lemma MulOverflow_spec:
  fixes X Y :: "'a::len word"
  shows "fst (MulOverflow X Y) = X * Y"
    "snd (MulOverflow X Y) \<longleftrightarrow>
     \<not> (- (2 ^ (LENGTH('a) - 1)) \<le> sint X * sint Y \<and> sint X * sint Y < 2 ^ (LENGTH('a) - 1))"
proof -
  let ?n = "LENGTH('a)" let ?h = "2 ^ (?n - 1) :: int"
  let ?UX = "if X <s 0 then 0 - X else X" let ?UY = "if Y <s 0 then 0 - Y else Y"
  let ?neg = "(X <s 0) \<noteq> (Y <s 0)"
  show "fst (MulOverflow X Y) = X * Y"
    by (auto simp: MulOverflow_def Let_def)
  have nonneg: "0 \<le> uint ?UX" "0 \<le> uint ?UY" by simp_all
  have max: "uint (push_bit (?n - 1) 1 - 1 :: 'a word) = ?h - 1" "uint (push_bit (?n - 1) 1 :: 'a word) = ?h"
  proof -
    show *: "uint (push_bit (?n - 1) 1 :: 'a word) = ?h"
      by (rule uint_push_bit_1) simp
    then have "push_bit (?n - 1) 1 \<noteq> (0 :: 'a word)"
      by (metis power_eq_0_iff uint_0_iff zero_neq_numeral)
    then show "uint (push_bit (?n - 1) 1 - 1 :: 'a word) = ?h - 1"
      using uint_minus_1 * by metis
  qed
  have gt: "L div ?UY < ?UX \<longleftrightarrow> uint L < \<bar>sint X\<bar> * \<bar>sint Y\<bar>" if "?UY \<noteq> 0" for L
  proof -
    have "0 < uint ?UY" using that by (simp only: uint_pos_iff simp_thms)
    then have "uint L div uint ?UY < uint ?UX \<longleftrightarrow> uint L < uint ?UX * uint ?UY"
      by (rule int_div_less_iff)
    then show ?thesis
      by (simp only: word_less_def uint_div uint_abs_word)
  qed
  have zero: "?UX = 0 \<longleftrightarrow> sint X = 0" "?UY = 0 \<longleftrightarrow> sint Y = 0"
    by (simp_all only: uint_0_iff [symmetric] uint_abs_word abs_eq_0_iff)
  have sgn: "(X <s 0) = (sint X < 0)" "(Y <s 0) = (sint Y < 0)"
    by (simp_all add: word_sless_alt)
  have h: "0 < ?h" by simp
  have snd: "snd (MulOverflow X Y) \<longleftrightarrow>
    (if sint X = 0 \<or> sint Y = 0 then False
     else if ?neg then ?h < \<bar>sint X\<bar> * \<bar>sint Y\<bar> else ?h - 1 < \<bar>sint X\<bar> * \<bar>sint Y\<bar>)"
  proof (cases "sint X = 0 \<or> sint Y = 0")
    case True
    then have "?UX = 0 \<or> ?UY = 0" using zero by blast
    then show ?thesis using True by (simp only: MulOverflow_def Let_def snd_conv if_True)
  next
    case False
    then have nz: "\<not> (?UX = 0 \<or> ?UY = 0)" "?UY \<noteq> 0" using zero by blast+
    show ?thesis
      using False nz(1)
      by (simp only: MulOverflow_def Let_def snd_conv if_False gt [OF nz(2)] max diff_add_cancel)
  qed
  show "snd (MulOverflow X Y) \<longleftrightarrow> \<not> (- ?h \<le> sint X * sint Y \<and> sint X * sint Y < ?h)"
  proof (cases "sint X = 0 \<or> sint Y = 0")
    case True
    then show ?thesis using snd h by auto
  next
    case nz: False
    show ?thesis
    proof (cases ?neg)
      case True
      then have "sint X * sint Y < 0" using nz by (auto simp: sgn mult_less_0_iff)
      then show ?thesis using True nz snd h by (simp add: abs_mult [symmetric]) linarith
    next
      case False
      then have "0 < sint X * sint Y" using nz by (auto simp: sgn zero_less_mult_iff)
      moreover from this h have "- ?h \<le> sint X * sint Y" by linarith
      ultimately show ?thesis using False nz snd by (simp add: abs_mult [symmetric]) linarith
    qed
  qed
qed

section \<open>Facts about rotations\<close>

lemma rot_amount:
  assumes "LENGTH('a::len) \<le> 64"
  shows "unat (r mod of_nat LENGTH('a) :: u32) = unat r mod LENGTH('a)"
proof -
  have "unat (of_nat LENGTH('a) :: u32) = LENGTH('a)"
    using assms by (simp add: unat_of_nat)
  then show ?thesis by (simp add: unat_mod)
qed

lemma rotr_rotl:
  fixes v :: "'a::len word"
  assumes "LENGTH('a) \<le> 64"
  shows "rotr (rotl v r) r = v"
proof -
  define k where "k = unat r mod LENGTH('a)"
  have "k < LENGTH('a)" by (simp add: k_def)
  then show ?thesis
    unfolding rotl_def rotr_def Let_def rot_amount [OF assms] k_def [symmetric]
    by (auto intro!: bit_word_eqI simp: bit_simps)
qed

lemma bit_rotl:
  fixes v :: "'a::len word"
  assumes "LENGTH('a) \<le> 64" "k = unat r mod LENGTH('a)" "n < LENGTH('a)"
  shows "bit (rotl v r) n \<longleftrightarrow> (if n < k then bit v (LENGTH('a) - k + n) else bit v (n - k))"
  using assms mod_less_divisor [of "LENGTH('a)" "unat r"]
  unfolding rotl_def Let_def rot_amount [OF assms(1)] by (auto simp: bit_simps dest: bit_imp_le_length)

section \<open>Properties\<close>

text \<open>The range checks the whole code generator is written with mean what they say:
  \<open>isInt<N>\<close> and \<open>isUInt<N>\<close> hold exactly of the values an \<open>N\<close>-bit two's complement or
  unsigned field can hold, through the casts of the special widths as through the comparison.\<close>

theorem isInt_isUInt_iff:
  assumes "0 < N" "N \<le> 64"
  shows "(isInt N x \<longleftrightarrow> - (2 ^ (N - 1)) \<le> sint x \<and> sint x < 2 ^ (N - 1)) \<and>
    (isUInt N x \<longleftrightarrow> uint x < 2 ^ N)"
  using isInt_iff_aux [OF assms] isUInt_iff_aux [OF assms] by blast

lemma isInt_isUInt_iff_witness:
  "isInt 12 (- 2048) \<and> \<not> isInt 12 2048 \<and> isUInt 12 4095"
  using isInt_isUInt_iff [of 12 "- 2048"] isInt_isUInt_iff [of 12 2048] isInt_isUInt_iff [of 12 4095] by simp

text \<open>The portable bisection loops count the same trailing and leading zeros as the
  compiler builtins, for every width that is a power of two.\<close>

theorem bisection_counts_zeros:
  assumes "LENGTH('a::len) = 2 ^ k"
  shows "TrailingZerosCounter_count (v :: 'a word) = countr_zero v \<and>
    LeadingZerosCounter_count v = countl_zero v"
  using TrailingZerosCounter_count_eq [OF assms] LeadingZerosCounter_count_eq [OF assms] by blast

lemma bisection_counts_zeros_witness:
  "TrailingZerosCounter_count (40 :: u16) = countr_zero (40 :: u16) \<and>
   LeadingZerosCounter_count (40 :: u16) = countl_zero (40 :: u16) \<and>
   TrailingZerosCounter_count (40 :: u16) = 3"
proof -
  have "LENGTH(16) = 2 ^ (4 :: nat)" by simp
  moreover have "TrailingZerosCounter_count (40 :: u16) = 3" by code_simp
  ultimately show ?thesis using bisection_counts_zeros [of 4 "40 :: u16"] by simp
qed

text \<open>\<open>alignTo\<close> returns the least multiple of the alignment that is not below the value,
  whenever the sum does not wrap.\<close>

theorem alignTo_least_multiple:
  assumes "Align \<noteq> 0" "uint Value + uint Align - 1 < 2 ^ 64"
  shows "uint Align dvd uint (alignTo Value Align) \<and> uint Value \<le> uint (alignTo Value Align) \<and>
    uint (alignTo Value Align) < uint Value + uint Align"
proof -
  have pos: "0 < uint Align"
    using assms(1) by (simp only: uint_pos_iff simp_thms)
  define q where "q = (uint Value + uint Align - 1) div uint Align"
  have eq: "uint (alignTo Value Align) = uint Align * q"
    unfolding q_def using alignTo_least [OF assms] .
  have "uint Value + uint Align - 1 = uint Align * q + (uint Value + uint Align - 1) mod uint Align"
    unfolding q_def by simp
  moreover have "0 \<le> (uint Value + uint Align - 1) mod uint Align"
    "(uint Value + uint Align - 1) mod uint Align < uint Align"
    using pos by simp_all
  ultimately show ?thesis
    unfolding eq by (intro conjI dvd_triv_left) linarith+
qed

lemma alignTo_least_multiple_witness:
  "alignTo 17 8 = 24 \<and> uint (8 :: u64) dvd uint (alignTo 17 8) \<and> uint (17 :: u64) \<le> uint (alignTo 17 8)"
  using alignTo_least_multiple [of 8 17] by (simp add: alignTo_def)

text \<open>\<open>PowerOf2Ceil\<close> returns the least power of two that is not below a nonzero value of at
  most \<open>2 ^ 63\<close>.\<close>

theorem PowerOf2Ceil_least:
  assumes "A \<noteq> 0" "uint A \<le> 2 ^ 63"
  shows "\<exists>k<64. PowerOf2Ceil A = push_bit k 1 \<and> (\<forall>j. uint A \<le> 2 ^ j \<longleftrightarrow> k \<le> j)"
proof -
  obtain k where k: "k < 64" "PowerOf2Ceil A = push_bit k 1" "uint A \<le> 2 ^ k"
      "k \<noteq> 0 \<Longrightarrow> 2 ^ (k - 1) < uint A"
    using PowerOf2Ceil_props [OF assms] by metis
  have "uint A \<le> 2 ^ j \<longleftrightarrow> k \<le> j" for j
  proof
    assume "uint A \<le> 2 ^ j"
    show "k \<le> j"
    proof (rule ccontr)
      assume "\<not> k \<le> j"
      then have "(2 :: int) ^ j \<le> 2 ^ (k - 1)" by (intro power_increasing) simp_all
      then show False using k(4) \<open>uint A \<le> 2 ^ j\<close> \<open>\<not> k \<le> j\<close> by linarith
    qed
  next
    assume "k \<le> j"
    then have "(2 :: int) ^ k \<le> 2 ^ j" by (intro power_increasing) simp_all
    then show "uint A \<le> 2 ^ j" using k(3) by linarith
  qed
  then show ?thesis using k by blast
qed

lemma PowerOf2Ceil_least_witness:
  "PowerOf2Ceil 100 = 128 \<and> (\<exists>k<64. PowerOf2Ceil 100 = push_bit k 1 \<and> (\<forall>j. uint (100 :: u64) \<le> 2 ^ j \<longleftrightarrow> k \<le> j))"
proof
  show "PowerOf2Ceil 100 = 128" by code_simp
  show "\<exists>k<64. PowerOf2Ceil 100 = push_bit k 1 \<and> (\<forall>j. uint (100 :: u64) \<le> 2 ^ j \<longleftrightarrow> k \<le> j)"
    by (rule PowerOf2Ceil_least) simp_all
qed

text \<open>\<open>SaturatingMultiply\<close> clamps the true product to the maximum of the type and reports an
  overflow exactly when the product does not fit, although it only ever computes logarithms,
  a halved product and a sum of that width.\<close>

theorem SaturatingMultiply_exact:
  assumes "LENGTH('a::len) \<le> 64"
  shows "uint (fst (SaturatingMultiply X Y)) = min (uint X * uint Y) (2 ^ LENGTH('a) - 1) \<and>
    (snd (SaturatingMultiply X Y) \<longleftrightarrow> 2 ^ LENGTH('a) \<le> uint (X :: 'a word) * uint Y)"
  using SaturatingMultiply_spec [OF assms] .

lemma SaturatingMultiply_exact_witness:
  "SaturatingMultiply (20 :: u8) 13 = (255, True) \<and>
   uint (fst (SaturatingMultiply (20 :: u8) 13)) = min (uint (20 :: u8) * uint (13 :: u8)) (2 ^ LENGTH(8) - 1)"
proof -
  have "SaturatingMultiply (20 :: u8) 13 = (255, True)" by code_simp
  then show ?thesis using SaturatingMultiply_exact [of "20 :: u8" 13] by simp
qed

text \<open>\<open>MulOverflow\<close> stores the wrapped product of two signed integers and returns true
  exactly when the true product is outside the range of the type, the most negative operand
  included.\<close>

theorem MulOverflow_exact:
  fixes X Y :: "'a::len word"
  shows "fst (MulOverflow X Y) = X * Y \<and>
    (snd (MulOverflow X Y) \<longleftrightarrow>
      sint X * sint Y \<notin> {- (2 ^ (LENGTH('a) - 1)) ..< 2 ^ (LENGTH('a) - 1)})"
  using MulOverflow_spec [of X Y] by auto

text \<open>Rotating left and then right by the same amount gives the value back, and every bit of
  the rotated value is the bit the rotation by the reduced amount brings there.\<close>

theorem rotr_rotl_inverse:
  assumes "LENGTH('a::len) \<le> 64"
  shows "rotr (rotl v r) r = (v :: 'a word) \<and>
    (\<forall>n<LENGTH('a). bit (rotl v r) n \<longleftrightarrow> bit v ((n + (LENGTH('a) - unat r mod LENGTH('a))) mod LENGTH('a)))"
proof -
  define k where "k = unat r mod LENGTH('a)"
  have k: "k < LENGTH('a)" by (simp add: k_def)
  have "bit (rotl v r) n \<longleftrightarrow> bit v ((n + (LENGTH('a) - k)) mod LENGTH('a))" if "n < LENGTH('a)" for n
  proof (cases "n < k")
    case True
    then show ?thesis using bit_rotl [OF assms k_def that, of v] k by (simp add: add.commute)
  next
    case False
    then have "n + (LENGTH('a) - k) = LENGTH('a) + (n - k)" "n - k < LENGTH('a)" using k that by simp_all
    then have "(n + (LENGTH('a) - k)) mod LENGTH('a) = n - k" by (simp only: mod_add_self1 mod_less)
    then show ?thesis using bit_rotl [OF assms k_def that, of v] False by simp
  qed
  then show ?thesis using rotr_rotl [OF assms] k_def by simp
qed

lemma rotr_rotl_inverse_witness:
  "rotl (0x81 :: u8) 9 = 0x03 \<and> rotr (rotl (0x81 :: u8) 9) 9 = 0x81"
proof -
  have "rotl (0x81 :: u8) 9 = 0x03" by code_simp
  then show ?thesis using rotr_rotl_inverse [of "0x81 :: u8" 9] by simp
qed

end
