(* ===== verification/LEB128.thy ===== *)
theory LEB128
  imports MathExtras
begin

text \<open>
  \<open>llvm/include/llvm/Support/LEB128.h\<close> and \<open>llvm/lib/Support/LEB128.cpp\<close>: the variable-length
  integer encoding of DWARF, used by the assembler back end, the linker and the unwinder.

  An output stream or buffer is the list of bytes written to it. The input of a decoder is the
  list of bytes from \<open>p\<close> up to \<open>end\<close>. A shift of a 64-bit value by 64 or more is undefined in
  C++, so it is the outcome \<open>Undefined\<close> here, never a value.
\<close>

section \<open>Encoding\<close>

function encodeULEB128_loop :: "u64 \<Rightarrow> nat \<Rightarrow> nat \<Rightarrow> u8 list \<times> nat" where
  "encodeULEB128_loop Value Count PadTo =
    (let Byte = ucast (Value AND 0x7f) :: u8;
         Value' = drop_bit 7 Value;
         Count' = Suc Count;
         Byte' = (if Value' \<noteq> 0 \<or> Count' < PadTo then Byte OR 0x80 else Byte)
     in if Value' \<noteq> 0
        then (let (bs, n) = encodeULEB128_loop Value' Count' PadTo in (Byte' # bs, n))
        else ([Byte'], Count'))"
  by pat_completeness auto

lemma drop_bit_7_less:
  assumes "drop_bit 7 v \<noteq> 0"
  shows "unat (drop_bit 7 v) < unat (v :: u64)"
proof -
  have less: "x div 128 \<noteq> 0 \<Longrightarrow> 0 \<le> x \<Longrightarrow> x div 128 < x" for x :: int
    by presburger
  have "uint (drop_bit 7 v) \<noteq> 0"
    using assms by (metis uint_0_iff)
  then have "uint v div 128 < uint v"
    using less [of "uint v"] by (simp add: uint_drop_bit)
  then have "uint (drop_bit 7 v) < uint v"
    by (simp add: uint_drop_bit)
  then show ?thesis
    by (simp only: word_less_def [symmetric] word_less_nat_alt)
qed

termination encodeULEB128_loop
  by (relation "measure (\<lambda>(Value, Count, PadTo). unat Value)")
    (use drop_bit_7_less in auto)

declare encodeULEB128_loop.simps [simp del]

definition encodeULEB128 :: "u64 \<Rightarrow> nat \<Rightarrow> u8 list \<times> nat" where
  "encodeULEB128 Value PadTo =
    (let (bs, Count) = encodeULEB128_loop Value 0 PadTo in
     if Count < PadTo
     then (bs @ replicate (PadTo - 1 - Count) 0x80 @ [0x00], PadTo - 1 + 1)
     else (bs, Count))"

text \<open>The overload that writes to a buffer returns the distance the pointer has moved.\<close>

definition encodeULEB128_buf :: "u64 \<Rightarrow> nat \<Rightarrow> u8 list \<times> nat" where
  "encodeULEB128_buf Value PadTo =
    (let (bs, Count) = encodeULEB128_loop Value 0 PadTo;
         out = (if Count < PadTo then bs @ replicate (PadTo - 1 - Count) 0x80 @ [0x00] else bs)
     in (out, length out))"

function encodeSLEB128_loop :: "u64 \<Rightarrow> nat \<Rightarrow> nat \<Rightarrow> u8 list \<times> nat \<times> u64" where
  "encodeSLEB128_loop Value Count PadTo =
    (let Byte = ucast (Value AND 0x7f) :: u8;
         Value' = signed_drop_bit 7 Value;
         More = (\<not> ((Value' = 0 \<and> Byte AND 0x40 = 0) \<or> (Value' = - 1 \<and> Byte AND 0x40 \<noteq> 0)));
         Count' = Suc Count;
         Byte' = (if More \<or> Count' < PadTo then Byte OR 0x80 else Byte)
     in if More
        then (let (bs, n, v) = encodeSLEB128_loop Value' Count' PadTo in (Byte' # bs, n, v))
        else ([Byte'], Count', Value'))"
  by pat_completeness auto

lemma signed_drop_bit_7_less:
  assumes "v \<noteq> 0" "v \<noteq> - 1"
  shows "\<bar>sint (signed_drop_bit 7 v)\<bar> < \<bar>sint (v :: u64)\<bar>"
proof -
  have "sint v \<noteq> 0" "sint v \<noteq> - 1"
    using assms by (simp_all only: sint_eq_0_iff sint_eq_minus_1_iff not_False_eq_True)
  then have "\<bar>sint v div 2 ^ 7\<bar> < \<bar>sint v\<bar>" by simp
  then show ?thesis by (simp only: sint_signed_drop_bit)
qed

termination encodeSLEB128_loop
proof (relation "measure (\<lambda>(Value, Count, PadTo). nat \<bar>sint Value\<bar>)", goal_cases)
  case (2 Value Count PadTo Byte Value' More Count' Byte')
  then have "Value \<noteq> 0" "Value \<noteq> - 1" by auto
  from signed_drop_bit_7_less [OF this] 2 show ?case by simp
qed simp

declare encodeSLEB128_loop.simps [simp del]

definition encodeSLEB128 :: "u64 \<Rightarrow> nat \<Rightarrow> u8 list \<times> nat" where
  "encodeSLEB128 Value PadTo =
    (let (bs, Count, Value') = encodeSLEB128_loop Value 0 PadTo in
     if Count < PadTo
     then (let PadValue = (if Value' <s 0 then 0x7f else 0x00) :: u8 in
           (bs @ replicate (PadTo - 1 - Count) (PadValue OR 0x80) @ [PadValue], PadTo - 1 + 1))
     else (bs, Count))"

definition encodeSLEB128_buf :: "u64 \<Rightarrow> nat \<Rightarrow> u8 list \<times> nat" where
  "encodeSLEB128_buf Value PadTo =
    (let (bs, Count, Value') = encodeSLEB128_loop Value 0 PadTo;
         PadValue = (if Value' <s 0 then 0x7f else 0x00) :: u8;
         out = (if Count < PadTo
                then bs @ replicate (PadTo - 1 - Count) (PadValue OR 0x80) @ [PadValue] else bs)
     in (out, length out))"

section \<open>Decoding\<close>

datatype leb_error = ExtendsPastEnd | TooBig

text \<open>
  \<open>Decoded v n\<close>: no error, value \<open>v\<close>, \<open>n\<close> bytes read. \<open>Failed e n\<close>: the code reports \<open>e\<close>,
  stores \<open>n\<close> and returns 0. \<open>Undefined\<close>: the code evaluates a shift by 64 or more.
\<close>

datatype leb_result = Decoded u64 nat | Failed leb_error nat | Undefined

fun decodeULEB128_loop :: "u8 list \<Rightarrow> u64 \<Rightarrow> nat \<Rightarrow> nat \<Rightarrow> leb_result" where
  "decodeULEB128_loop [] Value Shift n = Failed ExtendsPastEnd n"
| "decodeULEB128_loop (b # bs) Value Shift n =
    (let Slice = ucast b AND 0x7f :: u64 in
     if Shift \<ge> 64 \<and> Slice \<noteq> 0 then Failed TooBig n
     else if Shift \<ge> 64 then Undefined
     else if drop_bit Shift (push_bit Shift Slice) \<noteq> Slice then Failed TooBig n
     else
       let Value' = Value + push_bit Shift Slice; Shift' = Shift + 7 in
       if b \<ge> 128 then decodeULEB128_loop bs Value' Shift' (Suc n)
       else Decoded Value' (Suc n))"

definition decodeULEB128 :: "u8 list \<Rightarrow> leb_result" where
  "decodeULEB128 p = decodeULEB128_loop p 0 0 0"

fun decodeSLEB128_loop :: "u8 list \<Rightarrow> u64 \<Rightarrow> nat \<Rightarrow> nat \<Rightarrow> leb_result" where
  "decodeSLEB128_loop [] Value Shift n = Failed ExtendsPastEnd n"
| "decodeSLEB128_loop (Byte # bs) Value Shift n =
    (let Slice = ucast Byte AND 0x7f :: u64 in
     if (Shift \<ge> 64 \<and> Slice \<noteq> (if Value <s 0 then 0x7f else 0x00)) \<or>
        (Shift = 63 \<and> Slice \<noteq> 0 \<and> Slice \<noteq> 0x7f) then Failed TooBig n
     else if Shift \<ge> 64 then Undefined
     else
       let Value' = Value OR push_bit Shift Slice; Shift' = Shift + 7 in
       if Byte \<ge> 128 then decodeSLEB128_loop bs Value' Shift' (Suc n)
       else if Shift' < 64 \<and> Byte AND 0x40 \<noteq> 0
         then Decoded (Value' OR push_bit Shift' (- 1)) (Suc n)
         else Decoded Value' (Suc n))"

definition decodeSLEB128 :: "u8 list \<Rightarrow> leb_result" where
  "decodeSLEB128 p = decodeSLEB128_loop p 0 0 0"

section \<open>Sizes\<close>

function getULEB128Size_loop :: "u64 \<Rightarrow> nat \<Rightarrow> nat" where
  "getULEB128Size_loop Value Size =
    (let Value' = drop_bit 7 Value in
     if Value' \<noteq> 0 then getULEB128Size_loop Value' (Suc Size) else Suc Size)"
  by pat_completeness auto
termination
  by (relation "measure (\<lambda>(Value, Size). unat Value)")
    (use drop_bit_7_less in auto)

declare getULEB128Size_loop.simps [simp del]

definition getULEB128Size :: "u64 \<Rightarrow> nat" where
  "getULEB128Size Value = getULEB128Size_loop Value 0"

text \<open>The loop is entered with the sign of the value only; for another \<open>Sign\<close> it need not stop.\<close>

partial_function (option) getSLEB128Size_loop :: "u64 \<Rightarrow> u64 \<Rightarrow> nat \<Rightarrow> nat option" where
  "getSLEB128Size_loop Sign Value Size =
    (let Byte = Value AND 0x7f;
         Value' = signed_drop_bit 7 Value;
         IsMore = (Value' \<noteq> Sign \<or> (Byte XOR Sign) AND 0x40 \<noteq> 0)
     in if IsMore then getSLEB128Size_loop Sign Value' (Suc Size) else Some (Suc Size))"

definition getSLEB128Size :: "u64 \<Rightarrow> nat option" where
  "getSLEB128Size Value = getSLEB128Size_loop (signed_drop_bit 63 Value) Value 0"

section \<open>Septets\<close>

lemma bit_0x80: "bit (0x80 :: 'a::len word) n \<longleftrightarrow> n = 7 \<and> 7 < LENGTH('a)"
proof -
  have "bit (push_bit 7 (1 :: 'a word)) n \<longleftrightarrow> n = 7 \<and> 7 < LENGTH('a)"
    by (auto simp: bit_push_bit_iff bit_1_iff possible_bit_word simp del: push_bit_of_1)
  then show ?thesis by simp
qed

lemma septet_bits:
  fixes v :: u64
  shows "ucast (ucast (v AND 0x7f) OR 0x80 :: u8) AND (0x7f :: u64) = v AND 0x7f"
    "ucast (ucast (v AND 0x7f) :: u8) AND (0x7f :: u64) = v AND 0x7f"
proof -
  have m: "(0x7f :: u64) = mask 7" by (simp add: mask_numeral)
  show "ucast (ucast (v AND 0x7f) OR 0x80 :: u8) AND (0x7f :: u64) = v AND 0x7f"
    "ucast (ucast (v AND 0x7f) :: u8) AND (0x7f :: u64) = v AND 0x7f"
    unfolding m
    by (intro bit_word_eqI; simp only: bit_and_iff bit_or_iff bit_unsigned_iff bit_mask_iff bit_0x80; auto)+
qed

lemma u8_ge_128_iff: "128 \<le> (b :: u8) \<longleftrightarrow> bit b 7"
proof -
  have "(\<forall>n\<ge>7. \<not> bit b n) \<longleftrightarrow> \<not> bit b 7"
  proof (intro iffI allI impI)
    fix n :: nat assume "\<not> bit b 7" "7 \<le> n"
    then show "\<not> bit b n" using bit_imp_le_length [of b n] by (cases "n = 7") auto
  qed simp
  then have "uint b < 2 ^ 7 \<longleftrightarrow> \<not> bit b 7"
    by (simp only: uint_less_2p_iff_bits)
  then show ?thesis by (simp add: word_le_def not_less [symmetric])
qed

lemma septet_continues:
  fixes v :: u64
  shows "128 \<le> (ucast (v AND 0x7f) OR 0x80 :: u8)" "\<not> 128 \<le> (ucast (v AND 0x7f) :: u8)"
  unfolding u8_ge_128_iff by (simp_all add: bit_simps bit_0x80)

lemma septet_split: "push_bit s v = push_bit s (v AND 0x7f) + push_bit (s + 7) (drop_bit 7 v)" for v :: u64
proof -
  have m: "(0x7f :: u64) = mask 7" by (simp add: mask_numeral)
  have "push_bit s (v AND mask 7) AND push_bit (s + 7) (drop_bit 7 v) = 0"
    by (auto intro!: bit_word_eqI simp: bit_simps)
  moreover have "push_bit s v = push_bit s (v AND mask 7) OR push_bit (s + 7) (drop_bit 7 v)"
  proof (rule bit_word_eqI)
    fix n assume n: "n < LENGTH(64)"
    consider "n < s" | k where "n = s + k" "k < 7" | k where "n = s + (7 + k)"
      by (metis add.commute le_Suc_ex linorder_not_less)
    then show "bit (push_bit s v) n \<longleftrightarrow>
        bit (push_bit s (v AND mask 7) OR push_bit (s + 7) (drop_bit 7 v)) n"
      by cases (use n in \<open>auto simp: bit_simps\<close>)
  qed
  ultimately show ?thesis unfolding m by (simp only: disjunctive_add_eq_or)
qed

section \<open>The unsigned decoder inverts the unsigned encoder\<close>

lemma decodeULEB128_loop_septet:
  assumes "s < 64" "drop_bit s (push_bit s (v AND 0x7f)) = v AND 0x7f"
  shows "decodeULEB128_loop ((ucast (v AND 0x7f) OR 0x80) # bs) acc s m =
      decodeULEB128_loop bs (acc + push_bit s (v AND 0x7f)) (s + 7) (Suc m)"
    "decodeULEB128_loop (ucast (v AND 0x7f) # bs) acc s m = Decoded (acc + push_bit s (v AND 0x7f)) (Suc m)"
  using assms unfolding decodeULEB128_loop.simps Let_def septet_bits
  by (simp_all add: septet_continues)

lemma decodeULEB128_loop_encoded_aux:
  assumes "\<And>n. bit v n \<Longrightarrow> n + s < 64" "s < 64" "encodeULEB128_loop v c pad = (bs, n)"
  shows "n = c + length bs \<and> decodeULEB128_loop (bs @ rest) acc s m =
      (if n < pad then decodeULEB128_loop rest (acc + push_bit s v) (s + 7 * length bs) (m + length bs)
       else Decoded (acc + push_bit s v) (m + length bs))"
  using assms
proof (induction v c pad arbitrary: bs s acc m n rule: encodeULEB128_loop.induct)
  case (1 v c pad)
  have m: "(0x7f :: u64) = mask 7" by (simp add: mask_numeral)
  have fit: "drop_bit s (push_bit s (v AND 0x7f)) = v AND 0x7f"
    unfolding m using 1(2) by (auto intro!: bit_word_eqI simp: bit_simps add.commute [of _ s])
  note step = decodeULEB128_loop_septet [OF 1(3) fit]
  show ?case
  proof (cases "drop_bit 7 v = 0")
    case True
    then have whole: "push_bit s (v AND 0x7f) = push_bit s v"
      using septet_split [of s v] by simp
    have "bs = [if Suc c < pad then ucast (v AND 0x7f) OR 0x80 else ucast (v AND 0x7f)]" "n = Suc c"
      using 1(4) True by (auto simp: encodeULEB128_loop.simps [of v] Let_def)
    then show ?thesis
      by (simp add: step whole del: decodeULEB128_loop.simps push_bit_and)
  next
    case False
    obtain bs' n' where rec: "encodeULEB128_loop (drop_bit 7 v) (Suc c) pad = (bs', n')"
      by fastforce
    have bs: "bs = (ucast (v AND 0x7f) OR 0x80) # bs'" "n = n'"
      using 1(4) False rec by (simp_all add: encodeULEB128_loop.simps [of v] Let_def)
    have H: "\<And>n. bit (drop_bit 7 v) n \<Longrightarrow> n + (s + 7) < 64"
      using 1(2) by (fastforce simp: bit_simps)
    obtain j where "bit (drop_bit 7 v) j"
      using False by (metis bit_0_eq bit_word_eqI bot_apply bot_bool_def)
    then have s7: "s + 7 < 64" using H by fastforce
    have IH: "n' = Suc c + length bs' \<and> decodeULEB128_loop (bs' @ rest) (acc + push_bit s (v AND 0x7f)) (s + 7) (Suc m) =
      (if n' < pad then decodeULEB128_loop rest (acc + push_bit s (v AND 0x7f) + push_bit (s + 7) (drop_bit 7 v)) (s + 7 + 7 * length bs') (Suc m + length bs')
       else Decoded (acc + push_bit s (v AND 0x7f) + push_bit (s + 7) (drop_bit 7 v)) (Suc m + length bs'))"
      by (rule 1(1)) (use False H s7 rec in simp_all)
    have "acc + push_bit s (v AND 0x7f) + push_bit (s + 7) (drop_bit 7 v) = acc + push_bit s v"
      using septet_split [of s v] by simp
    then show ?thesis
      using IH by (simp only: bs step append_Cons list.size) (simp add: add.assoc)
  qed
qed

lemmas decodeULEB128_loop_encoded =
  conjunct1 [OF decodeULEB128_loop_encoded_aux] conjunct2 [OF decodeULEB128_loop_encoded_aux]

lemma decodeULEB128_loop_padding:
  "s + 7 * k < 64 \<Longrightarrow>
   decodeULEB128_loop (replicate k 0x80 @ 0 # rest) acc s m = Decoded acc (m + Suc k)"
  by (induction k arbitrary: s m) (simp_all add: Let_def)
section \<open>The signed decoder inverts the signed encoder\<close>

lemma signed_septet_split:
  "push_bit s v = push_bit s (v AND 0x7f) OR push_bit (s + 7) (signed_drop_bit 7 v)" for v :: u64
proof (rule bit_word_eqI)
  have m: "(0x7f :: u64) = mask 7" by (simp add: mask_numeral)
  fix n assume n: "n < LENGTH(64)"
  consider "n < s" | k where "n = s + k" "k < 7" | k where "n = s + (7 + k)"
    by (metis add.commute le_Suc_ex linorder_not_less)
  then show "bit (push_bit s v) n \<longleftrightarrow>
      bit (push_bit s (v AND 0x7f) OR push_bit (s + 7) (signed_drop_bit 7 v)) n"
    unfolding m by cases (use n in \<open>auto simp: bit_simps add.commute\<close>)
qed

lemma bit_0x40: "bit (0x40 :: 'a::len word) n \<longleftrightarrow> n = 6 \<and> 6 < LENGTH('a)"
proof -
  have "bit (push_bit 6 (1 :: 'a word)) n \<longleftrightarrow> n = 6 \<and> 6 < LENGTH('a)"
    by (auto simp: bit_push_bit_iff bit_1_iff possible_bit_word simp del: push_bit_of_1)
  then show ?thesis by simp
qed

lemma and_0x40_eq_0_iff: "6 < LENGTH('a) \<Longrightarrow> b AND 0x40 = 0 \<longleftrightarrow> \<not> bit (b :: 'a::len word) 6"
proof
  assume "6 < LENGTH('a)" "b AND 0x40 = 0"
  then have "\<not> bit (b AND 0x40) 6" by simp
  then show "\<not> bit b 6" using \<open>6 < LENGTH('a)\<close> by (simp only: bit_and_iff bit_0x40 simp_thms)
next
  assume "\<not> bit b 6"
  then show "b AND 0x40 = 0"
    by (intro bit_word_eqI) (auto simp only: bit_and_iff bit_0x40 bit_0_eq bot_apply bot_bool_def)
qed

lemma septet_sign:
  fixes v :: u64
  shows "(ucast (v AND 0x7f) OR 0x80 :: u8) AND 0x40 = 0 \<longleftrightarrow> \<not> bit v 6"
    "(ucast (v AND 0x7f) :: u8) AND 0x40 = 0 \<longleftrightarrow> \<not> bit v 6"
proof -
  have m: "(0x7f :: u64) = mask 7" by (simp add: mask_numeral)
  show "(ucast (v AND 0x7f) OR 0x80 :: u8) AND 0x40 = 0 \<longleftrightarrow> \<not> bit v 6"
    "(ucast (v AND 0x7f) :: u8) AND 0x40 = 0 \<longleftrightarrow> \<not> bit v 6"
    unfolding m
    by (subst and_0x40_eq_0_iff, simp, simp add: bit_or_iff bit_unsigned_iff bit_and_iff bit_mask_iff bit_0x80)+
qed

definition sext_more :: "u64 \<Rightarrow> bool" where
  "sext_more v \<longleftrightarrow> \<not> (signed_drop_bit 7 v = 0 \<and> \<not> bit v 6 \<or> signed_drop_bit 7 v = - 1 \<and> bit v 6)"

lemma encodeSLEB128_loop_unfold:
  "encodeSLEB128_loop v c pad =
    (let b = ucast (v AND 0x7f); v' = signed_drop_bit 7 v in
     if sext_more v
     then (let (bs, n, w) = encodeSLEB128_loop v' (Suc c) pad in ((b OR 0x80) # bs, n, w))
     else ([if Suc c < pad then b OR 0x80 else b], Suc c, v'))"
  by (subst encodeSLEB128_loop.simps) (simp only: Let_def septet_sign sext_more_def, simp)

lemma decodeSLEB128_loop_septet:
  assumes "s < 64" "s = 63 \<Longrightarrow> v AND 0x7f = 0 \<or> v AND 0x7f = 0x7f"
  shows "decodeSLEB128_loop ((ucast (v AND 0x7f) OR 0x80) # bs) acc s m =
      decodeSLEB128_loop bs (acc OR push_bit s (v AND 0x7f)) (s + 7) (Suc m)"
    "decodeSLEB128_loop (ucast (v AND 0x7f) # bs) acc s m =
      Decoded (acc OR push_bit s (v AND 0x7f) OR (if s + 7 < 64 \<and> bit v 6 then push_bit (s + 7) (- 1) else 0)) (Suc m)"
proof -
  have c: "(s = 63 \<and> v AND 0x7f \<noteq> 0 \<and> v AND 0x7f \<noteq> 0x7f) = False" "(64 \<le> s) = False"
    using assms by (blast, simp)
  show "decodeSLEB128_loop ((ucast (v AND 0x7f) OR 0x80) # bs) acc s m =
      decodeSLEB128_loop bs (acc OR push_bit s (v AND 0x7f)) (s + 7) (Suc m)"
    unfolding decodeSLEB128_loop.simps Let_def septet_bits c by (simp add: septet_continues)
  show "decodeSLEB128_loop (ucast (v AND 0x7f) # bs) acc s m =
      Decoded (acc OR push_bit s (v AND 0x7f) OR (if s + 7 < 64 \<and> bit v 6 then push_bit (s + 7) (- 1) else 0)) (Suc m)"
    unfolding decodeSLEB128_loop.simps Let_def septet_bits septet_sign c
    by (simp add: septet_continues or.assoc)
qed

lemma sint_range_shift:
  assumes "s + 7 \<le> 63" "- (2 ^ (63 - s)) \<le> sint (v :: u64)" "sint v < 2 ^ (63 - s)"
  shows "- (2 ^ (63 - (s + 7))) \<le> sint (signed_drop_bit 7 v)" "sint (signed_drop_bit 7 v) < 2 ^ (63 - (s + 7))"
proof -
  have e: "(2::int) ^ (63 - s) = 2 ^ (63 - (s + 7)) * 128"
    using assms(1) power_add [of "2 :: int" "63 - (s + 7)" 7] by simp
  show "- (2 ^ (63 - (s + 7))) \<le> sint (signed_drop_bit 7 v)" "sint (signed_drop_bit 7 v) < 2 ^ (63 - (s + 7))"
    using assms(2,3) unfolding e sint_signed_drop_bit by simp_all
qed

lemma push_bit_sext_less:
  assumes "\<not> sext_more v"
  shows "push_bit s (v AND 0x7f) OR (if s + 7 < 64 \<and> bit v 6 then push_bit (s + 7) (- 1) else 0) = push_bit s v"
proof -
  have "push_bit (s + 7) (signed_drop_bit 7 v) = (if s + 7 < 64 \<and> bit v 6 then push_bit (s + 7) (- 1) else 0)"
  proof (cases "s + 7 < 64")
    case False
    then have "push_bit (s + 7) (signed_drop_bit 7 v) = 0"
      by (intro bit_word_eqI) (simp add: bit_push_bit_iff)
    with False show ?thesis by simp
  qed (use assms in \<open>auto simp: sext_more_def\<close>)
  then show ?thesis using signed_septet_split [of s v] by simp
qed

lemma decodeSLEB128_loop_encoded_aux:
  assumes "- (2 ^ (63 - s)) \<le> sint v" "sint v < 2 ^ (63 - s)" "s < 64" "7 dvd s"
    "encodeSLEB128_loop v c pad = (bs, n, w)"
  shows "n = c + length bs \<and> w = (if v <s 0 then - 1 else 0) \<and>
      s + 7 * length bs \<le> 70 \<and>
      (\<exists>acc'. decodeSLEB128_loop (bs @ rest) acc s m =
        (if n < pad then decodeSLEB128_loop rest acc' (s + 7 * length bs) (m + length bs)
         else Decoded (acc OR push_bit s v) (m + length bs)) \<and>
       acc' OR push_bit (s + 7 * length bs) w = acc OR push_bit s v)"
  using assms
proof (induction v c pad arbitrary: bs s acc m n w rule: encodeSLEB128_loop.induct)
  case (1 v c pad)
  let ?b = "ucast (v AND 0x7f) :: u8" and ?v = "signed_drop_bit 7 v"
  have s63: "s \<noteq> 63 \<Longrightarrow> s + 7 \<le> 63"
    using 1(4,5) by presburger
  have v63: "v = 0 \<or> v = - 1" if "s = 63"
    using 1(2,3) that sint_eq_0_iff [of v] sint_eq_minus_1_iff [of v] by fastforce
  then have "s = 63 \<Longrightarrow> v AND 0x7f = 0 \<or> v AND 0x7f = 0x7f"
    by auto
  note step = decodeSLEB128_loop_septet [OF 1(4) this]
  have sgn: "?v <s 0 \<longleftrightarrow> v <s 0"
    by (simp add: word_sless_alt sint_signed_drop_bit pos_imp_zdiv_neg_iff)
  show ?case
  proof (cases "sext_more v")
    case False
    then have bs: "bs = [if Suc c < pad then ?b OR 0x80 else ?b]" "n = Suc c" "w = ?v"
      using 1(6) by (auto simp: encodeSLEB128_loop_unfold [of v] Let_def)
    have "w = (if v <s 0 then - 1 else 0)"
      using False sgn unfolding bs(3) by (auto simp: sext_more_def word_sless_alt)
    then show ?thesis
      using signed_septet_split [of s v, symmetric] push_bit_sext_less [OF False, of s] 1(4)
      by (intro conjI exI [of _ "acc OR push_bit s (v AND 0x7f)"])
        (simp_all add: step or.assoc bs del: decodeSLEB128_loop.simps push_bit_and)
  next
    case True
    then have "s \<noteq> 63" using v63 by (auto simp: sext_more_def)
    obtain bs' n' w' where rec: "encodeSLEB128_loop ?v (Suc c) pad = (bs', n', w')"
      using prod_cases3 by blast
    have bs: "bs = (?b OR 0x80) # bs'" "n = n'" "w = w'"
      using 1(6) True rec by (auto simp: encodeSLEB128_loop_unfold [of v] Let_def)
    have more: "\<not> (?v = 0 \<and> ?b AND 0x40 = 0 \<or> ?v = - 1 \<and> ?b AND 0x40 \<noteq> 0)"
      using True by (simp only: sext_more_def septet_sign) simp
    have "n' = Suc c + length bs' \<and> w' = (if ?v <s 0 then - 1 else 0) \<and>
      s + 7 + 7 * length bs' \<le> 70 \<and>
      (\<exists>acc'. decodeSLEB128_loop (bs' @ rest) (acc OR push_bit s (v AND 0x7f)) (s + 7) (Suc m) =
        (if n' < pad then decodeSLEB128_loop rest acc' (s + 7 + 7 * length bs') (Suc m + length bs')
         else Decoded ((acc OR push_bit s (v AND 0x7f)) OR push_bit (s + 7) ?v) (Suc m + length bs')) \<and>
       acc' OR push_bit (s + 7 + 7 * length bs') w' = (acc OR push_bit s (v AND 0x7f)) OR push_bit (s + 7) ?v)"
      by (rule 1(1) [OF refl refl refl refl refl])
        (use more rec s63 \<open>s \<noteq> 63\<close> sint_range_shift [OF s63 1(2,3)] 1(5) in simp_all)
    moreover have "(acc OR push_bit s (v AND 0x7f)) OR push_bit (s + 7) ?v = acc OR push_bit s v"
      unfolding or.assoc signed_septet_split [of s v, symmetric] ..
    moreover have "s + 7 + 7 * length bs' = s + 7 * length bs" "Suc m + length bs' = m + length bs"
      "Suc c + length bs' = c + length bs"
      by (simp_all add: bs(1))
    moreover have "decodeSLEB128_loop (bs @ rest) acc s m =
        decodeSLEB128_loop (bs' @ rest) (acc OR push_bit s (v AND 0x7f)) (s + 7) (Suc m)"
      unfolding bs(1) append_Cons by (rule step(1))
    ultimately show ?thesis
      by (simp only: bs(2,3) sgn simp_thms) (elim conjE, simp only: simp_thms)
  qed
qed

lemma decodeSLEB128_loop_padding:
  assumes "s + 7 * k < 64" "v = 0 \<or> v = - 1"
  shows "decodeSLEB128_loop (replicate k (ucast (v AND 0x7f) OR 0x80) @ ucast (v AND 0x7f) # rest) acc s m =
      Decoded (acc OR push_bit s v) (m + Suc k)"
  using assms(1)
proof (induction k arbitrary: s m acc)
  case 0
  have "\<not> sext_more v" using assms(2) by (auto simp: sext_more_def)
  from push_bit_sext_less [OF this, of s] 0 assms(2) show ?case
    unfolding replicate_0 append_Nil by (subst decodeSLEB128_loop_septet)
      (auto simp: or.assoc simp del: push_bit_and push_bit_minus_one_eq_not_mask)
next
  case (Suc k)
  have "push_bit s v = push_bit s (v AND 0x7f) OR push_bit (s + 7) v"
    using signed_septet_split [of s v, symmetric] assms(2) by (auto simp del: push_bit_minus_one_eq_not_mask)
  then show ?case
    using Suc assms(2) by (simp add: decodeSLEB128_loop_septet or.assoc del: decodeSLEB128_loop.simps)
qed

lemma signed_drop_bit_63: "signed_drop_bit 63 v = (if v <s 0 then - 1 else 0)" for v :: u64
proof (rule bit_word_eqI)
  fix n assume "n < LENGTH(64)"
  then show "bit (signed_drop_bit 63 v) n \<longleftrightarrow> bit (if v <s 0 then - 1 else 0 :: u64) n"
    by (cases n) (auto simp: bit_simps word_sless_alt simp flip: bit_last_iff)
qed

lemma sext_more_sign:
  "sext_more v \<longleftrightarrow> signed_drop_bit 7 v \<noteq> signed_drop_bit 63 v \<or> ((v AND 0x7f) XOR signed_drop_bit 63 v) AND 0x40 \<noteq> 0"
  for v :: u64
proof -
  have m: "(0x7f :: u64) = mask 7" by (simp add: mask_numeral)
  have b6: "((v AND 0x7f) XOR w) AND 0x40 = 0 \<longleftrightarrow> (bit v 6 \<longleftrightarrow> bit w 6)" for w
    unfolding m by (subst and_0x40_eq_0_iff) (simp_all add: bit_simps)
  have "sint (signed_drop_bit 7 v) < 0 \<longleftrightarrow> sint v < 0"
    by (simp add: sint_signed_drop_bit pos_imp_zdiv_neg_iff)
  then have "signed_drop_bit 7 v = 0 \<Longrightarrow> \<not> v <s 0" "signed_drop_bit 7 v = - 1 \<Longrightarrow> v <s 0"
    by (auto simp: word_sless_alt)
  then show ?thesis
    unfolding b6 signed_drop_bit_63 sext_more_def by (cases "v <s 0"; simp; blast)
qed

lemma getSLEB128Size_loop_eq:
  assumes "s = (if v <s 0 then - 1 else 0)"
  shows "getSLEB128Size_loop s v c = Some (fst (snd (encodeSLEB128_loop v c pad)))"
  using assms
proof (induction v c pad rule: encodeSLEB128_loop.induct)
  case (1 v c pad)
  let ?v = "signed_drop_bit 7 v"
  have sgn: "?v <s 0 \<longleftrightarrow> v <s 0"
    by (simp add: word_sless_alt sint_signed_drop_bit pos_imp_zdiv_neg_iff)
  have s: "s = signed_drop_bit 63 v"
    using 1(2) by (simp only: signed_drop_bit_63)
  show ?case
  proof (cases "sext_more v")
    case False
    then show ?thesis
      by (simp add: getSLEB128Size_loop.simps encodeSLEB128_loop_unfold [of v] Let_def sext_more_sign flip: s)
  next
    case True
    obtain bs n w where rec: "encodeSLEB128_loop ?v (Suc c) pad = (bs, n, w)"
      using prod_cases3 by blast
    have more: "\<not> (?v = 0 \<and> (ucast (v AND 0x7f) :: u8) AND 0x40 = 0 \<or> ?v = - 1 \<and> (ucast (v AND 0x7f) :: u8) AND 0x40 \<noteq> 0)"
      using True by (simp only: sext_more_def septet_sign) simp
    have "getSLEB128Size_loop s ?v (Suc c) = Some (fst (snd (encodeSLEB128_loop ?v (Suc c) pad)))"
      by (rule 1(1) [OF refl refl refl refl refl]) (use more 1(2) sgn in simp_all)
    moreover have "?v \<noteq> s \<or> ((v AND 0x7f) XOR s) AND 0x40 \<noteq> 0"
      using True unfolding sext_more_sign s .
    ultimately show ?thesis
      using rec True by (subst getSLEB128Size_loop.simps)
        (simp add: encodeSLEB128_loop_unfold [of v] Let_def)
  qed
qed
section \<open>What the decoder and the size functions compute\<close>

lemma getULEB128Size_loop_eq: "getULEB128Size_loop v c = snd (encodeULEB128_loop v c pad)"
proof (induction v c rule: getULEB128Size_loop.induct)
  case (1 v c)
  then show ?case
    by (simp add: getULEB128Size_loop.simps [of v] encodeULEB128_loop.simps [of v] Let_def split: prod.splits)
qed

lemma encodeULEB128_loop_length_aux:
  "encodeULEB128_loop v c pad = (bs, n) \<Longrightarrow> uint v < 128 ^ k \<Longrightarrow> 0 < k \<Longrightarrow>
   n = c + length bs \<and> 0 < length bs \<and> length bs \<le> k"
proof (induction v c pad arbitrary: bs n k rule: encodeULEB128_loop.induct)
  case (1 v c pad)
  show ?case
  proof (cases "drop_bit 7 v = 0")
    case True
    then show ?thesis
      using 1(2,4) by (auto simp: encodeULEB128_loop.simps [of v] Let_def)
  next
    case False
    obtain bs' n' where rec: "encodeULEB128_loop (drop_bit 7 v) (Suc c) pad = (bs', n')"
      by fastforce
    obtain j where k: "k = Suc j"
      using 1(4) by (cases k) simp_all
    have "uint (drop_bit 7 v) < 128 ^ j"
      using 1(3) unfolding uint_drop_bit k by (simp add: int_div_less_iff mult.commute)
    moreover have "0 < j"
    proof (rule ccontr)
      assume "\<not> 0 < j"
      then have "uint (drop_bit 7 v) = 0"
        using \<open>uint (drop_bit 7 v) < 128 ^ j\<close> uint_nonneg [of "drop_bit 7 v"]
        by (simp only: not_gr_zero power_0)
      then show False using False by (simp only: uint_0_iff)
    qed
    ultimately have "n' = Suc c + length bs' \<and> 0 < length bs' \<and> length bs' \<le> j"
      by (intro 1(1) [OF refl refl refl refl]) (use False rec in simp_all)
    then show ?thesis
      using 1(2) False rec k by (auto simp: encodeULEB128_loop.simps [of v] Let_def)
  qed
qed

lemma encodeULEB128_loop_length:
  assumes "encodeULEB128_loop v 0 pad = (bs, n)"
  shows "n = length bs" "0 < n" "n \<le> 10"
proof -
  have "uint v < 128 ^ 10"
    using uint_lt_64 [of v] by simp
  from encodeULEB128_loop_length_aux [OF assms this] show "n = length bs" "0 < n" "n \<le> 10"
    by simp_all
qed

lemma decodeULEB128_loop_pad_undefined:
  "64 \<le> s + 7 * k \<Longrightarrow> decodeULEB128_loop (replicate k 0x80 @ 0 # rest) acc s m = Undefined"
  by (induction k arbitrary: s m) (simp_all add: Let_def)

fun uleb_value :: "u8 list \<Rightarrow> nat" where
  "uleb_value [] = 0"
| "uleb_value (b # bs) = unat b mod 128 + 128 * uleb_value bs"

lemma septet_fits_iff:
  fixes v :: u64
  assumes "s < 64" "drop_bit s (push_bit s v) = v"
  shows "uint v < 2 ^ (64 - s)" "uint (push_bit s v) = uint v * 2 ^ s"
proof -
  show "uint v < 2 ^ (64 - s)"
    unfolding uint_less_2p_iff_bits
  proof (intro allI impI)
    fix n assume "64 - s \<le> n"
    then have "\<not> s + n < 64" using assms(1) by linarith
    then have "\<not> bit (drop_bit s (push_bit s v)) n"
      by (simp add: bit_simps)
    then show "\<not> bit v n" by (simp only: assms(2) simp_thms)
  qed
  then have "uint v * 2 ^ s < 2 ^ (64 - s) * 2 ^ s" by (intro mult_strict_right_mono) simp_all
  also have "\<dots> = (2 :: int) ^ 64" using assms(1) by (simp flip: power_add)
  finally show "uint (push_bit s v) = uint v * 2 ^ s"
    by (simp only: unsigned_push_bit_eq [where ?'a = int]) (simp add: push_bit_eq_mult take_bit_int_eq_self)
qed

lemma decodeULEB128_loop_value:
  assumes "decodeULEB128_loop bs acc s m = Decoded v n" "unat acc < 2 ^ s"
  shows "m < n \<and> n - m \<le> length bs \<and> unat v = unat acc + 2 ^ s * uleb_value (take (n - m) bs) \<and>
    (\<forall>i < n - m - 1. 128 \<le> bs ! i) \<and> bs ! (n - m - 1) < 128"
  using assms
proof (induction bs acc s m rule: decodeULEB128_loop.induct)
  case (2 b bs acc s m)
  define sl where "sl = (ucast b AND 0x7f :: u64)"
  have m7: "(0x7f :: u64) = mask 7" by (simp add: mask_numeral)
  have "uint sl = take_bit 7 (uint b)"
    unfolding sl_def m7 by (rule bit_eqI) (auto simp: bit_simps dest: bit_imp_le_length)
  then have "nat (uint sl) = nat (uint b) mod 2 ^ 7"
    by (simp only: take_bit_eq_mod nat_mod_distrib uint_nonneg zero_le_power zero_le_numeral nat_power_eq nat_numeral)
  then have sl: "unat sl = unat b mod 128"
    by simp
  have s64: "s < 64" and fit: "drop_bit s (push_bit s sl) = sl"
    using 2(2) by (auto simp: Let_def simp flip: sl_def split: if_splits)
  note fits = septet_fits_iff [OF s64 fit]
  have push: "unat (push_bit s sl) = unat sl * 2 ^ s"
    using arg_cong [OF fits(2), of nat] by (simp add: nat_mult_distrib nat_power_eq)
  have "nat (uint sl) < nat (2 ^ (64 - s))"
    using fits(1) by (intro nat_mono_iff [THEN iffD2]) simp_all
  then have "Suc (unat sl) \<le> 2 ^ (64 - s)"
    by (simp add: nat_power_eq)
  then have "Suc (unat sl) * 2 ^ s \<le> 2 ^ (64 - s) * 2 ^ s"
    by (rule mult_right_mono) simp
  moreover have "2 ^ (64 - s) * 2 ^ s = (2 :: nat) ^ 64"
    using s64 by (simp flip: power_add)
  ultimately have "Suc (unat sl) * 2 ^ s \<le> 2 ^ 64"
    by (simp only:)
  then have "unat acc + unat sl * 2 ^ s < 2 ^ 64"
    using 2(3) by (simp add: distrib_right)
  then have acc: "unat (acc + push_bit s sl) = unat acc + unat sl * 2 ^ s"
    by (simp add: unat_plus_if' push)
  have "unat acc + unat sl * 2 ^ s < 2 ^ (s + 7)"
  proof -
    have "unat sl * 2 ^ s \<le> 127 * 2 ^ s"
      using sl by (intro mult_right_mono) simp_all
    then have "unat acc + unat sl * 2 ^ s < 2 ^ s + 127 * 2 ^ s"
      using 2(3) by linarith
    then show ?thesis by (simp add: power_add)
  qed
  then have acc': "unat (acc + push_bit s sl) < 2 ^ (s + 7)"
    by (simp only: acc)
  show ?case
  proof (cases "128 \<le> b")
    case False
    then show ?thesis
      using 2(2) s64 fit acc by (auto simp: Let_def sl simp flip: sl_def)
  next
    case True
    then have rec: "decodeULEB128_loop bs (acc + push_bit s sl) (s + 7) (Suc m) = Decoded v n"
      using 2(2) s64 fit by (simp add: Let_def flip: sl_def)
    have IH: "Suc m < n \<and> n - Suc m \<le> length bs \<and>
      unat v = unat (acc + push_bit s sl) + 2 ^ (s + 7) * uleb_value (take (n - Suc m) bs) \<and>
      (\<forall>i < n - Suc m - 1. 128 \<le> bs ! i) \<and> bs ! (n - Suc m - 1) < 128"
      by (rule 2(1) [OF sl_def _ _ _ refl refl True rec acc']) (use s64 fit in simp_all)
    then obtain d where "n = Suc (Suc m + d)"
      using less_iff_Suc_add by blast
    then have d: "n - m = Suc (Suc d)" "n - Suc m = Suc d" "m < n"
      by simp_all
    have p: "2 ^ (s + 7) = 2 ^ s * (128 :: nat)"
      by (simp add: power_add)
    have "unat v = unat acc + 2 ^ s * uleb_value (take (n - m) (b # bs))"
      using IH unfolding d p take_Suc_Cons uleb_value.simps by (simp add: acc sl distrib_left)
    moreover have "\<forall>i < Suc d. 128 \<le> (b # bs) ! i"
      using IH True unfolding d by (auto simp: less_Suc_eq_0_disj)
    ultimately show ?thesis
      using IH unfolding d by simp
  qed
qed simp
section \<open>Properties\<close>

lemma encodeSLEB128_loop_length:
  assumes "encodeSLEB128_loop v 0 pad = (bs, n, w)"
  shows "n = length bs" "n \<le> 10" "w = (if v <s 0 then - 1 else 0)" "0 < n"
proof -
  have *: "- (2 ^ (63 - 0)) \<le> sint v" "sint v < 2 ^ (63 - 0)"
    using sint_ge_64 [of v] sint_lt_64 [of v] by simp_all
  from decodeSLEB128_loop_encoded_aux [OF * _ _ assms] show "n = length bs" "n \<le> 10" "w = (if v <s 0 then - 1 else 0)"
    by simp_all
  have "bs \<noteq> []"
    using assms unfolding encodeSLEB128_loop_unfold [of v 0] by (auto simp: Let_def split: if_splits prod.splits)
  then show "0 < n" using \<open>n = length bs\<close> by simp
qed

lemma decodeULEB128_encoded:
  assumes "PadTo \<le> 10"
  shows "decodeULEB128 (fst (encodeULEB128 v PadTo) @ rest) =
    Decoded v (length (fst (encodeULEB128 v PadTo)))"
proof -
  obtain bs n where e: "encodeULEB128_loop v 0 PadTo = (bs, n)" by fastforce
  note len = encodeULEB128_loop_length [OF e]
  have "\<And>n. bit v n \<Longrightarrow> n + 0 < 64"
    using bit_imp_le_length [of v] by simp
  note dec = decodeULEB128_loop_encoded(2) [OF this _ e, of _ 0 0]
  show ?thesis
    using dec len assms decodeULEB128_loop_padding [of "7 * n" "PadTo - 1 - n" rest v n]
    by (auto simp: encodeULEB128_def decodeULEB128_def e)
qed

text \<open>C35: decoding what \<open>encodeULEB128\<close> wrote gives the value back and reads exactly the bytes
  written, whatever follows them, for every padding of at most ten bytes.\<close>

theorem uleb128_roundtrip:
  assumes "PadTo \<le> 10"
  shows "decodeULEB128 (fst (encodeULEB128 v PadTo) @ rest) =
    Decoded v (length (fst (encodeULEB128 v PadTo)))"
  using assms by (rule decodeULEB128_encoded)

lemma uleb128_roundtrip_witness:
  "encodeULEB128 624485 5 = ([0xe5, 0x8e, 0xa6, 0x80, 0x00], 5) \<and>
   decodeULEB128 [0xe5, 0x8e, 0xa6, 0x80, 0x00, 0x11] = Decoded 624485 5"
proof -
  have e: "encodeULEB128 624485 5 = ([0xe5, 0x8e, 0xa6, 0x80, 0x00], 5)"
    by code_simp
  show ?thesis
    using uleb128_roundtrip [of 5 624485 "[0x11]"] by (simp add: e)
qed

lemma decodeSLEB128_encoded:
  assumes "PadTo \<le> 10"
  shows "decodeSLEB128 (fst (encodeSLEB128 v PadTo) @ rest) =
    Decoded v (length (fst (encodeSLEB128 v PadTo)))"
proof -
  obtain bs n w where e: "encodeSLEB128_loop v 0 PadTo = (bs, n, w)" using prod_cases3 by blast
  note len = encodeSLEB128_loop_length [OF e]
  have r: "- (2 ^ (63 - 0)) \<le> sint v" "sint v < 2 ^ (63 - 0)"
    using sint_ge_64 [of v] sint_lt_64 [of v] by simp_all
  define k where "k = PadTo - 1 - n"
  define P where "P = (ucast (w AND 0x7f) :: u8)"
  have w: "w = 0 \<or> w = - 1" using len(3) by simp
  have P: "(if w <s 0 then 0x7f else 0x00) = P"
    using w by (auto simp: P_def word_sless_alt)
  define tail where "tail = (if n < PadTo then replicate k (P OR 0x80) @ P # rest else rest)"
  obtain acc where dec: "decodeSLEB128_loop (bs @ tail) 0 0 0 =
        (if n < PadTo then decodeSLEB128_loop tail acc (7 * n) n else Decoded v n)"
      "acc OR push_bit (7 * n) w = v"
    using decodeSLEB128_loop_encoded_aux [OF r zero_less_numeral dvd_0_right e, of tail 0 0] len(1)
    by (auto simp only: add_0 or.left_neutral push_bit_0_id id_apply simp_thms)
  have "decodeSLEB128_loop (bs @ tail) 0 0 0 = Decoded v (if n < PadTo then n + Suc k else n)"
  proof (cases "n < PadTo")
    case True
    have "7 * n + 7 * k < 64" using True assms by (simp add: k_def)
    from decodeSLEB128_loop_padding [OF this w, of rest acc n] True dec show ?thesis
      by (simp add: tail_def P_def)
  qed (use dec in simp)
  then show ?thesis
    using len(1) by (auto simp: encodeSLEB128_def decodeSLEB128_def e P Let_def tail_def k_def)
qed

text \<open>C36: the same for the signed encoding: every 64-bit value survives the round trip, padded
  with sign bytes to any length of at most ten.\<close>

theorem sleb128_roundtrip:
  assumes "PadTo \<le> 10"
  shows "decodeSLEB128 (fst (encodeSLEB128 v PadTo) @ rest) =
    Decoded v (length (fst (encodeSLEB128 v PadTo)))"
  by (rule decodeSLEB128_encoded [OF assms])

lemma sleb128_roundtrip_witness:
  "encodeSLEB128 (- 123456) 4 = ([0xc0, 0xbb, 0xf8, 0x7f], 4) \<and>
   decodeSLEB128 [0xc0, 0xbb, 0xf8, 0x7f] = Decoded (- 123456) 4"
proof -
  have e: "encodeSLEB128 (- 123456) 4 = ([0xc0, 0xbb, 0xf8, 0x7f], 4)"
    by code_simp
  show ?thesis
    using sleb128_roundtrip [of 4 "- 123456" "[]"] by (simp add: e)
qed

text \<open>Padded to eleven bytes or more, the encoding of every value drives the decoder into
  a shift of a 64-bit value by 70, which C++ leaves undefined.\<close>

theorem uleb128_overlong_padding_undefined:
  assumes "11 \<le> PadTo"
  shows "decodeULEB128 (fst (encodeULEB128 v PadTo) @ rest) = Undefined"
proof -
  obtain bs n where e: "encodeULEB128_loop v 0 PadTo = (bs, n)" by fastforce
  note len = encodeULEB128_loop_length [OF e]
  have "\<And>n. bit v n \<Longrightarrow> n + 0 < 64"
    using bit_imp_le_length [of v] by simp
  note dec = decodeULEB128_loop_encoded(2) [OF this _ e, of _ 0 0]
  show ?thesis
    using dec len assms decodeULEB128_loop_pad_undefined [of "7 * n" "PadTo - 1 - n" rest v n]
    by (auto simp: encodeULEB128_def decodeULEB128_def e)
qed

lemma uleb128_overlong_padding_undefined_witness:
  "decodeULEB128 (fst (encodeULEB128 1 11) @ []) = Undefined"
  by (rule uleb128_overlong_padding_undefined) simp

lemma getULEB128Size_length: "getULEB128Size v = length (fst (encodeULEB128 v 0))"
proof -
  obtain bs n where e: "encodeULEB128_loop v 0 0 = (bs, n)" by fastforce
  then show ?thesis
    using encodeULEB128_loop_length [OF e]
    by (simp add: getULEB128Size_def getULEB128Size_loop_eq [where pad = 0] encodeULEB128_def)
qed

lemma encodeULEB128_buf_0:
  "encodeULEB128_buf v 0 = (fst (encodeULEB128 v 0), length (fst (encodeULEB128 v 0)))"
proof -
  obtain bs n where e: "encodeULEB128_loop v 0 0 = (bs, n)" by fastforce
  then show ?thesis
    using encodeULEB128_loop_length [OF e] by (simp add: encodeULEB128_buf_def encodeULEB128_def)
qed

text \<open>The two size functions return the lengths of the unpadded encodings; in particular the
  loop of the signed one terminates for every value.\<close>

theorem leb128_sizes:
  "getULEB128Size v = length (fst (encodeULEB128 v 0)) \<and>
   getSLEB128Size v = Some (length (fst (encodeSLEB128 v 0)))"
proof -
  obtain bs' n' w where e': "encodeSLEB128_loop v 0 0 = (bs', n', w)" using prod_cases3 by blast
  have "getULEB128Size v = length (fst (encodeULEB128 v 0))" by (rule getULEB128Size_length)
  moreover have "getSLEB128Size v = Some (length (fst (encodeSLEB128 v 0)))"
    using encodeSLEB128_loop_length [OF e'] e'
    by (simp add: getSLEB128Size_def getSLEB128Size_loop_eq [OF signed_drop_bit_63, where pad = 0] encodeSLEB128_def)
  ultimately show ?thesis by simp
qed

text \<open>A successful unsigned decode reads a nonempty run of bytes of which only the last has
  its top bit clear, and returns the little-endian base-128 number they spell, with no wrap-around.\<close>

theorem decodeULEB128_value:
  assumes "decodeULEB128 p = Decoded v n"
  shows "0 < n \<and> n \<le> length p \<and> unat v = uleb_value (take n p) \<and>
    (\<forall>i < n - 1. 128 \<le> p ! i) \<and> p ! (n - 1) < 128"
  using decodeULEB128_loop_value [of p 0 0 0 v n] assms by (simp add: decodeULEB128_def)

lemma decodeULEB128_value_witness:
  "decodeULEB128 [0xe5, 0x8e, 0x26] = Decoded 624485 3 \<and> uleb_value (take 3 [0xe5, 0x8e, 0x26]) = 624485"
proof -
  have d: "decodeULEB128 [0xe5, 0x8e, 0x26] = Decoded 624485 3"
    by (simp add: decodeULEB128_def)
  show ?thesis using decodeULEB128_value [OF d] d by simp
qed

end
