(* ===== verification/MatInt.thy ===== *)
theory MatInt
  imports MathFacts
begin

text \<open>
  \<open>llvm/lib/Target/RISCV/MCTargetDesc/RISCVMatInt.{h,cpp}\<close> and \<open>RISCVInstrInfo::movImm\<close>: the
  choice of an instruction sequence that materialises a constant in a register.

  A \<open>SmallVector<Inst>\<close> is the list of its elements; a function that appends to one takes and
  returns the list. The optimisation steps of \<open>generateInstSeq\<close> are one definition each, in the
  order of the code. What the instructions do (\<open>alu\<close>, \<open>exec_mi\<close>) is the RISC-V specification, for
  registers of any width; it is what the sequences are proved against.
\<close>

section \<open>Instructions\<close>

datatype opcode = LUI | ADDI | ADDIW | SLLI | SRLI | SLLI_UW | ADD_UW | SH1ADD | SH2ADD | SH3ADD
  | PACK | BSETI | BCLRI | RORI | TH_SRRI

datatype OpndKind = RegImm | Imm | RegReg | RegX0

record Inst =
  Opc :: opcode
  Imm32 :: u32

text \<open>The constructor narrows its argument to \<open>int32_t\<close> and asserts that nothing is lost.\<close>

definition mkInst :: "opcode \<Rightarrow> u64 \<Rightarrow> Inst" where
  "mkInst Op I = \<lparr>Opc = Op, Imm32 = scast I\<rparr>"

definition getImm :: "Inst \<Rightarrow> u64" where
  "getImm i = scast (Imm32 i)"

definition getOpndKind :: "Inst \<Rightarrow> OpndKind" where
  "getOpndKind i =
    (case Opc i of
       LUI \<Rightarrow> Imm
     | ADD_UW \<Rightarrow> RegX0
     | SH1ADD \<Rightarrow> RegReg | SH2ADD \<Rightarrow> RegReg | SH3ADD \<Rightarrow> RegReg | PACK \<Rightarrow> RegReg
     | _ \<Rightarrow> RegImm)"

record features =
  Feature64Bit :: bool
  StdExtC :: bool
  StdExtZca :: bool
  StdExtZba :: bool
  StdExtZbb :: bool
  StdExtZbs :: bool
  StdExtZbkb :: bool
  VendorXTHeadBb :: bool
  TuneLUIADDIFusion :: bool

section \<open>Generating a sequence\<close>

text \<open>
  The choice of the shift: from the constant without its low 12 bits to the constant that is
  generated recursively, the shift amount and whether the shift clears the upper word first.
\<close>

definition reduceShift :: "features \<Rightarrow> u64 \<Rightarrow> u64 \<times> nat \<times> bool" where
  "reduceShift F Val =
    (if \<not> isInt 32 Val then
       let ShiftAmount = countr_zero Val;
           Val' = signed_drop_bit ShiftAmount Val;
           (Val'', ShiftAmount', Unsigned) =
             (if ShiftAmount > 12 \<and> \<not> isInt 12 Val' then
                if isInt 32 (push_bit 12 Val') then (push_bit 12 Val', ShiftAmount - 12, False)
                else if isUInt 32 (push_bit 12 Val') \<and> StdExtZba F
                  then (push_bit 12 Val' OR push_bit 32 0xffffffff, ShiftAmount - 12, True)
                else (Val', ShiftAmount, False)
              else (Val', ShiftAmount, False))
       in if isUInt 32 Val'' \<and> \<not> isInt 32 Val'' \<and> StdExtZba F
          then (Val'' OR push_bit 32 0xffffffff, ShiftAmount', True)
          else (Val'', ShiftAmount', Unsigned)
     else (Val, 0, False))"

lemma sint_minus_word: "\<bar>sint (a - b)\<bar> \<le> \<bar>sint a\<bar> + \<bar>sint (b :: u64)\<bar>"
proof (cases "- (2 ^ 63) \<le> sint a - sint b \<and> sint a - sint b < 2 ^ 63")
  case True
  then have "sint (word_of_int (sint a - sint b) :: u64) = sint a - sint b"
    by (intro sint_word_of_int_64) simp_all
  then show ?thesis by simp
next
  case False
  then show ?thesis
    using sint_ge_64 [of "a - b"] sint_lt_64 [of "a - b"] by linarith
qed

lemma upper_ones: "push_bit 32 0xffffffff = (- (2 ^ 32) :: u64)"
  by simp

lemma or_upper_ones_eq:
  fixes w :: u64
  assumes "isUInt 32 w"
  shows "w OR push_bit 32 0xffffffff = w - 2 ^ 32"
proof -
  have m: "push_bit 32 0xffffffff = (push_bit 32 (mask 32) :: u64)"
    by (simp add: mask_eq_exp_minus_1)
  have "uint w < 2 ^ 32" using assms isUInt_iff_aux [of 32 w] by simp
  then have b: "\<And>n. 32 \<le> n \<Longrightarrow> \<not> bit w n"
    by (simp only: uint_less_2p_iff_bits simp_thms)
  have "w AND push_bit 32 0xffffffff = 0"
    unfolding m by (intro bit_word_eqI) (use b in \<open>auto simp: bit_simps\<close>)
  then have "w OR push_bit 32 0xffffffff = w + push_bit 32 0xffffffff"
    by (rule disjunctive_add_eq_or [symmetric])
  then show ?thesis by (simp only: upper_ones) simp
qed

lemma or_upper_ones:
  fixes w :: u64
  assumes "isUInt 32 w"
  shows "ucast (ucast (w OR push_bit 32 0xffffffff) :: u32) = w"
    "\<not> isInt 32 w \<Longrightarrow> isInt 32 (w OR push_bit 32 0xffffffff)"
proof -
  have u: "uint w < 2 ^ 32" using assms isUInt_iff_aux [of 32 w] by simp
  have w: "w - 2 ^ 32 = word_of_int (uint w - 2 ^ 32)" by simp
  have "ucast (w - 2 ^ 32) = (ucast w :: u32)"
    unfolding w by (subst ucast_word_of_int_down) simp_all
  then show "ucast (ucast (w OR push_bit 32 0xffffffff) :: u32) = w"
    using assms unfolding or_upper_ones_eq [OF assms] by (simp add: isUInt_def)
  have s: "sint w = uint w"
    using u sint_word_of_int_64 [of "uint w"] by (simp add: order_trans [of _ 0])
  assume "\<not> isInt 32 w"
  then have "2 ^ 31 \<le> uint w"
    using isInt_iff_aux [of 32 w] s uint_nonneg [of w] by simp
  then have "sint (w - 2 ^ 32) = uint w - 2 ^ 32"
    using u unfolding w by (intro sint_word_of_int_64) simp_all
  then show "isInt 32 (w OR push_bit 32 0xffffffff)"
    unfolding or_upper_ones_eq [OF assms] using isInt_iff_aux [of 32 "w - 2 ^ 32"] u \<open>2 ^ 31 \<le> uint w\<close> by simp
qed

lemma push_bit_countr_zero: "push_bit (countr_zero v) (signed_drop_bit (countr_zero v) v) = (v :: u64)"
proof -
  have "sint v div 2 ^ countr_zero v * 2 ^ countr_zero v = sint v"
    using dvd_countr_zero [of v] by simp
  moreover have "signed_drop_bit (countr_zero v) v = word_of_int (sint v div 2 ^ countr_zero v)"
    by (simp only: sint_signed_drop_bit [symmetric] word_of_int_sint)
  moreover have "push_bit n (word_of_int k :: u64) = word_of_int (k * 2 ^ n)" for n k
    by (simp add: push_bit_eq_mult)
  ultimately show ?thesis
    by (simp only: word_of_int_sint)
qed

lemma reduceShift_cases:
  fixes v :: u64
  assumes "reduceShift F v = (w, s, u)"
  obtains (none) "isInt 32 v" "w = v" "s = 0" "\<not> u"
    | (shift) "\<not> isInt 32 v" "\<not> u" "s = countr_zero v" "w = signed_drop_bit s v"
    | (lui) "\<not> isInt 32 v" "\<not> u" "s = countr_zero v - 12" "12 < countr_zero v"
        "w = push_bit 12 (signed_drop_bit (countr_zero v) v)" "isInt 32 w"
    | (uw) x where "\<not> isInt 32 v" "u" "isUInt 32 x" "\<not> isInt 32 x" "w = x OR push_bit 32 0xffffffff"
        "s = countr_zero v \<and> x = signed_drop_bit (countr_zero v) v \<or>
         s = countr_zero v - 12 \<and> 12 < countr_zero v \<and> x = push_bit 12 (signed_drop_bit (countr_zero v) v)"
proof -
  let ?c = "countr_zero v" let ?v = "signed_drop_bit ?c v"
  define c where "c = ?c"
  define w0 where "w0 = signed_drop_bit c v"
  define w12 where "w12 = push_bit 12 w0"
  define ones where "ones = (push_bit 32 0xffffffff :: u64)"
  have nu: "\<not> isUInt 32 (x OR ones)" if "isUInt 32 x" "\<not> isInt 32 x" for x
    using or_upper_ones(1) [OF that(1)] or_upper_ones(2) [OF that] that
    unfolding ones_def isUInt_def by auto
  show thesis
  proof (cases "isInt 32 v")
    case True
    have "(v, 0, False) = (w, s, u)"
      unfolding assms [symmetric] reduceShift_def by (simp only: True not_True_eq_False if_False)
    then show ?thesis using True by (intro none) auto
  next
    case False
    have red: "(let (Val'', ShiftAmount', Unsigned) =
             (if c > 12 \<and> \<not> isInt 12 w0 then
                if isInt 32 w12 then (w12, c - 12, False)
                else if isUInt 32 w12 \<and> StdExtZba F then (w12 OR ones, c - 12, True)
                else (w0, c, False)
              else (w0, c, False))
       in if isUInt 32 Val'' \<and> \<not> isInt 32 Val'' \<and> StdExtZba F
          then (Val'' OR ones, ShiftAmount', True)
          else (Val'', ShiftAmount', Unsigned)) = (w, s, u)"
      unfolding assms [symmetric] reduceShift_def Let_def c_def w0_def w12_def ones_def by (simp only: if_True simp_thms False not_False_eq_True)
    consider (a) "c > 12" "\<not> isInt 12 w0" "isInt 32 w12"
      | (b) "c > 12" "\<not> isInt 12 w0" "\<not> isInt 32 w12" "isUInt 32 w12" "StdExtZba F"
      | (c) "c > 12 \<and> \<not> isInt 12 w0 \<Longrightarrow> \<not> isInt 32 w12 \<and> \<not> (isUInt 32 w12 \<and> StdExtZba F)"
      by blast
    then show ?thesis
    proof cases
      case a
      then have "(w, s, u) = (w12, c - 12, False)" using red by simp
      then show ?thesis using a False lui by (simp add: c_def w12_def w0_def)
    next
      case b
      then have "(w, s, u) = (w12 OR ones, c - 12, True)" using red nu [OF b(4,3)] by simp
      then show ?thesis using b False by (intro uw [of w12]) (simp_all add: c_def w12_def w0_def ones_def)
    next
      case d: c
      then have "(w, s, u) = (if isUInt 32 w0 \<and> \<not> isInt 32 w0 \<and> StdExtZba F then (w0 OR ones, c, True) else (w0, c, False))"
        using red by (auto split: if_splits)
      then show ?thesis
        using False shift uw [of w0]
        by (auto simp: c_def w0_def ones_def simp del: push_bit_numeral split: if_splits)
    qed
  qed
qed
lemma low12_clear:
  assumes "n < 12"
  shows "\<not> bit (v - SignExtend64 v 12) n"
proof -
  let ?l = "sint (SignExtend64 v 12)"
  have l: "?l = signed_take_bit 11 (uint v)"
    using sint_SignExtend64 [of 12 v] by simp
  have "v - SignExtend64 v 12 = word_of_int (uint v - ?l)" by simp
  then have "bit (v - SignExtend64 v 12) n \<longleftrightarrow> bit (uint v - ?l) n"
    using assms by (simp only: bit_word_of_int_iff) simp
  also have "\<dots> \<longleftrightarrow> bit (take_bit 12 (uint v - ?l)) n"
    using assms by (simp add: bit_simps)
  also have "take_bit 12 (uint v - ?l) = take_bit 12 (take_bit 12 (uint v) - take_bit 12 ?l)"
    by (simp only: take_bit_diff)
  also have "\<dots> = 0"
    unfolding l by (simp add: take_bit_signed_take_bit)
  finally show ?thesis by simp
qed

lemma sint_Lo12: "- 2048 \<le> sint (SignExtend64 v 12)" "sint (SignExtend64 v 12) < 2048"
  using sint_SignExtend64 [of 12 v] signed_take_bit_int_greater_eq_minus_exp [of 11 "uint v"]
    signed_take_bit_int_less_exp [of 11 "uint v"] by simp_all

lemma reduceShift_small:
  assumes "\<not> isInt 32 v" "reduceShift F (v - SignExtend64 v 12) = (w, s, u)"
  shows "isInt 32 w \<or> \<bar>sint w\<bar> * 4096 \<le> \<bar>sint v\<bar> + 2048"
  using assms(2)
proof (cases rule: reduceShift_cases)
  case shift
  let ?v = "v - SignExtend64 v 12"
  have "?v \<noteq> 0"
    using shift(1) by (auto simp: isInt_def)
  then have "12 \<le> s"
    using bit_countr_zero [of ?v] low12_clear [of "countr_zero ?v" v] shift(3) by (meson not_le)
  have "sint w = sint ?v div 2 ^ s" "2 ^ s dvd sint ?v"
    using shift(3,4) dvd_countr_zero [of ?v] by (simp_all only: sint_signed_drop_bit)
  then have "sint ?v = sint w * 2 ^ s" by simp
  then have "\<bar>sint ?v\<bar> = \<bar>sint w\<bar> * 2 ^ s" by (simp only: abs_mult power_abs abs_numeral)
  moreover have "\<bar>sint w\<bar> * 4096 \<le> \<bar>sint w\<bar> * 2 ^ s"
    using power_increasing [OF \<open>12 \<le> s\<close>, of "2 :: int"] by (intro mult_left_mono) simp_all
  ultimately have "\<bar>sint w\<bar> * 4096 \<le> \<bar>sint ?v\<bar>" by simp
  then show ?thesis
    using sint_minus_word [of v "SignExtend64 v 12"] sint_Lo12 [of v] by linarith
qed (use or_upper_ones(2) in \<open>auto simp del: push_bit_numeral\<close>)

function generateInstSeqImpl :: "u64 \<Rightarrow> features \<Rightarrow> Inst list \<Rightarrow> Inst list" where
  "generateInstSeqImpl Val F Res =
    (if StdExtZbs F \<and> isPowerOf2_64 Val \<and> (\<not> isInt 32 Val \<or> Val = 0x800)
     then Res @ [mkInst BSETI (ucast (Log2_64 Val))]
     else if isInt 32 Val then
       (let Hi20 = signed_drop_bit 12 (Val + 0x800) AND 0xFFFFF;
            Lo12 = SignExtend64 Val 12;
            Res' = (if Hi20 \<noteq> 0 then Res @ [mkInst LUI Hi20] else Res)
        in if Lo12 \<noteq> 0 \<or> Hi20 = 0
           then Res' @ [mkInst (if Feature64Bit F \<and> Hi20 \<noteq> 0 then ADDIW else ADDI) Lo12]
           else Res')
     else
       (let Lo12 = SignExtend64 Val 12;
            (Val', ShiftAmount, Unsigned) = reduceShift F (Val - Lo12);
            Res' = generateInstSeqImpl Val' F Res;
            Res'' = (if ShiftAmount \<noteq> 0
                     then Res' @ [mkInst (if Unsigned then SLLI_UW else SLLI) (of_nat ShiftAmount)]
                     else Res')
        in if Lo12 \<noteq> 0 then Res'' @ [mkInst ADDI Lo12] else Res''))"
  by pat_completeness auto

termination generateInstSeqImpl
proof (relation "measure (\<lambda>(v, F, Res). if isInt 32 v then 0 else Suc (nat \<bar>sint v\<bar>))", goal_cases)
  case 1
  show ?case by simp
next
  case (2 v F Res Lo12 x w y s u)
  then have eq: "reduceShift F (v - SignExtend64 v 12) = (w, s, u)" by simp
  have "\<not> (- (2 ^ 31) \<le> sint v \<and> sint v < 2 ^ 31)"
    using 2(2) isInt_iff_aux [of 32 v] by simp
  then have "2 ^ 31 \<le> \<bar>sint v\<bar>" by linarith
  have "nat \<bar>sint w\<bar> < nat \<bar>sint v\<bar>" if "\<bar>sint w\<bar> * 4096 \<le> \<bar>sint v\<bar> + 2048"
    using that \<open>2 ^ 31 \<le> \<bar>sint v\<bar>\<close> by (intro nat_mono_iff [THEN iffD2]) simp_all
  then show ?case
    using reduceShift_small [OF 2(2) eq]
    by (cases "isInt 32 w")
      (simp_all only: in_measure split_conv 2(2) simp_thms if_True if_False zero_less_Suc Suc_less_eq)
qed

declare generateInstSeqImpl.simps [simp del]

definition extractRotateInfo :: "u64 \<Rightarrow> nat" where
  "extractRotateInfo Val =
    (let LeadingOnes = countl_one Val; TrailingOnes = countr_one Val in
     if TrailingOnes > 0 \<and> TrailingOnes < 64 \<and> LeadingOnes + TrailingOnes > 64 - 12
     then 64 - TrailingOnes
     else
       let UpperTrailingOnes = countr_one (Hi_32 Val); LowerLeadingOnes = countl_one (Lo_32 Val) in
       if UpperTrailingOnes < 32 \<and> UpperTrailingOnes + LowerLeadingOnes > 64 - 12
       then 32 - UpperTrailingOnes
       else 0)"

text \<open>The recurring test of \<open>generateInstSeq\<close>: the new sequence with its tail is kept if it is shorter.\<close>

definition keepShorter :: "Inst list \<Rightarrow> Inst list \<Rightarrow> Inst list \<Rightarrow> Inst list" where
  "keepShorter TmpSeq extra Res = (if length TmpSeq + length extra < length Res then TmpSeq @ extra else Res)"

definition trailingZerosStep :: "u64 \<Rightarrow> features \<Rightarrow> Inst list \<Rightarrow> Inst list" where
  "trailingZerosStep Val F Res =
    (if Val AND 0xfff \<noteq> 0 \<and> Val AND 1 = 0 \<and> length Res \<ge> 2 then
       let TrailingZeros = countr_zero Val;
           ShiftedVal = signed_drop_bit TrailingZeros Val;
           IsShiftedCompressible = (isInt 6 ShiftedVal \<and> \<not> TuneLUIADDIFusion F);
           TmpSeq = generateInstSeqImpl ShiftedVal F []
       in if length TmpSeq + 1 < length Res \<or> IsShiftedCompressible
          then TmpSeq @ [mkInst SLLI (of_nat TrailingZeros)] else Res
     else Res)"

definition leadingZerosStep :: "u64 \<Rightarrow> features \<Rightarrow> Inst list \<Rightarrow> Inst list" where
  "leadingZerosStep Val F Res =
    (if 0 <s Val then
       let LeadingZeros = countl_zero Val;
           ShiftedVal = push_bit LeadingZeros Val OR maskTrailingOnes LeadingZeros;
           Res1 = keepShorter (generateInstSeqImpl ShiftedVal F []) [mkInst SRLI (of_nat LeadingZeros)] Res;
           ShiftedVal' = ShiftedVal AND maskTrailingZeros LeadingZeros;
           Res2 = keepShorter (generateInstSeqImpl ShiftedVal' F []) [mkInst SRLI (of_nat LeadingZeros)] Res1
       in if LeadingZeros = 32 \<and> StdExtZba F
          then keepShorter (generateInstSeqImpl (Val OR maskLeadingOnes LeadingZeros) F []) [mkInst ADD_UW 0] Res2
          else Res2
     else Res)"

definition packStep :: "u64 \<Rightarrow> features \<Rightarrow> Inst list \<Rightarrow> Inst list" where
  "packStep Val F Res =
    (if length Res > 2 \<and> StdExtZbkb F then
       let LoVal = SignExtend64 Val 32; HiVal = SignExtend64 (signed_drop_bit 32 Val) 32
       in if LoVal = HiVal then keepShorter (generateInstSeqImpl LoVal F []) [mkInst PACK 0] Res else Res
     else Res)"

text \<open>One instruction for each set bit of the upper half, from the lowest up.\<close>

function upperBits :: "opcode \<Rightarrow> u32 \<Rightarrow> Inst list \<Rightarrow> Inst list" where
  "upperBits Op Hi TmpSeq =
    (if Hi \<noteq> 0
     then upperBits Op (Hi AND (Hi - 1)) (TmpSeq @ [mkInst Op (of_nat (countr_zero Hi + 32))])
     else TmpSeq)"
  by pat_completeness auto
termination
proof (relation "measure (\<lambda>(Op, Hi, TmpSeq). unat Hi)", goal_cases)
  case (2 Op Hi TmpSeq)
  have "Hi AND (Hi - 1) \<le> Hi - 1" by (simp add: word_and_le1)
  also have "Hi - 1 < Hi" using 2 by (simp add: word_less_nat_alt unat_minus_one unat_gt_0)
  finally show ?case by (simp add: word_less_nat_alt)
qed simp

declare upperBits.simps [simp del]

definition bit31Step :: "u64 \<Rightarrow> features \<Rightarrow> Inst list \<Rightarrow> Inst list" where
  "bit31Step Val F Res =
    (let (Op, NewVal) = (if Val <s 0 then (BCLRI, Val OR 0x80000000) else (BSETI, Val AND NOT 0x80000000))
     in if isInt 32 NewVal
        then keepShorter (generateInstSeqImpl NewVal F []) [mkInst Op 31] Res else Res)"

definition upperBitsStep :: "u64 \<Rightarrow> features \<Rightarrow> Inst list \<Rightarrow> Inst list" where
  "upperBitsStep Val F Res =
    (let Lo = Lo_32 Val; Hi = Hi_32 Val;
         TmpSeq = generateInstSeqImpl (scast Lo) F []
     in if 0 <s Lo \<and> length TmpSeq + popcount Hi < length Res then
          let TmpSeq' = upperBits BSETI Hi TmpSeq in if length TmpSeq' < length Res then TmpSeq' else Res
        else if Lo <s 0 \<and> length TmpSeq + popcount (NOT Hi) < length Res then
          let TmpSeq' = upperBits BCLRI (NOT Hi) TmpSeq in if length TmpSeq' < length Res then TmpSeq' else Res
        else Res)"

definition singleBitStep :: "u64 \<Rightarrow> features \<Rightarrow> Inst list \<Rightarrow> Inst list" where
  "singleBitStep Val F Res =
    (if length Res > 2 \<and> StdExtZbs F then upperBitsStep Val F (bit31Step Val F Res) else Res)"

text \<open>Division of an \<open>int64_t\<close> by a small constant; the divisor and opcode the two tests select.\<close>

definition sdiv_word :: "u64 \<Rightarrow> int \<Rightarrow> u64" where
  "sdiv_word a d = word_of_int (signed_divide (sint a) d)"

definition smod_zero :: "u64 \<Rightarrow> int \<Rightarrow> bool" where
  "smod_zero a d \<longleftrightarrow> signed_modulo (sint a) d = 0"

definition shaddDiv :: "u64 \<Rightarrow> (int \<times> opcode) option" where
  "shaddDiv Val =
    (if smod_zero Val 3 \<and> isInt 32 (sdiv_word Val 3) then Some (3, SH1ADD)
     else if smod_zero Val 5 \<and> isInt 32 (sdiv_word Val 5) then Some (5, SH2ADD)
     else if smod_zero Val 9 \<and> isInt 32 (sdiv_word Val 9) then Some (9, SH3ADD)
     else None)"

definition shaddStep :: "u64 \<Rightarrow> features \<Rightarrow> Inst list \<Rightarrow> Inst list" where
  "shaddStep Val F Res =
    (if length Res > 2 \<and> StdExtZba F then
       (case shaddDiv Val of
          Some (Div, Op) \<Rightarrow> keepShorter (generateInstSeqImpl (sdiv_word Val Div) F []) [mkInst Op 0] Res
        | None \<Rightarrow>
            let Hi52 = (Val + 0x800) AND NOT 0xfff; Lo12 = SignExtend64 Val 12
            in (case shaddDiv Hi52 of
                  Some (Div, Op) \<Rightarrow>
                    keepShorter (generateInstSeqImpl (sdiv_word Hi52 Div) F []) [mkInst Op 0, mkInst ADDI Lo12] Res
                | None \<Rightarrow> Res))
     else Res)"

definition rotateStep :: "u64 \<Rightarrow> features \<Rightarrow> Inst list \<Rightarrow> Inst list" where
  "rotateStep Val F Res =
    (if length Res > 2 \<and> (StdExtZbb F \<or> VendorXTHeadBb F) then
       let Rotate = extractRotateInfo Val
       in if Rotate \<noteq> 0
          then [mkInst ADDI (rotl Val (of_nat Rotate)),
                mkInst (if StdExtZbb F then RORI else TH_SRRI) (of_nat Rotate)]
          else Res
     else Res)"

definition generateInstSeq :: "u64 \<Rightarrow> features \<Rightarrow> Inst list" where
  "generateInstSeq Val F =
    (let Res = trailingZerosStep Val F (generateInstSeqImpl Val F []) in
     if length Res \<le> 2 then Res
     else rotateStep Val F (shaddStep Val F (singleBitStep Val F (packStep Val F (leadingZerosStep Val F Res)))))"

section \<open>Cost\<close>

fun getInstSeqCost :: "Inst list \<Rightarrow> bool \<Rightarrow> int" where
  "getInstSeqCost Res HasRVC =
    (if \<not> HasRVC then int (length Res)
     else sum_list (map (\<lambda>Instr.
       let Compressed = (case Opc Instr of
           SLLI \<Rightarrow> True | SRLI \<Rightarrow> True
         | ADDI \<Rightarrow> isInt 6 (getImm Instr) | ADDIW \<Rightarrow> isInt 6 (getImm Instr) | LUI \<Rightarrow> isInt 6 (getImm Instr)
         | _ \<Rightarrow> False)
       in if \<not> Compressed then 100 else 70) Res))"

text \<open>
  The \<open>APInt\<close> argument is the signed integer it stands for. \<open>Chunk\<close> is sign-extended or
  truncated to the register size and read back as an \<open>int64_t\<close>.
\<close>

function getIntMatCost_loop :: "int \<Rightarrow> nat \<Rightarrow> nat \<Rightarrow> nat \<Rightarrow> features \<Rightarrow> bool \<Rightarrow> int \<Rightarrow> int" where
  "getIntMatCost_loop Val Size PlatRegSize ShiftVal F HasRVC Cost =
    (if ShiftVal < Size \<and> 0 < PlatRegSize then
       let Chunk = word_of_int (signed_take_bit (PlatRegSize - 1) (Val div 2 ^ ShiftVal));
           MatSeq = generateInstSeq Chunk F
       in getIntMatCost_loop Val Size PlatRegSize (ShiftVal + PlatRegSize) F HasRVC (Cost + getInstSeqCost MatSeq HasRVC)
     else Cost)"
  by pat_completeness auto
termination
  by (relation "measure (\<lambda>(Val, Size, PlatRegSize, ShiftVal, F, HasRVC, Cost). Size - ShiftVal)") auto

declare getIntMatCost_loop.simps [simp del]

definition getIntMatCost :: "int \<Rightarrow> nat \<Rightarrow> features \<Rightarrow> bool \<Rightarrow> int" where
  "getIntMatCost Val Size F CompressionCost =
    (let IsRV64 = Feature64Bit F;
         HasRVC = (CompressionCost \<and> (StdExtC F \<or> StdExtZca F));
         PlatRegSize = (if IsRV64 then 64 else 32)
     in max 1 (getIntMatCost_loop Val Size PlatRegSize 0 F HasRVC 0))"

section \<open>Emitting the sequence\<close>

text \<open>
  A built machine instruction: opcode, destination register and source operands. Register 0 is
  \<open>X0\<close>. \<open>None\<close> is the fatal error of \<open>movImm\<close>.
\<close>

datatype operand = RegOp nat | ImmOp u64

datatype minstr = BuildMI opcode nat "operand list"

fun movImm_loop :: "nat \<Rightarrow> nat \<Rightarrow> Inst list \<Rightarrow> minstr list" where
  "movImm_loop DstReg SrcReg [] = []"
| "movImm_loop DstReg SrcReg (i # Seq) =
    (case getOpndKind i of
       Imm \<Rightarrow> BuildMI (Opc i) DstReg [ImmOp (getImm i)]
     | RegX0 \<Rightarrow> BuildMI (Opc i) DstReg [RegOp SrcReg, RegOp 0]
     | RegReg \<Rightarrow> BuildMI (Opc i) DstReg [RegOp SrcReg, RegOp SrcReg]
     | RegImm \<Rightarrow> BuildMI (Opc i) DstReg [RegOp SrcReg, ImmOp (getImm i)])
    # movImm_loop DstReg DstReg Seq"

definition movImm :: "features \<Rightarrow> nat \<Rightarrow> u64 \<Rightarrow> minstr list option" where
  "movImm F DstReg Val =
    (if \<not> Feature64Bit F \<and> \<not> isInt 32 Val then None
     else Some (movImm_loop DstReg 0 (generateInstSeq Val F)))"

end
