(* ===== verification/MatIntSound.thy ===== *)
theory MatIntSound
  imports MatInt
begin

text \<open>
  The sequences chosen by \<open>MatInt\<close> compute the constant. The instruction semantics follows the
  RISC-V unprivileged specification and its bit-manipulation extensions, for registers of
  width \<open>LENGTH('a)\<close>, so that the same definitions serve RV32 and RV64. A constant of the code
  generator is materialised by a sequence when running it from \<open>X0\<close> yields the constant and
  every immediate fits its field.
\<close>

section \<open>Instruction semantics\<close>

fun alu :: "opcode \<Rightarrow> 'a::len word \<Rightarrow> 'a word \<Rightarrow> u32 \<Rightarrow> 'a word" where
  "alu LUI a b i = scast (push_bit 12 i)"
| "alu ADDI a b i = a + scast i"
| "alu ADDIW a b i = scast (ucast a + i)"
| "alu SLLI a b i = push_bit (unat i) a"
| "alu SRLI a b i = drop_bit (unat i) a"
| "alu SLLI_UW a b i = push_bit (unat i) (ucast (ucast a :: u32))"
| "alu ADD_UW a b i = ucast (ucast a :: u32) + b"
| "alu SH1ADD a b i = push_bit 1 a + b"
| "alu SH2ADD a b i = push_bit 2 a + b"
| "alu SH3ADD a b i = push_bit 3 a + b"
| "alu PACK a b i = take_bit (LENGTH('a) div 2) a OR push_bit (LENGTH('a) div 2) b"
| "alu BSETI a b i = a OR push_bit (unat i) 1"
| "alu BCLRI a b i = a AND NOT (push_bit (unat i) 1)"
| "alu RORI a b i = word_rotr (unat i) a"
| "alu TH_SRRI a b i = word_rotr (unat i) a"

text \<open>One instruction of a sequence: its register operands are the value built so far, or \<open>X0\<close>.\<close>

definition exec :: "Inst \<Rightarrow> 'a::len word \<Rightarrow> 'a word" where
  "exec i x = alu (Opc i) x (if getOpndKind i = RegReg then x else 0) (Imm32 i)"

definition run :: "Inst list \<Rightarrow> 'a::len word" where
  "run s = fold exec s 0"

text \<open>The immediate fields of the encodings.\<close>

definition encodable :: "nat \<Rightarrow> Inst \<Rightarrow> bool" where
  "encodable xlen i =
    (case Opc i of
       LUI \<Rightarrow> unat (Imm32 i) < 2 ^ 20
     | ADDI \<Rightarrow> - (2 ^ 11) \<le> sint (Imm32 i) \<and> sint (Imm32 i) < 2 ^ 11
     | ADDIW \<Rightarrow> - (2 ^ 11) \<le> sint (Imm32 i) \<and> sint (Imm32 i) < 2 ^ 11
     | SLLI \<Rightarrow> unat (Imm32 i) < xlen | SRLI \<Rightarrow> unat (Imm32 i) < xlen | SLLI_UW \<Rightarrow> unat (Imm32 i) < xlen
     | BSETI \<Rightarrow> unat (Imm32 i) < xlen | BCLRI \<Rightarrow> unat (Imm32 i) < xlen
     | RORI \<Rightarrow> unat (Imm32 i) < xlen | TH_SRRI \<Rightarrow> unat (Imm32 i) < xlen
     | _ \<Rightarrow> Imm32 i = 0)"

definition materialises :: "Inst list \<Rightarrow> u64 \<Rightarrow> bool" where
  "materialises s v \<longleftrightarrow> run s = v \<and> list_all (encodable 64) s \<and> s \<noteq> []"

definition readReg :: "(nat \<Rightarrow> 'a::len word) \<Rightarrow> nat \<Rightarrow> 'a word" where
  "readReg R r = (if r = 0 then 0 else R r)"

fun operandVal :: "(nat \<Rightarrow> 'a::len word) \<Rightarrow> operand \<Rightarrow> 'a word" where
  "operandVal R (RegOp r) = readReg R r"
| "operandVal R (ImmOp i) = 0"

fun operandImm :: "operand \<Rightarrow> u32" where
  "operandImm (RegOp r) = 0"
| "operandImm (ImmOp i) = ucast i"

fun exec_mi :: "minstr \<Rightarrow> (nat \<Rightarrow> 'a::len word) \<Rightarrow> nat \<Rightarrow> 'a word" where
  "exec_mi (BuildMI Op d [x]) R = R(d := alu Op 0 0 (operandImm x))"
| "exec_mi (BuildMI Op d [x, y]) R = R(d := alu Op (operandVal R x) (operandVal R y) (operandImm y))"
| "exec_mi (BuildMI Op d _) R = R"

section \<open>Running sequences\<close>

lemma run_Nil [simp]: "run [] = 0"
  by (simp add: run_def)

lemma run_snoc [simp]: "run (s @ [i]) = exec i (run s)"
  by (simp add: run_def)

lemma run_append: "run (s @ t) = fold exec t (run s)"
  by (simp add: run_def)

lemma Imm32_mkInst [simp]: "Imm32 (mkInst Op I) = scast I" "Opc (mkInst Op I) = Op"
  by (simp_all add: mkInst_def)

lemma scast_of_nat [simp]: "scast (of_nat n :: u64) = (of_nat n :: u32)"
  using scast_word_of_int_down [where 'a = 64 and 'b = 32, of "int n"] by simp

lemma unat_of_nat_small: "n < 2 ^ 32 \<Longrightarrow> unat (of_nat n :: u32) = n"
  by (simp add: unat_of_nat take_bit_nat_eq_self)

lemma exec_shift:
  assumes "n < 64"
  shows "exec (mkInst SLLI (of_nat n)) x = push_bit n x" "exec (mkInst SRLI (of_nat n)) x = drop_bit n x"
    "exec (mkInst SLLI_UW (of_nat n)) x = push_bit n (ucast (ucast x :: u32))"
    "exec (mkInst BSETI (of_nat n)) x = x OR push_bit n 1"
    "exec (mkInst BCLRI (of_nat n)) x = x AND NOT (push_bit n 1)"
    "exec (mkInst RORI (of_nat n)) x = word_rotr n x" "exec (mkInst TH_SRRI (of_nat n)) x = word_rotr n x"
  using assms unat_of_nat_small [of n] by (simp_all add: exec_def)

lemma encodable_shift:
  assumes "n < 64" "Op \<in> {SLLI, SRLI, SLLI_UW, BSETI, BCLRI, RORI, TH_SRRI}"
  shows "encodable 64 (mkInst Op (of_nat n))"
  using assms unat_of_nat_small [of n] by (auto simp: encodable_def)

lemma scast_scast_small:
  fixes v :: u64
  assumes "- (2 ^ 31) \<le> sint v" "sint v < 2 ^ 31"
  shows "scast (scast v :: u32) = v" "sint (scast v :: u32) = sint v"
proof -
  show "scast (scast v :: u32) = v"
    using assms by (simp add: scast_scast_eq_iff)
  show "sint (scast v :: u32) = sint v"
    using assms by (simp only: signed_scast_eq [where ?'a = int]) (simp add: signed_take_bit_int_eq_self)
qed

lemma exec_Lo12:
  "exec (mkInst ADDI (SignExtend64 v 12)) x = x + SignExtend64 v 12"
  "encodable 64 (mkInst ADDI (SignExtend64 v 12))"
proof -
  have "- (2 ^ 31) \<le> sint (SignExtend64 v 12)" "sint (SignExtend64 v 12) < 2 ^ 31"
    using sint_Lo12 [of v] by simp_all
  note s = scast_scast_small [OF this]
  show "exec (mkInst ADDI (SignExtend64 v 12)) x = x + SignExtend64 v 12"
    "encodable 64 (mkInst ADDI (SignExtend64 v 12))"
    using sint_Lo12 [of v] by (simp_all add: exec_def encodable_def s)
qed

section \<open>The recursive generator\<close>

lemma and_0xFFFFF: "w AND 0xFFFFF = take_bit 20 (w :: u64)"
  by (simp add: take_bit_eq_mask mask_eq_exp_minus_1)

lemma ucast_scast_up [simp]: "ucast (scast (x :: u32) :: u64) = x"
  by (intro bit_word_eqI) (auto simp: bit_simps)

lemma Hi20_bits:
  "push_bit 12 (scast (signed_drop_bit 12 (word_of_int K :: u64) AND 0xFFFFF) :: u32) = push_bit 12 (drop_bit 12 (word_of_int K))"
  unfolding and_0xFFFFF by (intro bit_word_eqI) (auto simp: bit_simps min_def)

lemma take_bit_word_of_int_12: "take_bit 12 (word_of_int K :: u32) = word_of_int (take_bit 12 K)"
  by (intro bit_word_eqI) (auto simp: bit_simps)

lemma Hi20_Lo12:
  fixes v :: u64
  shows "push_bit 12 (scast (signed_drop_bit 12 (v + 0x800) AND 0xFFFFF) :: u32) + scast (SignExtend64 v 12) = scast v"
proof -
  define Y where "Y = (word_of_int (uint v + 2048) :: u32)"
  have v: "v + 0x800 = word_of_int (uint v + 2048)" by simp
  have A: "push_bit 12 (scast (signed_drop_bit 12 (v + 0x800) AND 0xFFFFF) :: u32) = push_bit 12 (drop_bit 12 Y)"
    unfolding v Y_def by (rule Hi20_bits)
  have B: "scast (SignExtend64 v 12) = take_bit 12 Y - 2048"
  proof -
    have "sint (SignExtend64 v 12) = take_bit 12 (uint v + 2048) - 2048"
      using sint_SignExtend64 [of 12 v] by (simp add: signed_take_bit_eq_take_bit_shift)
    then have "SignExtend64 v 12 = word_of_int (take_bit 12 (uint v + 2048) - 2048)"
      by (metis word_of_int_sint)
    then have "scast (SignExtend64 v 12) = (word_of_int (take_bit 12 (uint v + 2048) - 2048) :: u32)"
      by (simp only:) (rule scast_word_of_int_down, simp)
    moreover have "take_bit 12 Y = word_of_int (take_bit 12 (uint v + 2048))"
      unfolding Y_def by (rule take_bit_word_of_int_12)
    ultimately show ?thesis by simp
  qed
  have C: "push_bit 12 (drop_bit 12 Y) + take_bit 12 Y = Y"
    by (rule bits_ident)
  have D: "Y = scast v + 2048"
  proof -
    have "scast v = (word_of_int (uint v) :: u32)"
      using scast_word_of_int_down [where 'a = 64 and 'b = 32, of "uint v"] by simp
    then show ?thesis by (simp add: Y_def)
  qed
  have "push_bit 12 (drop_bit 12 Y) + (take_bit 12 Y - 2048) = Y - 2048"
    by (simp only: C add_diff_eq)
  then show ?thesis unfolding A B by (simp only: D add_diff_cancel)
qed

lemma encodable_Hi20: "encodable n (mkInst LUI (w AND 0xFFFFF))"
proof -
  have "unat (scast (take_bit 20 w) :: u32) < 2 ^ 20"
  proof -
    have "scast (take_bit 20 w) = (take_bit 20 (scast w) :: u32)"
      by (intro bit_word_eqI) (auto simp: bit_simps min_def)
    then show ?thesis by (simp only: unsigned_take_bit_eq take_bit_nat_less_exp)
  qed
  then show ?thesis by (simp add: encodable_def and_0xFFFFF)
qed

lemma int32_sequence:
  assumes "isInt 32 v" "Feature64Bit F" "\<not> (StdExtZbs F \<and> isPowerOf2_64 v \<and> (\<not> isInt 32 v \<or> v = 0x800))"
  shows "materialises (generateInstSeqImpl v F []) v" "length (generateInstSeqImpl v F []) \<le> 2"
proof -
  define H where "H = signed_drop_bit 12 (v + 0x800) AND 0xFFFFF"
  define L where "L = SignExtend64 v 12"
  have seq: "generateInstSeqImpl v F [] =
    (if H \<noteq> 0 then [mkInst LUI H] else []) @ (if L \<noteq> 0 \<or> H = 0 then [mkInst (if H \<noteq> 0 then ADDIW else ADDI) L] else [])"
    using assms by (subst generateInstSeqImpl.simps) (auto simp add: Let_def H_def L_def)
  have HL: "push_bit 12 (scast H :: u32) + scast L = scast v"
    unfolding H_def L_def by (rule Hi20_Lo12)
  have range: "- (2 ^ 31) \<le> sint v" "sint v < 2 ^ 31"
    using assms(1) isInt_iff_aux [of 32 v] by simp_all
  note v = scast_scast_small(1) [OF range]
  have L12: "- 2048 \<le> sint L" "sint L < 2048"
    unfolding L_def by (rule sint_Lo12)+
  then have "- (2 ^ 31) \<le> sint L" "sint L < 2 ^ 31" by simp_all
  note L = scast_scast_small [OF this]
  have enc: "encodable 64 (mkInst (if H \<noteq> 0 then ADDIW else ADDI) L)" "encodable 64 (mkInst LUI H)"
    using L12 encodable_Hi20 [of 64 "signed_drop_bit 12 (v + 0x800)"]
    by (simp_all add: encodable_def L H_def [symmetric])
  have LUI: "exec (mkInst LUI H) (0 :: u64) = scast (push_bit 12 (scast H :: u32))"
    by (simp add: exec_def)
  have "run (generateInstSeqImpl v F []) = v"
  proof (cases "H = 0")
    case True
    then have "scast L = (scast v :: u32)" using HL by simp
    then have "L = v" using v L(1) by metis
    then show ?thesis using True unfolding seq by (simp add: run_def exec_def v)
  next
    case False
    then show ?thesis
      using HL v unfolding seq by (auto simp: run_def exec_def)
  qed
  moreover have "list_all (encodable 64) (generateInstSeqImpl v F [])"
    unfolding seq using enc by simp
  ultimately show "materialises (generateInstSeqImpl v F []) v"
    unfolding materialises_def seq by auto
  show "length (generateInstSeqImpl v F []) \<le> 2"
    unfolding seq by auto
qed

lemma generateInstSeqImpl_append: "generateInstSeqImpl v F Res = Res @ generateInstSeqImpl v F []"
proof (induction v F Res rule: generateInstSeqImpl.induct)
  case (1 v F Res)
  obtain w s u where r: "reduceShift F (v - SignExtend64 v 12) = (w, s, u)"
    using prod_cases3 by blast
  note IH = 1 [OF _ _ refl r [symmetric] refl]
  show ?case
  proof (cases "(StdExtZbs F \<and> isPowerOf2_64 v \<and> (\<not> isInt 32 v \<or> v = 0x800)) \<or> isInt 32 v")
    case True
    then show ?thesis
      unfolding generateInstSeqImpl.simps [of v F Res] generateInstSeqImpl.simps [of v F "[]"]
      by (auto simp: Let_def)
  next
    case False
    then have "generateInstSeqImpl w F Res = Res @ generateInstSeqImpl w F []"
      using IH by blast
    then show ?thesis
      using False unfolding generateInstSeqImpl.simps [of v F Res] generateInstSeqImpl.simps [of v F "[]"]
      by (simp only: Let_def r split_conv de_Morgan_disj if_False) (simp split: if_split)
  qed
qed
lemma bit_top:
  fixes w :: u64
  assumes "2 ^ k \<le> uint w" "uint w < 2 ^ Suc k"
  shows "bit w k"
proof -
  have "\<not> uint w < 2 ^ k" using assms(1) by simp
  then obtain n where "k \<le> n" "bit w n" by (auto simp only: uint_less_2p_iff_bits)
  moreover have "\<And>n. Suc k \<le> n \<Longrightarrow> \<not> bit w n"
    using assms(2) by (simp only: uint_less_2p_iff_bits simp_thms)
  ultimately show ?thesis by (metis le_antisym not_less_eq_eq)
qed

lemma single_bit_Log2:
  assumes "isPowerOf2_64 v"
  shows "push_bit (bit_width v - 1) 1 = v" "ucast (Log2_64 v) = (of_nat (bit_width v - 1) :: u64)"
    "bit_width v - 1 < 64"
proof -
  have nz: "v \<noteq> 0" and s: "v AND (v - 1) = 0"
    using assms by (simp_all add: isPowerOf2_64_def has_single_bit_def)
  note bw = bit_width_bounds [OF nz] bit_width_le [of v]
  obtain k where k: "bit_width v = Suc k" using bw(1) by (cases "bit_width v") simp_all
  have lo: "2 ^ k \<le> uint v" and hi: "uint v < 2 ^ Suc k"
    using bw(2,3) by (simp_all add: k)
  have "uint v = 2 ^ k"
  proof (rule ccontr)
    assume "uint v \<noteq> 2 ^ k"
    then have "2 ^ k \<le> uint (v - 1)" "uint (v - 1) < 2 ^ Suc k"
      using lo hi uint_minus_1 [OF nz] by simp_all
    then have "bit (v AND (v - 1)) k"
      using bit_top [OF lo hi] bit_top [of k "v - 1"] by (simp add: bit_and_iff)
    then show False using s by simp
  qed
  moreover have "k < 64" using bw(4) k by simp
  ultimately have "uint (push_bit k 1 :: u64) = uint v"
    using uint_push_bit_1 [of k, where 'a = 64] by simp
  then show "push_bit (bit_width v - 1) 1 = v" "bit_width v - 1 < 64"
    using \<open>k < 64\<close> by (simp_all only: k diff_Suc_1 word_uint_eq_iff)
  have "countl_zero v \<le> 63" "bit_width v - 1 = 63 - countl_zero v"
    using bw(1) by (simp_all add: bit_width_def)
  then show "ucast (Log2_64 v) = (of_nat (bit_width v - 1) :: u64)"
  proof -
    have "Log2_64 v = of_nat (bit_width v - 1)"
      unfolding Log2_64_def by (simp add: \<open>bit_width v - 1 = 63 - countl_zero v\<close> of_nat_diff \<open>countl_zero v \<le> 63\<close>
          del: One_nat_def)
    moreover have "ucast (of_nat n :: u32) = (of_nat n :: u64)" if "n < 64" for n
      using that by (simp add: unsigned_of_nat take_bit_nat_eq_self)
    ultimately show ?thesis using \<open>k < 64\<close> by (simp add: k)
  qed
qed

lemma bseti_sequence:
  assumes "StdExtZbs F" "isPowerOf2_64 v" "\<not> isInt 32 v \<or> v = 0x800"
  shows "materialises (generateInstSeqImpl v F []) v" "length (generateInstSeqImpl v F []) = 1"
proof -
  have s: "generateInstSeqImpl v F [] = [mkInst BSETI (of_nat (bit_width v - 1))]"
    using assms by (subst generateInstSeqImpl.simps) (simp add: single_bit_Log2(2))
  note b = single_bit_Log2 [OF assms(2)]
  have r: "exec (mkInst BSETI (of_nat (bit_width v - 1))) 0 = v"
    unfolding exec_shift(4) [OF b(3)] b(1) by simp
  show "materialises (generateInstSeqImpl v F []) v"
    unfolding s materialises_def using encodable_shift [OF b(3), of BSETI] r by (simp add: run_def)
  show "length (generateInstSeqImpl v F []) = 1" by (simp add: s)
qed

lemma countr_zero_less: "v \<noteq> 0 \<Longrightarrow> countr_zero v < LENGTH('a)" for v :: "'a::len word"
  using bit_countr_zero [of v] bit_imp_le_length by blast

lemma materialises_snoc:
  assumes "materialises s v" "encodable 64 i" "exec i v = w"
  shows "materialises (s @ [i]) w"
  using assms by (simp add: materialises_def)

lemma generateInstSeqImpl_sound:
  assumes "Feature64Bit F"
  shows "materialises (generateInstSeqImpl v F []) v"
  using assms
proof (induction v F "[] :: Inst list" rule: generateInstSeqImpl.induct)
  case (1 v F)
  consider (bset) "StdExtZbs F \<and> isPowerOf2_64 v \<and> (\<not> isInt 32 v \<or> v = 0x800)"
    | (int) "isInt 32 v" "\<not> (StdExtZbs F \<and> isPowerOf2_64 v \<and> (\<not> isInt 32 v \<or> v = 0x800))"
    | (rec) "\<not> isInt 32 v" "\<not> (StdExtZbs F \<and> isPowerOf2_64 v \<and> (\<not> isInt 32 v \<or> v = 0x800))"
    by blast
  then show ?case
  proof cases
    case bset
    then show ?thesis using bseti_sequence by blast
  next
    case int
    then show ?thesis using int32_sequence 1(2) by blast
  next
    case rec
    let ?v = "v - SignExtend64 v 12"
    obtain w s u where r: "reduceShift F ?v = (w, s, u)"
      using prod_cases3 by blast
    have IH: "materialises (generateInstSeqImpl w F []) w"
      by (rule 1(1) [OF rec(2,1) refl _ refl refl 1(2)]) (simp only: r)
    have c: "countr_zero ?v < 64" "12 \<le> countr_zero ?v" if "\<not> isInt 32 ?v"
    proof -
      have "?v \<noteq> 0" using that by (auto simp: isInt_def)
      then show "countr_zero ?v < 64" "12 \<le> countr_zero ?v"
        using countr_zero_less [of ?v] bit_countr_zero [of ?v] low12_clear [of "countr_zero ?v" v]
        by (simp, meson not_le)
    qed
    have "s < 64 \<and> (if s = 0 then w else push_bit s (if u then ucast (ucast w :: u32) else w)) = ?v"
      using r
    proof (cases rule: reduceShift_cases)
      case shift
      then show ?thesis
        using push_bit_countr_zero [of ?v] c by auto
    next
      case lui
      then have "push_bit s w = push_bit (countr_zero ?v) (signed_drop_bit (countr_zero ?v) ?v)"
        by (simp only: push_bit_push_bit) simp
      then show ?thesis
        using push_bit_countr_zero [of ?v] c [OF lui(1)] lui(2,3,4) by simp
    next
      case (uw x)
      have "push_bit s x = push_bit (countr_zero ?v) (signed_drop_bit (countr_zero ?v) ?v)" "0 < s" "s < 64"
        using uw(6) c [OF uw(1)] by (auto simp only: push_bit_push_bit) simp_all
      then show ?thesis
        using push_bit_countr_zero [of ?v] uw(2) or_upper_ones(1) [OF uw(3)] unfolding uw(5) by simp
    qed simp
    then have v: "materialises (if s \<noteq> 0 then generateInstSeqImpl w F [] @ [mkInst (if u then SLLI_UW else SLLI) (of_nat s)]
        else generateInstSeqImpl w F []) ?v" 
      using IH by (auto intro!: materialises_snoc encodable_shift simp: exec_shift)
    define S where "S = (if s \<noteq> 0 then generateInstSeqImpl w F [] @ [mkInst (if u then SLLI_UW else SLLI) (of_nat s)]
        else generateInstSeqImpl w F [])"
    have "generateInstSeqImpl v F [] = (if SignExtend64 v 12 \<noteq> 0 then S @ [mkInst ADDI (SignExtend64 v 12)] else S)"
      using rec unfolding generateInstSeqImpl.simps [of v F "[]"]
      by (simp only: Let_def r split_conv if_False S_def)
    moreover have "materialises (S @ [mkInst ADDI (SignExtend64 v 12)]) v"
      using v exec_Lo12(2) unfolding S_def [symmetric] by (rule materialises_snoc) (simp add: exec_Lo12)
    ultimately show ?thesis
      using v unfolding S_def [symmetric] by (cases "SignExtend64 v 12 = 0") simp_all
  qed
qed
section \<open>What each optimisation undoes\<close>

lemma bit_countl_zero: "bit (v :: u64) n \<Longrightarrow> n + countl_zero v < 64"
proof (rule ccontr)
  assume b: "bit v n" and n: "\<not> n + countl_zero v < 64"
  then have "v \<noteq> 0" by auto
  then have "uint v < 2 ^ (64 - countl_zero v)"
    using bit_width_bounds(3) [of v] by (simp add: bit_width_def)
  moreover have "64 - countl_zero v \<le> n" using n by simp
  ultimately show False using b by (simp only: uint_less_2p_iff_bits)
qed

lemma countl_zero_less_64: "0 <s v \<Longrightarrow> countl_zero v < 64" for v :: u64
  using bit_width_bounds(1) [of v] by (cases "v = 0") (simp_all add: bit_width_def)

lemma srl_restores:
  fixes v :: u64
  defines "z \<equiv> countl_zero v"
  shows "drop_bit z (push_bit z v OR maskTrailingOnes z) = v"
    "drop_bit z ((push_bit z v OR maskTrailingOnes z) AND maskTrailingZeros z) = v"
proof -
  have z: "z \<le> LENGTH(64)" using countl_zero_le [of v] by (simp add: z_def)
  show "drop_bit z (push_bit z v OR maskTrailingOnes z) = v"
    "drop_bit z ((push_bit z v OR maskTrailingOnes z) AND maskTrailingZeros z) = v"
    using bit_countl_zero [of v] z unfolding z_def [symmetric]
    by (auto intro!: bit_word_eqI simp: bit_simps add.commute [of _ z])
qed

lemma zextw_restores:
  fixes v :: u64
  assumes "countl_zero v = 32"
  shows "ucast (ucast (v OR maskLeadingOnes 32) :: u32) = v"
  using bit_countl_zero [of v] assms by (auto intro!: bit_word_eqI simp: bit_simps)

lemma pack_restores:
  fixes v :: u64
  assumes "SignExtend64 v 32 = SignExtend64 (signed_drop_bit 32 v) 32"
  shows "take_bit 32 (SignExtend64 v 32) OR push_bit 32 (SignExtend64 v 32) = v"
proof (rule bit_word_eqI)
  fix n assume n: "n < LENGTH(64)"
  show "bit (take_bit 32 (SignExtend64 v 32) OR push_bit 32 (SignExtend64 v 32)) n = bit v n"
  proof (cases "n < 32")
    case True
    then show ?thesis using n by (simp add: bit_simps bit_SignExtend64)
  next
    case False
    define k where "k = n - 32"
    then have k: "n = 32 + k" "k < 32" using n False by simp_all
    have "bit (SignExtend64 v 32) k = bit (SignExtend64 (signed_drop_bit 32 v) 32) k"
      by (simp only: assms)
    then have "bit v k = bit v (32 + k)"
      using k(2) by (simp add: bit_SignExtend64 bit_simps)
    then show ?thesis using k by (simp add: bit_simps bit_SignExtend64)
  qed
qed

lemma bit_0x80000000: "bit (0x80000000 :: u64) n \<longleftrightarrow> n = 31" "bit (push_bit 31 1 :: u64) n \<longleftrightarrow> n = 31"
proof -
  show "bit (push_bit 31 1 :: u64) n \<longleftrightarrow> n = 31"
    by (auto simp: bit_push_bit_iff bit_1_iff simp del: push_bit_of_1)
  then show "bit (0x80000000 :: u64) n \<longleftrightarrow> n = 31" by simp
qed

lemma bit31_restores:
  fixes v :: u64
  shows "v OR 0x80000000 \<noteq> v \<Longrightarrow> (v OR 0x80000000) AND NOT (push_bit 31 1) = v"
    "v AND NOT 0x80000000 \<noteq> v \<Longrightarrow> (v AND NOT 0x80000000) OR push_bit 31 1 = v"
proof -
  have "v OR 0x80000000 = v" if "bit v 31"
    by (rule bit_word_eqI) (use that in \<open>auto simp only: bit_or_iff bit_0x80000000\<close>)
  moreover have "(v OR 0x80000000) AND NOT (push_bit 31 1) = v" if "\<not> bit v 31"
    by (rule bit_word_eqI) (use that in \<open>auto simp only: bit_or_iff bit_and_iff bit_not_iff bit_0x80000000 possible_bit_word\<close>)
  ultimately show "v OR 0x80000000 \<noteq> v \<Longrightarrow> (v OR 0x80000000) AND NOT (push_bit 31 1) = v" by blast
  have "v AND NOT 0x80000000 = v" if "\<not> bit v 31"
    by (rule bit_word_eqI) (use that in \<open>auto simp only: bit_and_iff bit_not_iff bit_0x80000000 possible_bit_word\<close>)
  moreover have "(v AND NOT 0x80000000) OR push_bit 31 1 = v" if "bit v 31"
    by (rule bit_word_eqI) (use that in \<open>auto simp only: bit_or_iff bit_and_iff bit_not_iff bit_0x80000000 possible_bit_word\<close>)
  ultimately show "v AND NOT 0x80000000 \<noteq> v \<Longrightarrow> (v AND NOT 0x80000000) OR push_bit 31 1 = v" by blast
qed
lemma bit_minus_1_countr_zero:
  fixes v :: "'a::len word"
  assumes "v \<noteq> 0"
  shows "bit (v AND (v - 1)) n \<longleftrightarrow> bit v n \<and> n \<noteq> countr_zero v"
proof -
  define c where "c = countr_zero v"
  define A where "A = push_bit (Suc c) (drop_bit (Suc c) v)"
  have c: "c < LENGTH('a)" "bit v c" "\<And>i. i < c \<Longrightarrow> \<not> bit v i"
    using countr_zero_less [OF assms] bit_countr_zero [OF assms] not_bit_lt_countr_zero [of _ v]
    by (simp_all add: c_def)
  have A: "bit A i \<longleftrightarrow> bit v i \<and> c < i" for i
    unfolding A_def using bit_imp_le_length [of v i]
    by (auto simp only: bit_push_bit_iff bit_drop_bit_eq comp_def possible_bit_word Suc_le_eq le_add_diff_inverse less_imp_le)
  have P: "bit (push_bit c (1 :: 'a word)) i \<longleftrightarrow> i = c" for i
    using c(1) by (auto simp: bit_push_bit_iff bit_1_iff simp del: push_bit_of_1)
  have "A AND push_bit c 1 = 0"
    by (rule bit_word_eqI) (simp only: bit_and_iff A P bit_0_eq bot_apply bot_bool_def, blast)
  moreover have "v = A OR push_bit c 1"
    by (rule bit_word_eqI) (simp only: bit_or_iff A P, metis c(2,3) linorder_neqE_nat)
  ultimately have "v = A + push_bit c 1"
    by (simp only: disjunctive_add_eq_or)
  then have "v - 1 = A + mask c"
    by (simp add: mask_eq_exp_minus_1)
  moreover have "A AND mask c = 0"
    by (rule bit_word_eqI) (simp only: bit_and_iff A bit_mask_iff bit_0_eq bot_apply bot_bool_def, auto)
  ultimately have "v - 1 = A OR mask c"
    by (simp only: disjunctive_add_eq_or)
  then show ?thesis
    unfolding c_def [symmetric] using c(1)
    by (auto simp only: bit_and_iff bit_or_iff A bit_mask_iff possible_bit_word c(2,3))
qed

lemma clear_lowest:
  fixes v :: u32
  assumes "v \<noteq> 0"
  defines "c \<equiv> countr_zero v"
  shows "push_bit 32 (ucast v :: u64) = push_bit (c + 32) 1 OR push_bit 32 (ucast (v AND (v - 1)))" "c + 32 < 64"
proof -
  have c: "c < 32" "bit v c"
    using countr_zero_less [OF assms(1)] bit_countr_zero [OF assms(1)] by (simp_all add: c_def)
  then show "c + 32 < 64" by simp
  define Q where "Q = push_bit (c + 32) (1 :: u64)"
  have P: "bit Q i \<longleftrightarrow> i = c + 32" for i
    unfolding Q_def using c(1) by (auto simp: bit_push_bit_iff bit_1_iff simp del: push_bit_of_1)
  show "push_bit 32 (ucast v :: u64) = push_bit (c + 32) 1 OR push_bit 32 (ucast (v AND (v - 1)))"
  proof (rule bit_word_eqI)
    fix n assume "n < LENGTH(64)"
    then show "bit (push_bit 32 (ucast v :: u64)) n \<longleftrightarrow>
        bit (push_bit (c + 32) (1 :: u64) OR push_bit 32 (ucast (v AND (v - 1)))) n"
      unfolding Q_def [symmetric] bit_or_iff P bit_push_bit_iff bit_unsigned_iff bit_minus_1_countr_zero [OF assms(1)] c_def [symmetric]
      using c by auto
  qed
qed

lemma upperBits_BSETI:
  "materialises T x \<Longrightarrow> materialises (upperBits BSETI Hi T) (x OR push_bit 32 (ucast Hi))"
proof (induction "BSETI" Hi T arbitrary: x rule: upperBits.induct)
  case (1 Hi T)
  show ?case
  proof (cases "Hi = 0")
    case True
    then show ?thesis using 1(2) by (simp add: upperBits.simps)
  next
    case False
    note cl = clear_lowest [OF False]
    have "materialises (T @ [mkInst BSETI (of_nat (countr_zero Hi + 32))]) (x OR push_bit (countr_zero Hi + 32) 1)"
      using 1(2) encodable_shift [OF cl(2), of BSETI] exec_shift(4) [OF cl(2)] by (intro materialises_snoc) simp_all
    from 1(1) [OF False this] show ?thesis
      using False unfolding cl(1) or.assoc upperBits.simps [of BSETI Hi T] by (simp only: if_True not_False_eq_True)
  qed
qed

lemma upperBits_BCLRI:
  "materialises T x \<Longrightarrow> materialises (upperBits BCLRI Hi T) (x AND NOT (push_bit 32 (ucast Hi)))"
proof (induction "BCLRI" Hi T arbitrary: x rule: upperBits.induct)
  case (1 Hi T)
  show ?case
  proof (cases "Hi = 0")
    case True
    then show ?thesis using 1(2) by (simp add: upperBits.simps)
  next
    case False
    note cl = clear_lowest [OF False]
    have "materialises (T @ [mkInst BCLRI (of_nat (countr_zero Hi + 32))]) (x AND NOT (push_bit (countr_zero Hi + 32) 1))"
      using 1(2) encodable_shift [OF cl(2), of BCLRI] exec_shift(5) [OF cl(2)] by (intro materialises_snoc) simp_all
    from 1(1) [OF False this] show ?thesis
      using False unfolding cl(1) bit.de_Morgan_disj and.assoc upperBits.simps [of BCLRI Hi T] by (simp only: if_True not_False_eq_True)
  qed
qed

lemma halves_restore:
  fixes v :: u64
  shows "0 <s Lo_32 v \<Longrightarrow> scast (Lo_32 v) OR push_bit 32 (ucast (Hi_32 v)) = v"
    "Lo_32 v <s 0 \<Longrightarrow> scast (Lo_32 v) AND NOT (push_bit 32 (ucast (NOT (Hi_32 v)))) = v"
proof -
  have neg: "Lo_32 v <s 0 \<longleftrightarrow> bit v 31"
    by (simp add: word_sless_alt Lo_32_def bit_simps flip: bit_last_iff)
  have s: "bit (scast (Lo_32 v) :: u64) n \<longleftrightarrow> bit v (if n < 32 then n else 31)" if "n < 64" for n
    using that by (cases "n < 32"; cases "n = 31") (auto simp: Lo_32_def bit_simps min_def)
  show "scast (Lo_32 v) OR push_bit 32 (ucast (Hi_32 v)) = v" if "0 <s Lo_32 v"
  proof -
    have "\<not> bit v 31" using that neg by (auto simp: word_sless_alt)
    then show ?thesis
      by (intro bit_word_eqI) (auto simp: s bit_or_iff bit_push_bit_iff bit_unsigned_iff Hi_32_def bit_drop_bit_eq)
  qed
  show "scast (Lo_32 v) AND NOT (push_bit 32 (ucast (NOT (Hi_32 v)))) = v" if "Lo_32 v <s 0"
    using that neg
    by (intro bit_word_eqI) (auto simp: s bit_and_iff bit_not_iff bit_push_bit_iff bit_unsigned_iff Hi_32_def bit_drop_bit_eq)
qed

lemma sdiv_restores: "smod_zero a d \<Longrightarrow> word_of_int d * sdiv_word a d = a"
proof -
  assume "smod_zero a d"
  then have "d * signed_divide (sint a) d = sint a"
    using mult_sdiv_smod_eq [of d "sint a"] by (simp add: smod_zero_def)
  then show ?thesis
    unfolding sdiv_word_def by (metis of_int_mult word_of_int_sint)
qed

lemma shaddDiv_sound:
  assumes "shaddDiv v = Some (d, Op)"
  shows "exec (mkInst Op 0) (sdiv_word v d) = v" "encodable 64 (mkInst Op 0)"
proof -
  have "exec (mkInst SH1ADD 0) x = 3 * x" "exec (mkInst SH2ADD 0) x = 5 * x" "exec (mkInst SH3ADD 0) x = 9 * x" for x :: u64
    by (simp_all add: exec_def getOpndKind_def push_bit_eq_mult)
  then show "exec (mkInst Op 0) (sdiv_word v d) = v" "encodable 64 (mkInst Op 0)"
    using assms sdiv_restores [of v d] by (auto simp: shaddDiv_def encodable_def split: if_splits)
qed

lemma bits_rotl_64:
  assumes "R < 64" "n < 64"
  shows "bit (rotl v (of_nat R)) n \<longleftrightarrow> (if n < R then bit v (64 - R + n) else bit (v :: u64) (n - R))"
  using bit_rotl [of R "of_nat R" n v] assms unat_of_nat_small [of R] by simp

lemma ones_from_11:
  fixes w :: u64
  assumes "\<And>n. 11 \<le> n \<Longrightarrow> n < 64 \<Longrightarrow> bit w n"
  shows "- 2048 \<le> sint w" "sint w < 0"
proof -
  have r: "0 \<le> x \<Longrightarrow> x < 2 ^ 11 \<Longrightarrow> - (2 ^ 63) \<le> - 1 - x \<and> - 1 - x < 2 ^ 63" for x :: int
    by simp
  have "uint (NOT w) < 2 ^ 11"
    unfolding uint_less_2p_iff_bits using assms by (auto simp: bit_not_iff)
  moreover have "- (2 ^ 63) \<le> - 1 - uint (NOT w)" "- 1 - uint (NOT w) < 2 ^ 63"
    using r [OF uint_nonneg \<open>uint (NOT w) < 2 ^ 11\<close>] by simp_all
  moreover have "w = word_of_int (- 1 - uint (NOT w))"
    by (simp add: not_eq_complement)
  ultimately have "sint w = - 1 - uint (NOT w)"
    by (metis sint_word_of_int_64)
  then show "- 2048 \<le> sint w" "sint w < 0"
    using \<open>uint (NOT w) < 2 ^ 11\<close> uint_nonneg [of "NOT w"] by (simp, linarith)
qed

lemma countr_one_le: "countr_one (v :: 'a::len word) \<le> LENGTH('a)" "countl_one v \<le> LENGTH('a)"
  by (simp_all add: countr_one_def countl_one_def countr_zero_le countl_zero_le)

lemma extractRotateInfo_sound:
  assumes "extractRotateInfo v \<noteq> 0"
  defines "w \<equiv> rotl v (of_nat (extractRotateInfo v))"
  shows "extractRotateInfo v < 64" "- 2048 \<le> sint w" "sint w < 0"
proof -
  define R where "R = extractRotateInfo v"
  consider (outer) "0 < countr_one v" "countr_one v < 64" "52 < countl_one v + countr_one v" "R = 64 - countr_one v"
    | (inner) "countr_one (Hi_32 v) < 32" "52 < countr_one (Hi_32 v) + countl_one (Lo_32 v)" "R = 32 - countr_one (Hi_32 v)"
    using assms(1) unfolding R_def extractRotateInfo_def Let_def by (simp split: if_splits)
  then have "R < 64 \<and> (\<forall>n. 11 \<le> n \<longrightarrow> n < 64 \<longrightarrow> bit w n)"
  proof cases
    case outer
    have "bit w n" if "11 \<le> n" "n < 64" for n
      using that outer countl_one_bits [of v "64 - R + n"] countr_one_bits [of "n - R" v] bits_rotl_64 [of R n v]
      by (auto simp: w_def R_def [symmetric])
    then show ?thesis using outer by auto
  next
    case inner
    have hi: "bit (Hi_32 v) k = bit v (32 + k)" "bit (Lo_32 v) k = bit v k" if "k < 32" for k
      using that by (simp_all add: Hi_32_def Lo_32_def bit_simps)
    have "bit w n" if n: "11 \<le> n" "n < 64" for n
    proof -
      have "R \<le> n" using inner n countr_one_le(2) [of "Lo_32 v"] by simp
      have "bit v (n - R)"
      proof (cases "n - R < 32")
        case True
        then have "bit (Lo_32 v) (n - R)"
          using inner n countl_one_bits [of "Lo_32 v" "n - R"] by simp
        then show ?thesis using hi True by simp
      next
        case False
        then have "bit (Hi_32 v) (n - R - 32)"
          using inner n countr_one_bits [of "n - R - 32" "Hi_32 v"] by simp
        then show ?thesis using hi [of "n - R - 32"] False n by simp
      qed
      then show ?thesis
        using bits_rotl_64 [of R n v] \<open>R \<le> n\<close> inner n by (simp add: w_def R_def [symmetric])
    qed
    then show ?thesis using inner by auto
  qed
  then show "extractRotateInfo v < 64" "- 2048 \<le> sint w" "sint w < 0"
    using ones_from_11 [of w] by (simp_all add: R_def)
qed

lemma rotr_restores:
  assumes "R < 64"
  shows "word_rotr R (rotl v (of_nat R)) = (v :: u64)"
proof (rule bit_word_eqI)
  fix n assume n: "n < LENGTH(64)"
  have "(n + R) mod 64 = (if n + R < 64 then n + R else n + R - 64)"
    using n assms by (simp add: mod_if)
  then show "bit (word_rotr R (rotl v (of_nat R))) n = bit v n"
    using n assms by (auto simp: bit_word_rotr_iff bits_rotl_64)
qed
lemma exec_bit31:
  "exec (mkInst BCLRI 31) x = x AND NOT (push_bit 31 1 :: u64)" "exec (mkInst BSETI 31) x = x OR (push_bit 31 1 :: u64)"
  "encodable 64 (mkInst BCLRI 31)" "encodable 64 (mkInst BSETI 31)"
  using exec_shift(4,5) [of 31 x] encodable_shift [of 31] by simp_all

section \<open>Any sound generator can be improved\<close>

text \<open>
  The interface between \<open>generateInstSeq\<close> and the recursive generator: all it uses of the latter
  is that the sequence for a constant materialises it. Every candidate it builds is a generated
  sequence with a tail of instructions that turns the generated constant into the wanted one.
\<close>

locale seq_generator =
  fixes gen :: "u64 \<Rightarrow> Inst list"
  assumes gen_sound: "materialises (gen v) v"
begin

lemma append_sound:
  assumes "fold exec tail x = v" "list_all (encodable 64) tail"
  shows "materialises (gen x @ tail) v"
  using gen_sound [of x] assms by (simp add: materialises_def run_append)

lemma keepShorter_sound:
  assumes "materialises Res v" "fold exec tail x = v" "list_all (encodable 64) tail"
  shows "materialises (keepShorter (gen x) tail Res) v"
  using assms(1) append_sound [OF assms(2,3)] by (simp add: keepShorter_def)

lemma keep1_sound:
  assumes "materialises Res v" "exec i x = v" "encodable 64 i"
  shows "materialises (keepShorter (gen x) [i] Res) v"
  using assms by (intro keepShorter_sound) simp_all

lemma slli_sound:
  assumes "v \<noteq> 0"
  shows "materialises (gen (signed_drop_bit (countr_zero v) v) @ [mkInst SLLI (of_nat (countr_zero v))]) v"
  using countr_zero_less [OF assms] push_bit_countr_zero [of v]
  by (intro append_sound) (simp_all add: exec_shift encodable_shift)

lemma srli_sound:
  assumes "materialises Res v" "0 <s v"
  shows "materialises (keepShorter (gen (push_bit (countl_zero v) v OR maskTrailingOnes (countl_zero v)))
      [mkInst SRLI (of_nat (countl_zero v))] Res) v"
    "materialises (keepShorter (gen ((push_bit (countl_zero v) v OR maskTrailingOnes (countl_zero v))
      AND maskTrailingZeros (countl_zero v))) [mkInst SRLI (of_nat (countl_zero v))] Res) v"
  using assms countl_zero_less_64 [of v] srl_restores [of v]
  by (auto intro!: keep1_sound simp: exec_shift encodable_shift)

lemma zextw_sound:
  assumes "materialises Res v" "countl_zero v = 32"
  shows "materialises (keepShorter (gen (v OR maskLeadingOnes 32)) [mkInst ADD_UW 0] Res) v"
  using assms zextw_restores [of v] by (intro keep1_sound) (simp_all add: exec_def getOpndKind_def encodable_def)

lemma pack_sound:
  assumes "materialises Res v" "SignExtend64 v 32 = SignExtend64 (signed_drop_bit 32 v) 32"
  shows "materialises (keepShorter (gen (SignExtend64 v 32)) [mkInst PACK 0] Res) v"
  using assms pack_restores [of v] by (intro keep1_sound) (simp_all add: exec_def getOpndKind_def encodable_def)

lemma bit31_sound:
  assumes "materialises Res v"
  shows "v OR 0x80000000 \<noteq> v \<Longrightarrow> materialises (keepShorter (gen (v OR 0x80000000)) [mkInst BCLRI 31] Res) v"
    "v AND NOT 0x80000000 \<noteq> v \<Longrightarrow> materialises (keepShorter (gen (v AND NOT 0x80000000)) [mkInst BSETI 31] Res) v"
proof -
  show "v OR 0x80000000 \<noteq> v \<Longrightarrow> materialises (keepShorter (gen (v OR 0x80000000)) [mkInst BCLRI 31] Res) v"
    using bit31_restores(1) exec_bit31(3) by (intro keep1_sound [OF assms]) (simp_all only: exec_bit31(1) not_False_eq_True)
  show "v AND NOT 0x80000000 \<noteq> v \<Longrightarrow> materialises (keepShorter (gen (v AND NOT 0x80000000)) [mkInst BSETI 31] Res) v"
    using bit31_restores(2) exec_bit31(4) by (intro keep1_sound [OF assms]) (simp_all only: exec_bit31(2) not_False_eq_True)
qed

lemma upper_sound:
  "0 <s Lo_32 v \<Longrightarrow> materialises (upperBits BSETI (Hi_32 v) (gen (scast (Lo_32 v)))) v"
  "Lo_32 v <s 0 \<Longrightarrow> materialises (upperBits BCLRI (NOT (Hi_32 v)) (gen (scast (Lo_32 v)))) v"
  using upperBits_BSETI [OF gen_sound, of "Hi_32 v" "scast (Lo_32 v)"]
    upperBits_BCLRI [OF gen_sound, of "NOT (Hi_32 v)" "scast (Lo_32 v)"] halves_restore [of v] by simp_all

lemma shadd_sound:
  assumes "materialises Res v" "shaddDiv v = Some (d, Op)"
  shows "materialises (keepShorter (gen (sdiv_word v d)) [mkInst Op 0] Res) v"
  using assms shaddDiv_sound by (intro keep1_sound) simp_all

lemma shadd_addi_sound:
  assumes "materialises Res v" "shaddDiv ((v + 0x800) AND NOT 0xfff) = Some (d, Op)"
  shows "materialises (keepShorter (gen (sdiv_word ((v + 0x800) AND NOT 0xfff) d))
      [mkInst Op 0, mkInst ADDI (SignExtend64 v 12)] Res) v"
  using assms shaddDiv_sound [OF assms(2)] Hi52_Lo12 [of v] exec_Lo12
  by (intro keepShorter_sound) (simp_all del: not_numeral_eq)

end

interpretation mi: seq_generator "\<lambda>v. generateInstSeqImpl v (F\<lparr>Feature64Bit := True\<rparr>) []" for F
  by unfold_locales (simp add: generateInstSeqImpl_sound)

section \<open>The steps of \<open>generateInstSeq\<close>\<close>

lemma features_64 [simp]: "Feature64Bit F \<Longrightarrow> F\<lparr>Feature64Bit := True\<rparr> = F"
  by (cases F) simp

lemma trailingZerosStep_sound:
  assumes "Feature64Bit F" "materialises Res v"
  shows "materialises (trailingZerosStep v F Res) v"
proof -
  have "v \<noteq> 0" if "v AND 0xfff \<noteq> 0" using that by auto
  then show ?thesis
    using assms mi.slli_sound [of v F] by (auto simp: trailingZerosStep_def Let_def)
qed

lemma leadingZerosStep_sound:
  assumes "Feature64Bit F" "materialises Res v"
  shows "materialises (leadingZerosStep v F Res) v"
proof (cases "0 <s v")
  case True
  define R1 where "R1 = keepShorter (generateInstSeqImpl (push_bit (countl_zero v) v OR maskTrailingOnes (countl_zero v)) F [])
      [mkInst SRLI (of_nat (countl_zero v))] Res"
  define R2 where "R2 = keepShorter (generateInstSeqImpl ((push_bit (countl_zero v) v OR maskTrailingOnes (countl_zero v))
      AND maskTrailingZeros (countl_zero v)) F []) [mkInst SRLI (of_nat (countl_zero v))] R1"
  have "materialises R1 v"
    using mi.srli_sound(1) [OF assms(2) True, of F] assms(1) by (simp add: R1_def)
  then have "materialises R2 v"
    using mi.srli_sound(2) [OF _ True, of R1 F] assms(1) by (simp add: R2_def)
  moreover have "leadingZerosStep v F Res = (if countl_zero v = 32 \<and> StdExtZba F
      then keepShorter (generateInstSeqImpl (v OR maskLeadingOnes (countl_zero v)) F []) [mkInst ADD_UW 0] R2 else R2)"
    unfolding leadingZerosStep_def Let_def R1_def R2_def by (simp only: True if_True)
  ultimately show ?thesis
    using mi.zextw_sound [of R2 v F] assms(1) by simp
qed (use assms in \<open>simp add: leadingZerosStep_def\<close>)

lemma packStep_sound:
  assumes "Feature64Bit F" "materialises Res v"
  shows "materialises (packStep v F Res) v"
  using assms mi.pack_sound [OF assms(2), of F] by (simp add: packStep_def Let_def)

lemma bit31Step_sound:
  assumes "Feature64Bit F" "materialises Res v" "\<not> isInt 32 v"
  shows "materialises (bit31Step v F Res) v"
proof -
  have "v OR 0x80000000 \<noteq> v" if "isInt 32 (v OR 0x80000000)" using that assms(3) by metis
  moreover have "v AND NOT 0x80000000 \<noteq> v" if "isInt 32 (v AND NOT 0x80000000)" using that assms(3) by metis
  ultimately show ?thesis
    using mi.bit31_sound [OF assms(2), of F] assms(1,2) by (simp add: bit31Step_def del: not_numeral_eq)
qed

lemma upperBitsStep_sound:
  assumes "Feature64Bit F" "materialises Res v"
  shows "materialises (upperBitsStep v F Res) v"
  using assms mi.upper_sound [of v F] by (simp add: upperBitsStep_def Let_def)

lemma singleBitStep_sound:
  assumes "Feature64Bit F" "materialises Res v" "2 < length Res \<Longrightarrow> \<not> isInt 32 v"
  shows "materialises (singleBitStep v F Res) v"
  using assms by (simp add: singleBitStep_def upperBitsStep_sound bit31Step_sound)

lemma shaddStep_sound:
  assumes "Feature64Bit F" "materialises Res v"
  shows "materialises (shaddStep v F Res) v"
  using assms mi.shadd_sound [OF assms(2), of _ _ F] mi.shadd_addi_sound [OF assms(2), of _ _ F]
  by (auto simp: shaddStep_def Let_def simp del: not_numeral_eq split: option.split)

lemma rotateStep_sound:
  assumes "materialises Res v"
  shows "materialises (rotateStep v F Res) v"
proof (cases "extractRotateInfo v = 0")
  case False
  let ?R = "extractRotateInfo v"
  note rot = extractRotateInfo_sound [OF False]
  have s: "sint (scast (rotl v (of_nat ?R)) :: u32) = sint (rotl v (of_nat ?R))"
    "scast (scast (rotl v (of_nat ?R)) :: u32) = rotl v (of_nat ?R)"
    by (rule scast_scast_small; use rot in simp)+
  have "materialises [mkInst ADDI (rotl v (of_nat ?R))] (rotl v (of_nat ?R))"
    using rot s by (simp add: materialises_def run_def exec_def encodable_def)
  then have "materialises ([mkInst ADDI (rotl v (of_nat ?R))] @ [mkInst Op (of_nat ?R)]) v" if "Op \<in> {RORI, TH_SRRI}" for Op
    by (rule materialises_snoc) (use that rot(1) in \<open>auto simp: exec_shift rotr_restores encodable_shift\<close>)
  then show ?thesis
    using assms by (auto simp: rotateStep_def Let_def)
qed (use assms in \<open>simp add: rotateStep_def\<close>)

lemma isInt6_single:
  assumes "isInt 6 v"
  shows "length (generateInstSeqImpl v F []) = 1"
proof -
  have v: "- 32 \<le> sint v" "sint v < 32"
    using assms isInt_iff_aux [of 6 v] by simp_all
  then have "sint (v + 0x800) = sint v + 2048"
    using sint_word_of_int_64 [of "sint v + 2048"] by simp
  then have "sint (signed_drop_bit 12 (v + 0x800)) = 0"
    using v unfolding sint_signed_drop_bit by simp
  then have H: "signed_drop_bit 12 (v + 0x800) = 0"
    by (simp only: sint_eq_0_iff)
  have "isInt 32 v" "v \<noteq> 0x800"
    using v isInt_iff_aux [of 32 v] by auto
  then show ?thesis
    unfolding generateInstSeqImpl.simps [of v F "[]"] by (simp add: Let_def H)
qed

lemma keepShorter_length: "length (keepShorter T e R) \<le> length R"
  by (simp add: keepShorter_def)

lemmas keepShorter_le = order_trans [OF keepShorter_length]

lemma steps_length:
  "length (trailingZerosStep v F Res) \<le> length Res"
  "length (leadingZerosStep v F Res) \<le> length Res"
  "length (packStep v F Res) \<le> length Res"
  "length (singleBitStep v F Res) \<le> length Res"
  "length (shaddStep v F Res) \<le> length Res"
  "length (rotateStep v F Res) \<le> length Res"
proof -
  show "length (trailingZerosStep v F Res) \<le> length Res"
    using isInt6_single [of "signed_drop_bit (countr_zero v) v" F] by (auto simp: trailingZerosStep_def Let_def)
  show "length (leadingZerosStep v F Res) \<le> length Res"
    unfolding leadingZerosStep_def Let_def by (simp add: keepShorter_le keepShorter_length)
  show "length (packStep v F Res) \<le> length Res"
    unfolding packStep_def Let_def by (simp add: keepShorter_length)
  show "length (shaddStep v F Res) \<le> length Res"
    unfolding shaddStep_def Let_def by (simp add: keepShorter_length split: option.split)
  show "length (rotateStep v F Res) \<le> length Res"
    unfolding rotateStep_def Let_def by simp
  have "length (upperBitsStep v F R) \<le> length R" for R
    unfolding upperBitsStep_def Let_def by simp
  moreover have "length (bit31Step v F Res) \<le> length Res"
    unfolding bit31Step_def by (simp add: keepShorter_length split: prod.split)
  ultimately show "length (singleBitStep v F Res) \<le> length Res"
    unfolding singleBitStep_def by (auto intro: order_trans)
qed

lemma int32_length:
  assumes "isInt 32 v"
  shows "length (generateInstSeqImpl v F []) \<le> 2 \<and> 0 < length (generateInstSeqImpl v F [])"
  using assms unfolding generateInstSeqImpl.simps [of v F "[]"] by (simp add: Let_def)

lemma generateInstSeqImpl_length_aux:
  assumes "\<bar>sint v\<bar> \<le> 2 ^ (27 + 12 * k)"
  shows "length (generateInstSeqImpl v F []) \<le> 2 + 2 * k \<and> 0 < length (generateInstSeqImpl v F [])"
  using assms
proof (induction k arbitrary: v)
  case 0
  then have "- (2 ^ 31) \<le> sint v \<and> sint v < 2 ^ 31" by simp linarith
  then have "isInt 32 v" using isInt_iff_aux [of 32 v] by simp
  then show ?case using int32_length [of v F] by simp
next
  case (Suc k)
  show ?case
  proof (cases "isInt 32 v \<or> StdExtZbs F \<and> isPowerOf2_64 v \<and> (\<not> isInt 32 v \<or> v = 0x800)")
    case True
    then show ?thesis using int32_length [of v F] bseti_sequence(2) [of F v] by force
  next
    case False
    let ?v = "v - SignExtend64 v 12"
    have neg: "\<not> isInt 32 v" "\<not> (StdExtZbs F \<and> isPowerOf2_64 v \<and> (\<not> isInt 32 v \<or> v = 0x800))"
      using False by blast+
    obtain w s u where r: "reduceShift F ?v = (w, s, u)"
      using prod_cases3 by blast
    have "\<bar>sint w\<bar> \<le> 2 ^ (27 + 12 * k)" if "\<bar>sint w\<bar> * 4096 \<le> \<bar>sint v\<bar> + 2048"
    proof -
      have "(2 :: int) ^ (27 + 12 * Suc k) = 2 ^ (27 + 12 * k) * 4096"
        by (simp add: power_add)
      then show ?thesis using that Suc.prems by simp
    qed
    then have w: "length (generateInstSeqImpl w F []) \<le> 2 + 2 * k \<and> 0 < length (generateInstSeqImpl w F [])"
      using reduceShift_small [OF _ r] False Suc.IH [of w] int32_length [of w F] by force
    have "length (generateInstSeqImpl v F []) \<le> length (generateInstSeqImpl w F []) + 2"
      "length (generateInstSeqImpl w F []) \<le> length (generateInstSeqImpl v F [])"
      using neg unfolding generateInstSeqImpl.simps [of v F "[]"] by (simp_all only: Let_def r split_conv if_False) simp_all
    then show ?thesis using w by (auto simp del: length_greater_0_conv)
  qed
qed

lemma generateInstSeqImpl_length:
  "length (generateInstSeqImpl v F []) \<le> 8" "0 < length (generateInstSeqImpl v F [])"
  using generateInstSeqImpl_length_aux [of v 3 F] sint_ge_64 [of v] sint_lt_64 [of v] by simp_all

lemma generateInstSeq_le: "length (generateInstSeq v F) \<le> length (generateInstSeqImpl v F [])"
proof -
  have le: "length (rotateStep v F (shaddStep v F (singleBitStep v F (packStep v F (leadingZerosStep v F R))))) \<le> length R" for R
    using steps_length by (meson order_trans)
  show ?thesis
    unfolding generateInstSeq_def Let_def using steps_length(1) le order_trans by (simp, blast)
qed


lemma generateInstSeqImpl_nonempty [simp]: "generateInstSeqImpl v F [] \<noteq> []"
  using generateInstSeqImpl_length(2) by simp




lemma generateInstSeq_materialises:
  assumes "Feature64Bit F"
  shows "materialises (generateInstSeq v F) v"
proof -
  define R where "R = trailingZerosStep v F (generateInstSeqImpl v F [])"
  define R1 where "R1 = packStep v F (leadingZerosStep v F R)"
  have R: "materialises R v"
    unfolding R_def by (intro trailingZerosStep_sound generateInstSeqImpl_sound assms)
  have R1: "materialises R1 v"
    unfolding R1_def by (intro packStep_sound leadingZerosStep_sound R assms)
  have "length R1 \<le> length (generateInstSeqImpl v F [])"
    unfolding R1_def R_def using steps_length by (meson order_trans)
  then have "2 < length R1 \<Longrightarrow> \<not> isInt 32 v"
    using int32_length [of v F] by fastforce
  then have "materialises (rotateStep v F (shaddStep v F (singleBitStep v F R1))) v"
    by (intro rotateStep_sound shaddStep_sound singleBitStep_sound R1 assms)
  then show ?thesis
    using R unfolding generateInstSeq_def R1_def R_def by (simp add: Let_def)
qed
section \<open>RV32\<close>

definition materialises32 :: "Inst list \<Rightarrow> u64 \<Rightarrow> bool" where
  "materialises32 s v \<longleftrightarrow> run s = (ucast v :: u32) \<and> s \<noteq> [] \<and>
    list_all (\<lambda>i. encodable 32 i \<and> Opc i \<in> {LUI, ADDI, SLLI, BSETI}) s"

lemma scast_u32_id [simp]: "scast (x :: u32) = (x :: u32)"
  by (intro bit_word_eqI) (auto simp: bit_simps)

lemma scast_u64_u32: "scast (v :: u64) = (ucast v :: u32)"
  by (intro bit_word_eqI) (auto simp: bit_simps)

lemma generateInstSeqImpl_sound32:
  assumes "\<not> Feature64Bit F" "isInt 32 v"
  shows "materialises32 (generateInstSeqImpl v F []) v"
proof (cases "StdExtZbs F \<and> isPowerOf2_64 v \<and> v = 0x800")
  case True
  have log: "Log2_64 0x800 = 11" by code_simp
  have c: "StdExtZbs F \<and> isPowerOf2_64 v \<and> (\<not> isInt 32 v \<or> v = 0x800)"
    using True by blast
  have "generateInstSeqImpl v F [] = [mkInst BSETI 11]"
    unfolding generateInstSeqImpl.simps [of v F "[]"]
    by (simp only: c if_True append_Nil) (simp add: log conjunct2 [OF conjunct2 [OF True]])
  then show ?thesis
    using True by (simp add: materialises32_def run_def exec_def encodable_def)
next
  case False
  define H where "H = signed_drop_bit 12 (v + 0x800) AND 0xFFFFF"
  define L where "L = SignExtend64 v 12"
  have seq: "generateInstSeqImpl v F [] =
    (if H \<noteq> 0 then [mkInst LUI H] else []) @ (if L \<noteq> 0 \<or> H = 0 then [mkInst ADDI L] else [])"
    using assms False unfolding generateInstSeqImpl.simps [of v F "[]"] by (auto simp add: Let_def H_def L_def)
  have HL: "push_bit 12 (scast H :: u32) + scast L = scast v"
    unfolding H_def L_def by (rule Hi20_Lo12)
  have L12: "- 2048 \<le> sint L" "sint L < 2048"
    unfolding L_def by (rule sint_Lo12)+
  then have L: "sint (scast L :: u32) = sint L"
    by (intro scast_scast_small) simp_all
  have enc: "encodable 32 (mkInst ADDI L)" "encodable 32 (mkInst LUI H)"
    using L12 encodable_Hi20 [of 32 "signed_drop_bit 12 (v + 0x800)"]
    by (simp_all add: encodable_def L H_def [symmetric])
  have "run (generateInstSeqImpl v F []) = (ucast v :: u32)"
    using HL unfolding seq by (auto simp: run_def exec_def scast_u64_u32)
  then show ?thesis
    using enc unfolding materialises32_def seq by auto
qed

lemma slli_sound32:
  assumes "isInt 32 v" "v \<noteq> 0" "isInt 6 (signed_drop_bit (countr_zero v) v)" "\<not> Feature64Bit F"
  shows "materialises32 (generateInstSeqImpl (signed_drop_bit (countr_zero v) v) F []
      @ [mkInst SLLI (of_nat (countr_zero v))]) v"
proof -
  let ?z = "countr_zero v" let ?w = "signed_drop_bit ?z v"
  have "?z < 32"
  proof -
    have "(2 :: int) ^ ?z dvd sint v" by (rule dvd_countr_zero)
    then have "2 ^ ?z \<le> \<bar>sint v\<bar>"
      using assms(2) by (metis dvd_abs_iff dvd_imp_le_int abs_of_nonneg abs_power_minus power_abs abs_numeral sint_eq_0_iff)
    also have "\<dots> < 2 ^ 32"
      using assms(1) isInt_iff_aux [of 32 v] by simp linarith
    finally show ?thesis by (rule power_less_imp_less_exp [rotated]) simp
  qed
  have "isInt 32 ?w"
    using assms(3) isInt_iff_aux [of 32 ?w] isInt_iff_aux [of 6 ?w] by simp
  note w = generateInstSeqImpl_sound32 [OF assms(4) this]
  have "push_bit ?z (ucast ?w :: u32) = ucast (push_bit ?z ?w)"
    by (intro bit_word_eqI) (auto simp: bit_simps)
  then have "push_bit ?z (ucast ?w :: u32) = ucast v"
    by (simp only: push_bit_countr_zero)
  then show ?thesis
    using w unat_of_nat_small [of ?z] \<open>?z < 32\<close>
    by (simp add: materialises32_def exec_def encodable_def)
qed

lemma generateInstSeq_sound32:
  assumes "\<not> Feature64Bit F" "isInt 32 v"
  shows "materialises32 (generateInstSeq v F) v \<and> length (generateInstSeq v F) \<le> 2"
proof -
  have le: "length (generateInstSeq v F) \<le> 2"
    using generateInstSeq_le [of v F] int32_length [OF assms(2), of F] by simp
  have "v \<noteq> 0" if "v AND 0xfff \<noteq> 0" using that by auto
  then have "materialises32 (trailingZerosStep v F (generateInstSeqImpl v F [])) v"
    using slli_sound32 [OF assms(2) _ _ assms(1)] generateInstSeqImpl_sound32 [OF assms]
      generateInstSeqImpl_length(2) [of _ F] int32_length [OF assms(2), of F]
    by (auto simp: trailingZerosStep_def Let_def)
  moreover have "generateInstSeq v F = trailingZerosStep v F (generateInstSeqImpl v F [])"
    using steps_length(1) [of v F "generateInstSeqImpl v F []"] int32_length [OF assms(2), of F]
    by (simp add: generateInstSeq_def Let_def)
  ultimately show ?thesis using le by simp
qed

section \<open>The emitted code\<close>

lemma exec_mi_emit:
  "exec_mi (hd (movImm_loop d r (i # s))) R = R(d := exec i (readReg R r))"
  by (cases "Opc i") (simp_all add: getOpndKind_def exec_def getImm_def readReg_def)

lemma fold_movImm_loop:
  assumes "d \<noteq> 0" "s \<noteq> []"
  shows "fold exec_mi (movImm_loop d r s) R = R(d := fold exec s (readReg R r))"
  using assms(2)
proof (induction s arbitrary: r R)
  case (Cons i s)
  have "fold exec_mi (movImm_loop d r (i # s)) R = fold exec_mi (movImm_loop d d s) (R(d := exec i (readReg R r)))"
    using exec_mi_emit [of d r i s R] by simp
  also have "\<dots> = R(d := fold exec (i # s) (readReg R r))"
    using Cons.IH [of d "R(d := exec i (readReg R r))"] assms(1)
    by (cases "s = []") (simp_all add: readReg_def [of _ d] fun_upd_upd del: fun_upd_apply, simp add: readReg_def)
  finally show ?case .
qed simp
lemma getInstSeqCost_bounds:
  "0 \<le> getInstSeqCost s c" "getInstSeqCost s c \<le> 100 * int (length s)"
proof -
  have "0 \<le> (\<Sum>i\<leftarrow>s. if P i then 100 else 70 :: int) \<and> (\<Sum>i\<leftarrow>s. if P i then 100 else 70) \<le> 100 * int (length s)" for P
    by (induction s) auto
  then show "0 \<le> getInstSeqCost s c" "getInstSeqCost s c \<le> 100 * int (length s)"
    by (simp_all add: Let_def)
qed

lemma generateInstSeq_length: "length (generateInstSeq v F) \<le> 8"
  using generateInstSeq_le generateInstSeqImpl_length(1) by (rule order_trans)

lemma getIntMatCost_loop_bounds:
  assumes "0 < P" "c \<le> C" "C \<le> 800 * int k + c"
  shows "c \<le> getIntMatCost_loop V S P sh F r C \<and>
    getIntMatCost_loop V S P sh F r C \<le> 800 * int (k + (S - sh + P - 1) div P) + c"
  using assms
proof (induction V S P sh F r C arbitrary: k rule: getIntMatCost_loop.induct)
  case (1 V S P sh F r C)
  show ?case
  proof (cases "sh < S")
    case False
    then show ?thesis using 1 by (subst (1 2) getIntMatCost_loop.simps) simp
  next
    case True
    define Q where "Q = generateInstSeq (word_of_int (signed_take_bit (P - 1) (V div 2 ^ sh))) F"
    have q: "0 \<le> getInstSeqCost Q r" "getInstSeqCost Q r \<le> 800"
      using getInstSeqCost_bounds [of Q r] generateInstSeq_length [of _ F] unfolding Q_def
      by (simp, intro order_trans [OF getInstSeqCost_bounds(2)], simp)
    have "c \<le> C + getInstSeqCost Q r" "C + getInstSeqCost Q r \<le> 800 * int (Suc k) + c"
      using q 1(3,4) by simp_all
    from 1(1) [OF _ refl Q_def 1(2) this] True 1(2)
    have "c \<le> getIntMatCost_loop V S P (sh + P) F r (C + getInstSeqCost Q r) \<and>
      getIntMatCost_loop V S P (sh + P) F r (C + getInstSeqCost Q r) \<le> 800 * int (Suc k + (S - (sh + P) + P - 1) div P) + c"
      by simp
    moreover have "Suc k + (S - (sh + P) + P - 1) div P \<le> k + (S - sh + P - 1) div P"
    proof (cases "sh + P \<le> S")
      case True
      then have "S - sh + P - 1 = (S - (sh + P) + P - 1) + P" using 1(2) by simp
      then show ?thesis using 1(2) by (simp only: div_add_self2)
    next
      case False
      then have "S - (sh + P) + P - 1 < P" "P \<le> S - sh + P - 1" using 1(2) True by simp_all
      then have "(S - (sh + P) + P - 1) div P = 0" "1 \<le> (S - sh + P - 1) div P"
        using 1(2) by (simp_all add: div_greater_zero_iff Suc_le_eq)
      then show ?thesis by simp
    qed
    moreover have "getIntMatCost_loop V S P sh F r C = getIntMatCost_loop V S P (sh + P) F r (C + getInstSeqCost Q r)"
      using True 1(2) unfolding getIntMatCost_loop.simps [of V S P sh] Q_def by (simp add: Let_def del: getInstSeqCost.simps)
    ultimately show ?thesis by (simp del: getInstSeqCost.simps)
  qed
qed

section \<open>Properties\<close>

text \<open>C1: on RV64, the instructions \<open>movImm\<close> builds for a 64-bit constant leave exactly that
  constant in the destination register and change no other register, whatever the registers
  held before, under every combination of extensions and tuning features.\<close>

theorem movImm_rv64:
  fixes R :: "nat \<Rightarrow> u64"
  assumes "Feature64Bit F" "DstReg \<noteq> 0"
  shows "\<exists>code. movImm F DstReg Val = Some code \<and> fold exec_mi code R = R(DstReg := Val)"
proof -
  have "materialises (generateInstSeq Val F) Val"
    by (rule generateInstSeq_materialises) (rule assms)
  then show ?thesis
    using assms fold_movImm_loop [OF assms(2), of "generateInstSeq Val F" 0 R]
    by (simp add: movImm_def materialises_def run_def readReg_def)
qed

text \<open>C2: on RV32, the same for the constants of 32 bits; a larger constant is the fatal error,
  and only instructions of RV32 are used.\<close>

theorem movImm_rv32:
  fixes R :: "nat \<Rightarrow> u32"
  assumes "\<not> Feature64Bit F" "DstReg \<noteq> 0"
  shows "(if isInt 32 Val
     then \<exists>code. movImm F DstReg Val = Some code \<and> fold exec_mi code R = R(DstReg := ucast Val) \<and>
       length code \<le> 2 \<and> (\<forall>i\<in>set (generateInstSeq Val F). Opc i \<in> {LUI, ADDI, SLLI, BSETI})
     else movImm F DstReg Val = None)"
proof (cases "isInt 32 Val")
  case True
  have len: "length (movImm_loop d r s) = length s" for d r s
    by (induction s arbitrary: r) simp_all
  show ?thesis
    using generateInstSeq_sound32 [OF assms(1) True] assms True
      fold_movImm_loop [OF assms(2), of "generateInstSeq Val F" 0 R]
    by (simp add: movImm_def materialises32_def run_def readReg_def list_all_iff len)
qed (use assms in \<open>simp add: movImm_def\<close>)

text \<open>Every instruction of a chosen RV64 sequence is encodable: shift amounts are below 64,
  \<open>ADDI\<close> immediates are 12-bit signed, \<open>LUI\<close> immediates are 20-bit; in particular the rotated
  constant of the \<open>RORI\<close> case passes its assert, and no operand is truncated.\<close>

theorem generateInstSeq_encodable:
  assumes "Feature64Bit F"
  shows "list_all (encodable 64) (generateInstSeq Val F)"
  using generateInstSeq_materialises [OF assms, of Val] by (simp add: materialises_def)


text \<open>The cost of a constant of \<open>Size\<close> bits is positive, and at most eight uncompressed
  instructions for each register-sized chunk.\<close>

theorem getIntMatCost_bounds:
  "1 \<le> getIntMatCost Val Size F C \<and>
   getIntMatCost Val Size F C \<le>
     max 1 (800 * int ((Size + (if Feature64Bit F then 64 else 32) - 1) div (if Feature64Bit F then 64 else 32)))"
  using getIntMatCost_loop_bounds [of 64 0 0 0 Val Size 0 F "C \<and> (StdExtC F \<or> StdExtZca F)"]
    getIntMatCost_loop_bounds [of 32 0 0 0 Val Size 0 F "C \<and> (StdExtC F \<or> StdExtZca F)"]
  by (auto simp: getIntMatCost_def Let_def intro: max.coboundedI2)

section \<open>Witnesses\<close>

definition rv64gc :: features where
  "rv64gc = \<lparr>Feature64Bit = True, StdExtC = True, StdExtZca = False, StdExtZba = False, StdExtZbb = False,
    StdExtZbs = False, StdExtZbkb = False, VendorXTHeadBb = False, TuneLUIADDIFusion = False\<rparr>"

lemma movImm_rv64_witness:
  "\<exists>code. movImm rv64gc 10 0x123456789abcdef0 = Some code \<and>
     fold exec_mi code (\<lambda>_. 7 :: u64) = (\<lambda>_. 7)(10 := 0x123456789abcdef0)"
  by (rule movImm_rv64) (simp_all add: rv64gc_def)

lemma movImm_rv32_witness:
  "\<exists>code. movImm (rv64gc\<lparr>Feature64Bit := False\<rparr>) 10 0x12345 = Some code \<and>
     fold exec_mi code (\<lambda>_. 7 :: u32) = (\<lambda>_. 7)(10 := 0x12345)"
  using movImm_rv32 [of "rv64gc\<lparr>Feature64Bit := False\<rparr>" 10 "0x12345" "\<lambda>_. 7"]
  by (auto simp: rv64gc_def isInt_def)

lemma generateInstSeq_encodable_witness:
  "generateInstSeq 0x80000001 rv64gc =
     [\<lparr>Opc = ADDI, Imm32 = 1\<rparr>, \<lparr>Opc = SLLI, Imm32 = 31\<rparr>, \<lparr>Opc = ADDI, Imm32 = 1\<rparr>] \<and>
   list_all (encodable 64) (generateInstSeq 0x80000001 rv64gc)"
proof
  show "generateInstSeq 0x80000001 rv64gc =
     [\<lparr>Opc = ADDI, Imm32 = 1\<rparr>, \<lparr>Opc = SLLI, Imm32 = 31\<rparr>, \<lparr>Opc = ADDI, Imm32 = 1\<rparr>]"
    by code_simp
  show "list_all (encodable 64) (generateInstSeq 0x80000001 rv64gc)"
    by (rule generateInstSeq_encodable) (simp add: rv64gc_def)
qed

end
