(* ===== verification/RVReloc.thy ===== *)
theory RVReloc
  imports MathFacts
begin

text \<open>
  \<open>lld/ELF/Arch/RISCV.cpp\<close>, first half: instruction words and their immediate fields, the PLT
  and GOT writers, the classification of relocations and \<open>relocate\<close>, which patches the bytes at
  a location, with the little-endian accessors of \<open>Endian.h\<close> and the checks of
  \<open>lld/ELF/Target.h\<close> it uses.

  A location \<open>loc\<close> is the list of bytes from it to the end of the section. A reported error does
  not stop the linker from writing, so \<open>relocate\<close> returns the patched bytes together with the
  diagnostics. \<open>None\<close> is an \<open>llvm_unreachable\<close> or a null global pointer.
\<close>

section \<open>Bytes\<close>

definition read16le :: "u8 list \<Rightarrow> u16" where
  "read16le P = of_mem_bytes (take 2 P)"

definition read32le :: "u8 list \<Rightarrow> u32" where
  "read32le P = of_mem_bytes (take 4 P)"

definition read64le :: "u8 list \<Rightarrow> u64" where
  "read64le P = of_mem_bytes (take 8 P)"

definition write16le :: "u8 list \<Rightarrow> u16 \<Rightarrow> u8 list" where
  "write16le P V = mem_bytes V @ drop 2 P"

definition write32le :: "u8 list \<Rightarrow> u32 \<Rightarrow> u8 list" where
  "write32le P V = mem_bytes V @ drop 4 P"

definition write64le :: "u8 list \<Rightarrow> u64 \<Rightarrow> u8 list" where
  "write64le P V = mem_bytes V @ drop 8 P"

section \<open>Relocation types and expressions\<close>

datatype RelType =
    R_RISCV_NONE | R_RISCV_32 | R_RISCV_64 | R_RISCV_RELATIVE | R_RISCV_COPY | R_RISCV_JUMP_SLOT
  | R_RISCV_TLS_DTPMOD32 | R_RISCV_TLS_DTPMOD64 | R_RISCV_TLS_DTPREL32 | R_RISCV_TLS_DTPREL64
  | R_RISCV_TLS_TPREL32 | R_RISCV_TLS_TPREL64
  | R_RISCV_BRANCH | R_RISCV_JAL | R_RISCV_CALL | R_RISCV_CALL_PLT
  | R_RISCV_GOT_HI20 | R_RISCV_TLS_GOT_HI20 | R_RISCV_TLS_GD_HI20
  | R_RISCV_PCREL_HI20 | R_RISCV_PCREL_LO12_I | R_RISCV_PCREL_LO12_S
  | R_RISCV_HI20 | R_RISCV_LO12_I | R_RISCV_LO12_S
  | R_RISCV_TPREL_HI20 | R_RISCV_TPREL_LO12_I | R_RISCV_TPREL_LO12_S | R_RISCV_TPREL_ADD
  | R_RISCV_ADD8 | R_RISCV_ADD16 | R_RISCV_ADD32 | R_RISCV_ADD64
  | R_RISCV_SUB8 | R_RISCV_SUB16 | R_RISCV_SUB32 | R_RISCV_SUB64
  | R_RISCV_GNU_VTINHERIT | R_RISCV_GNU_VTENTRY | R_RISCV_ALIGN
  | R_RISCV_RVC_BRANCH | R_RISCV_RVC_JUMP | R_RISCV_RVC_LUI | R_RISCV_RELAX
  | R_RISCV_SUB6 | R_RISCV_SET6 | R_RISCV_SET8 | R_RISCV_SET16 | R_RISCV_SET32 | R_RISCV_32_PCREL
  | R_RISCV_IRELATIVE | R_RISCV_PLT32 | R_RISCV_SET_ULEB128 | R_RISCV_SUB_ULEB128
  | INTERNAL_R_RISCV_GPREL_I | INTERNAL_R_RISCV_GPREL_S

datatype RelExpr = R_NONE | R_ABS | R_PC | R_PLT_PC | R_GOT_PC | R_RISCV_ADD | R_RISCV_PC_INDIRECT
  | R_TLSGD_PC | R_TPREL | R_RELAX_HINT

datatype diag = RangeError RelType | AlignmentError RelType | UnknownRelocation RelType
  | CannotReadAddend RelType | FloatAbiMismatch nat | RveMismatch nat

record config =
  is64 :: bool
  cfg_relax :: bool
  cfg_eflags :: u32
  writeAddends :: bool

definition wordsize :: "config \<Rightarrow> nat" where
  "wordsize c = (if is64 c then 8 else 4)"

section \<open>Instruction words\<close>

definition ADDI_op :: u32 where "ADDI_op = 0x13"
definition AUIPC_op :: u32 where "AUIPC_op = 0x17"
definition JALR_op :: u32 where "JALR_op = 0x67"
definition LD_op :: u32 where "LD_op = 0x3003"
definition LW_op :: u32 where "LW_op = 0x2003"
definition SRLI_op :: u32 where "SRLI_op = 0x5013"
definition SUB_op :: u32 where "SUB_op = 0x40000033"

definition X_RA :: u32 where "X_RA = 1"
definition X_GP :: u32 where "X_GP = 3"
definition X_TP :: u32 where "X_TP = 4"
definition X_T0 :: u32 where "X_T0 = 5"
definition X_T1 :: u32 where "X_T1 = 6"
definition X_T2 :: u32 where "X_T2 = 7"
definition X_T3 :: u32 where "X_T3 = 28"

definition dtpOffset :: u64 where "dtpOffset = 0x800"

definition hi20 :: "u32 \<Rightarrow> u32" where
  "hi20 val = drop_bit 12 (val + 0x800)"

definition lo12 :: "u32 \<Rightarrow> u32" where
  "lo12 val = val AND 4095"

definition itype :: "u32 \<Rightarrow> u32 \<Rightarrow> u32 \<Rightarrow> u32 \<Rightarrow> u32" where
  "itype op rd rs1 imm = op OR push_bit 7 rd OR push_bit 15 rs1 OR push_bit 20 imm"

definition rtype :: "u32 \<Rightarrow> u32 \<Rightarrow> u32 \<Rightarrow> u32 \<Rightarrow> u32" where
  "rtype op rd rs1 rs2 = op OR push_bit 7 rd OR push_bit 15 rs1 OR push_bit 20 rs2"

definition utype :: "u32 \<Rightarrow> u32 \<Rightarrow> u32 \<Rightarrow> u32" where
  "utype op rd imm = op OR push_bit 7 rd OR push_bit 12 imm"

definition extractBits :: "u64 \<Rightarrow> nat \<Rightarrow> nat \<Rightarrow> u32" where
  "extractBits v begin end' = ucast (drop_bit end' (v AND (push_bit (begin + 1) 1 - 1)))"

definition setLO12_I :: "u32 \<Rightarrow> u32 \<Rightarrow> u32" where
  "setLO12_I insn imm = (insn AND 0xfffff) OR push_bit 20 imm"

definition setLO12_S :: "u32 \<Rightarrow> u32 \<Rightarrow> u32" where
  "setLO12_S insn imm =
    (insn AND 0x1fff07f) OR push_bit 25 (extractBits (ucast imm) 11 5) OR push_bit 7 (extractBits (ucast imm) 4 0)"

section \<open>The target description\<close>

record target_info =
  copyRel :: RelType
  pltRel :: RelType
  relativeRel :: RelType
  iRelativeRel :: RelType
  symbolicRel :: RelType
  tlsModuleIndexRel :: RelType
  tlsOffsetRel :: RelType
  tlsGotRel :: RelType
  gotRel :: RelType
  gotHeaderEntriesNum :: nat
  gotPltHeaderEntriesNum :: nat
  pltHeaderSize :: nat
  pltEntrySize :: nat
  ipltEntrySize :: nat

definition RISCV_target :: "config \<Rightarrow> target_info" where
  "RISCV_target c =
    (let symbolic = (if is64 c then R_RISCV_64 else R_RISCV_32) in
     \<lparr>copyRel = R_RISCV_COPY, pltRel = R_RISCV_JUMP_SLOT, relativeRel = R_RISCV_RELATIVE,
      iRelativeRel = R_RISCV_IRELATIVE, symbolicRel = symbolic,
      tlsModuleIndexRel = (if is64 c then R_RISCV_TLS_DTPMOD64 else R_RISCV_TLS_DTPMOD32),
      tlsOffsetRel = (if is64 c then R_RISCV_TLS_DTPREL64 else R_RISCV_TLS_DTPREL32),
      tlsGotRel = (if is64 c then R_RISCV_TLS_TPREL64 else R_RISCV_TLS_TPREL32),
      gotRel = symbolic, gotHeaderEntriesNum = 1, gotPltHeaderEntriesNum = 2,
      pltHeaderSize = 32, pltEntrySize = 16, ipltEntrySize = 16\<rparr>)"

definition EF_RISCV_RVC :: u32 where "EF_RISCV_RVC = 0x0001"
definition EF_RISCV_FLOAT_ABI :: u32 where "EF_RISCV_FLOAT_ABI = 0x0006"
definition EF_RISCV_RVE :: u32 where "EF_RISCV_RVE = 0x0008"

text \<open>The header flags of the object files, in order; a diagnostic names the file by its index.\<close>

fun calcEFlags_loop :: "nat \<Rightarrow> u32 list \<Rightarrow> u32 \<Rightarrow> u32 \<times> diag list" where
  "calcEFlags_loop i [] target = (target, [])"
| "calcEFlags_loop i (eflags # fs) target =
    (let target' = (if eflags AND EF_RISCV_RVC \<noteq> 0 then target OR EF_RISCV_RVC else target);
         ds = (if eflags AND EF_RISCV_FLOAT_ABI \<noteq> target' AND EF_RISCV_FLOAT_ABI then [FloatAbiMismatch i] else [])
           @ (if eflags AND EF_RISCV_RVE \<noteq> target' AND EF_RISCV_RVE then [RveMismatch i] else []);
         (t, ds') = calcEFlags_loop (Suc i) fs target'
     in (t, ds @ ds'))"

definition calcEFlags :: "u32 list \<Rightarrow> u32 \<times> diag list" where
  "calcEFlags files = (case files of [] \<Rightarrow> (0, []) | f # _ \<Rightarrow> calcEFlags_loop 0 files f)"

definition getImplicitAddend :: "config \<Rightarrow> u8 list \<Rightarrow> RelType \<Rightarrow> u64 \<times> diag list" where
  "getImplicitAddend c buf type =
    (case type of
       R_RISCV_32 \<Rightarrow> (SignExtend64 (ucast (read32le buf)) 32, [])
     | R_RISCV_TLS_DTPMOD32 \<Rightarrow> (SignExtend64 (ucast (read32le buf)) 32, [])
     | R_RISCV_TLS_DTPREL32 \<Rightarrow> (SignExtend64 (ucast (read32le buf)) 32, [])
     | R_RISCV_TLS_TPREL32 \<Rightarrow> (SignExtend64 (ucast (read32le buf)) 32, [])
     | R_RISCV_64 \<Rightarrow> (read64le buf, [])
     | R_RISCV_TLS_DTPMOD64 \<Rightarrow> (read64le buf, [])
     | R_RISCV_TLS_DTPREL64 \<Rightarrow> (read64le buf, [])
     | R_RISCV_TLS_TPREL64 \<Rightarrow> (read64le buf, [])
     | R_RISCV_RELATIVE \<Rightarrow> (if is64 c then read64le buf else ucast (read32le buf), [])
     | R_RISCV_IRELATIVE \<Rightarrow> (if is64 c then read64le buf else ucast (read32le buf), [])
     | R_RISCV_NONE \<Rightarrow> (0, [])
     | R_RISCV_JUMP_SLOT \<Rightarrow> (0, [])
     | _ \<Rightarrow> (0, [CannotReadAddend type]))"

text \<open>The addresses of the dynamic section, the PLT and a symbol are arguments.\<close>

definition writeGotHeader :: "config \<Rightarrow> u64 \<Rightarrow> u8 list \<Rightarrow> u8 list" where
  "writeGotHeader c dynamicVA buf =
    (if is64 c then write64le buf dynamicVA else write32le buf (ucast dynamicVA))"

definition writeGotPlt :: "config \<Rightarrow> u64 \<Rightarrow> u8 list \<Rightarrow> u8 list" where
  "writeGotPlt c pltVA buf =
    (if is64 c then write64le buf pltVA else write32le buf (ucast pltVA))"

definition writeIgotPlt :: "config \<Rightarrow> u64 \<Rightarrow> u8 list \<Rightarrow> u8 list" where
  "writeIgotPlt c symVA buf =
    (if writeAddends c
     then if is64 c then write64le buf symVA else write32le buf (ucast symVA)
     else buf)"

text \<open>Writes of consecutive words starting at \<open>buf\<close>.\<close>

definition writeWords :: "u8 list \<Rightarrow> u32 list \<Rightarrow> u8 list" where
  "writeWords buf ws = concat (map mem_bytes ws) @ drop (4 * length ws) buf"

definition writePltHeader :: "config \<Rightarrow> u64 \<Rightarrow> u64 \<Rightarrow> u8 list \<Rightarrow> u8 list" where
  "writePltHeader c gotPltVA pltVA buf =
    (let offset = ucast (gotPltVA - pltVA);
         load = (if is64 c then LD_op else LW_op)
     in writeWords buf
       [utype AUIPC_op X_T2 (hi20 offset),
        rtype SUB_op X_T1 X_T1 X_T3,
        itype load X_T3 X_T2 (lo12 offset),
        itype ADDI_op X_T1 X_T1 (- of_nat (pltHeaderSize (RISCV_target c)) - 12),
        itype ADDI_op X_T0 X_T2 (lo12 offset),
        itype SRLI_op X_T1 X_T1 (if is64 c then 1 else 2),
        itype load X_T0 X_T0 (of_nat (wordsize c)),
        itype JALR_op 0 X_T3 0])"

definition writePlt :: "config \<Rightarrow> u64 \<Rightarrow> u64 \<Rightarrow> u8 list \<Rightarrow> u8 list" where
  "writePlt c gotPltEntryVA pltEntryAddr buf =
    (let offset = ucast (gotPltEntryVA - pltEntryAddr)
     in writeWords buf
       [utype AUIPC_op X_T3 (hi20 offset),
        itype (if is64 c then LD_op else LW_op) X_T3 X_T3 (lo12 offset),
        itype JALR_op X_T1 X_T3 0,
        itype ADDI_op 0 0 0])"

definition getDynRel :: "config \<Rightarrow> RelType \<Rightarrow> RelType" where
  "getDynRel c type = (if type = symbolicRel (RISCV_target c) then type else R_RISCV_NONE)"

definition getRelExpr :: "config \<Rightarrow> RelType \<Rightarrow> RelExpr \<times> diag list" where
  "getRelExpr c type =
    (if type = R_RISCV_NONE then (R_NONE, [])
     else if type \<in> {R_RISCV_32, R_RISCV_64, R_RISCV_HI20, R_RISCV_LO12_I, R_RISCV_LO12_S, R_RISCV_RVC_LUI}
       then (R_ABS, [])
     else if type \<in> {R_RISCV_ADD8, R_RISCV_ADD16, R_RISCV_ADD32, R_RISCV_ADD64, R_RISCV_SET6, R_RISCV_SET8,
         R_RISCV_SET16, R_RISCV_SET32, R_RISCV_SUB6, R_RISCV_SUB8, R_RISCV_SUB16, R_RISCV_SUB32, R_RISCV_SUB64}
       then (R_RISCV_ADD, [])
     else if type \<in> {R_RISCV_JAL, R_RISCV_BRANCH, R_RISCV_PCREL_HI20, R_RISCV_RVC_BRANCH, R_RISCV_RVC_JUMP, R_RISCV_32_PCREL}
       then (R_PC, [])
     else if type \<in> {R_RISCV_CALL, R_RISCV_CALL_PLT, R_RISCV_PLT32} then (R_PLT_PC, [])
     else if type = R_RISCV_GOT_HI20 then (R_GOT_PC, [])
     else if type \<in> {R_RISCV_PCREL_LO12_I, R_RISCV_PCREL_LO12_S} then (R_RISCV_PC_INDIRECT, [])
     else if type = R_RISCV_TLS_GD_HI20 then (R_TLSGD_PC, [])
     else if type = R_RISCV_TLS_GOT_HI20 then (R_GOT_PC, [])
     else if type \<in> {R_RISCV_TPREL_HI20, R_RISCV_TPREL_LO12_I, R_RISCV_TPREL_LO12_S} then (R_TPREL, [])
     else if type = R_RISCV_ALIGN then (R_RELAX_HINT, [])
     else if type \<in> {R_RISCV_TPREL_ADD, R_RISCV_RELAX} then (if cfg_relax c then R_RELAX_HINT else R_NONE, [])
     else (R_NONE, [UnknownRelocation type]))"

section \<open>Applying a relocation\<close>

definition checkInt :: "u64 \<Rightarrow> nat \<Rightarrow> RelType \<Rightarrow> diag list" where
  "checkInt v n type = (if v \<noteq> SignExtend64 v n then [RangeError type] else [])"

definition checkAlignment :: "u64 \<Rightarrow> u64 \<Rightarrow> RelType \<Rightarrow> diag list" where
  "checkAlignment v n type = (if v AND (n - 1) \<noteq> 0 then [AlignmentError type] else [])"

definition enc_rvc_branch :: "u16 \<Rightarrow> u64 \<Rightarrow> u16" where
  "enc_rvc_branch word val =
    (let insn = word AND 0xE383;
         imm8 = ucast (push_bit 12 (extractBits val 8 8));
         imm4_3 = ucast (push_bit 10 (extractBits val 4 3));
         imm7_6 = ucast (push_bit 5 (extractBits val 7 6));
         imm2_1 = ucast (push_bit 3 (extractBits val 2 1));
         imm5 = ucast (push_bit 2 (extractBits val 5 5))
     in insn OR (imm8 OR imm4_3 OR imm7_6 OR imm2_1 OR imm5))"

definition enc_rvc_jump :: "u16 \<Rightarrow> u64 \<Rightarrow> u16" where
  "enc_rvc_jump word val =
    (let insn = word AND 0xE003;
         imm11 = ucast (push_bit 12 (extractBits val 11 11));
         imm4 = ucast (push_bit 11 (extractBits val 4 4));
         imm9_8 = ucast (push_bit 9 (extractBits val 9 8));
         imm10 = ucast (push_bit 8 (extractBits val 10 10));
         imm6 = ucast (push_bit 7 (extractBits val 6 6));
         imm7 = ucast (push_bit 6 (extractBits val 7 7));
         imm3_1 = ucast (push_bit 3 (extractBits val 3 1));
         imm5 = ucast (push_bit 2 (extractBits val 5 5))
     in insn OR (imm11 OR imm4 OR imm9_8 OR imm10 OR imm6 OR imm7 OR imm3_1 OR imm5))"

definition enc_rvc_lui :: "u16 \<Rightarrow> u64 \<Rightarrow> u64 \<Rightarrow> u16" where
  "enc_rvc_lui word val imm =
    (if imm = 0 then (word AND 0x0F83) OR 0x4000
     else
       let imm17 = ucast (push_bit 12 (extractBits (val + 0x800) 17 17));
           imm16_12 = ucast (push_bit 2 (extractBits (val + 0x800) 16 12))
       in (word AND 0xEF83) OR imm17 OR imm16_12)"

definition enc_jal :: "u32 \<Rightarrow> u64 \<Rightarrow> u32" where
  "enc_jal word val =
    (let insn = word AND 0xFFF;
         imm20 = push_bit 31 (extractBits val 20 20);
         imm10_1 = push_bit 21 (extractBits val 10 1);
         imm11 = push_bit 20 (extractBits val 11 11);
         imm19_12 = push_bit 12 (extractBits val 19 12)
     in insn OR (imm20 OR imm10_1 OR imm11 OR imm19_12))"

definition enc_branch :: "u32 \<Rightarrow> u64 \<Rightarrow> u32" where
  "enc_branch word val =
    (let insn = word AND 0x1FFF07F;
         imm12 = push_bit 31 (extractBits val 12 12);
         imm10_5 = push_bit 25 (extractBits val 10 5);
         imm4_1 = push_bit 8 (extractBits val 4 1);
         imm11 = push_bit 7 (extractBits val 11 11)
     in insn OR (imm12 OR imm10_5 OR imm4_1 OR imm11))"

definition enc_hi20 :: "u32 \<Rightarrow> u64 \<Rightarrow> u32" where
  "enc_hi20 word val = (let hi = val + 0x800 in (word AND 0xFFF) OR ucast (hi AND 0xFFFFF000))"

definition enc_lo12_i :: "u32 \<Rightarrow> u64 \<Rightarrow> u32" where
  "enc_lo12_i word val =
    (let hi = drop_bit 12 (val + 0x800); lo = val - push_bit 12 hi in setLO12_I word (ucast (lo AND 0xfff)))"

definition enc_lo12_s :: "u32 \<Rightarrow> u64 \<Rightarrow> u32" where
  "enc_lo12_s word val =
    (let hi = drop_bit 12 (val + 0x800); lo = val - push_bit 12 hi in setLO12_S word (ucast lo))"

definition enc_gprel :: "RelType \<Rightarrow> u32 \<Rightarrow> u64 \<Rightarrow> u32" where
  "enc_gprel type word displace =
    (let insn = (word AND NOT (push_bit 15 31)) OR push_bit 15 X_GP in
     if type = INTERNAL_R_RISCV_GPREL_I then setLO12_I insn (ucast displace) else setLO12_S insn (ucast displace))"

text \<open>\<open>*loc\<close> as a byte.\<close>

definition setByte :: "u8 list \<Rightarrow> u8 \<Rightarrow> u8 list" where
  "setByte loc b = b # drop 1 loc"

text \<open>The cases of \<open>relocate\<close> that patch data: differences, settings and thread-local offsets.\<close>

definition relocate_data :: "u8 list \<Rightarrow> RelType \<Rightarrow> u64 \<Rightarrow> (u8 list \<times> diag list) option" where
  "relocate_data loc type val =
    (if type = R_RISCV_ADD8 then Some (setByte loc (hd loc + ucast val), [])
     else if type = R_RISCV_ADD16 then Some (write16le loc (read16le loc + ucast val), [])
     else if type = R_RISCV_ADD32 then Some (write32le loc (read32le loc + ucast val), [])
     else if type = R_RISCV_ADD64 then Some (write64le loc (read64le loc + val), [])
     else if type = R_RISCV_SUB6 then
       Some (setByte loc ((hd loc AND 0xc0) OR (((hd loc AND 0x3f) - ucast val) AND 0x3f)), [])
     else if type = R_RISCV_SUB8 then Some (setByte loc (hd loc - ucast val), [])
     else if type = R_RISCV_SUB16 then Some (write16le loc (read16le loc - ucast val), [])
     else if type = R_RISCV_SUB32 then Some (write32le loc (read32le loc - ucast val), [])
     else if type = R_RISCV_SUB64 then Some (write64le loc (read64le loc - val), [])
     else if type = R_RISCV_SET6 then Some (setByte loc ((hd loc AND 0xc0) OR (ucast val AND 0x3f)), [])
     else if type = R_RISCV_SET8 then Some (setByte loc (ucast val), [])
     else if type = R_RISCV_SET16 then Some (write16le loc (ucast val), [])
     else if type \<in> {R_RISCV_SET32, R_RISCV_32_PCREL, R_RISCV_PLT32} then Some (write32le loc (ucast val), [])
     else if type = R_RISCV_TLS_DTPREL32 then Some (write32le loc (ucast (val - dtpOffset)), [])
     else if type = R_RISCV_TLS_DTPREL64 then Some (write64le loc (val - dtpOffset), [])
     else if type = R_RISCV_RELAX then Some (loc, [])
     else None)"

function relocate :: "config \<Rightarrow> u64 option \<Rightarrow> u8 list \<Rightarrow> RelType \<Rightarrow> u64 \<Rightarrow> (u8 list \<times> diag list) option" where
  "relocate c gp loc type val =
    (let bits = wordsize c * 8 in
     if type = R_RISCV_32 then Some (write32le loc (ucast val), [])
     else if type = R_RISCV_64 then Some (write64le loc val, [])
     else if type = R_RISCV_RVC_BRANCH then
       Some (write16le loc (enc_rvc_branch (read16le loc) val), checkInt val 9 type @ checkAlignment val 2 type)
     else if type = R_RISCV_RVC_JUMP then
       Some (write16le loc (enc_rvc_jump (read16le loc) val), checkInt val 12 type @ checkAlignment val 2 type)
     else if type = R_RISCV_RVC_LUI then
       (let imm = signed_drop_bit 12 (SignExtend64 (val + 0x800) bits) in
        Some (write16le loc (enc_rvc_lui (read16le loc) val imm), checkInt imm 6 type))
     else if type = R_RISCV_JAL then
       Some (write32le loc (enc_jal (read32le loc) val), checkInt val 21 type @ checkAlignment val 2 type)
     else if type = R_RISCV_BRANCH then
       Some (write32le loc (enc_branch (read32le loc) val), checkInt val 13 type @ checkAlignment val 2 type)
     else if type \<in> {R_RISCV_CALL, R_RISCV_CALL_PLT} then
       (let hi = signed_drop_bit 12 (SignExtend64 (val + 0x800) bits); ds = checkInt hi 20 type in
        if isInt 20 hi then
          (case relocate c gp loc R_RISCV_PCREL_HI20 val of
             None \<Rightarrow> None
           | Some (loc1, ds1) \<Rightarrow>
               (case relocate c gp (drop 4 loc1) R_RISCV_PCREL_LO12_I val of
                  None \<Rightarrow> None
                | Some (loc2, ds2) \<Rightarrow> Some (take 4 loc1 @ loc2, ds @ ds1 @ ds2)))
        else Some (loc, ds))
     else if type \<in> {R_RISCV_GOT_HI20, R_RISCV_PCREL_HI20, R_RISCV_TLS_GD_HI20, R_RISCV_TLS_GOT_HI20,
         R_RISCV_TPREL_HI20, R_RISCV_HI20} then
       Some (write32le loc (enc_hi20 (read32le loc) val),
         checkInt (signed_drop_bit 12 (SignExtend64 (val + 0x800) bits)) 20 type)
     else if type \<in> {R_RISCV_PCREL_LO12_I, R_RISCV_TPREL_LO12_I, R_RISCV_LO12_I} then
       Some (write32le loc (enc_lo12_i (read32le loc) val), [])
     else if type \<in> {R_RISCV_PCREL_LO12_S, R_RISCV_TPREL_LO12_S, R_RISCV_LO12_S} then
       Some (write32le loc (enc_lo12_s (read32le loc) val), [])
     else if type \<in> {INTERNAL_R_RISCV_GPREL_I, INTERNAL_R_RISCV_GPREL_S} then
       (case gp of
          None \<Rightarrow> None
        | Some gpVA \<Rightarrow>
            let displace = SignExtend64 (val - gpVA) bits in
            Some (write32le loc (enc_gprel type (read32le loc) displace), checkInt displace 12 type))
     else relocate_data loc type val)"
  by pat_completeness auto
termination
  by (relation "measure (\<lambda>(c, gp, loc, type, val). if type \<in> {R_RISCV_CALL, R_RISCV_CALL_PLT} then 1 else 0)") auto

declare relocate.simps [simp del]

end
