(* ===== verification/RVRelocSound.thy ===== *)
theory RVRelocSound
  imports RVReloc
begin

text \<open>
  What the patched bytes mean. The decoders \<open>dec_*\<close> read the immediate of an instruction as the
  RISC-V specification lays its bits out; they are written independently of the encoders of the
  linker. A locale states what a patcher of an immediate must do, and is interpreted on the four
  jump and branch encoders.
\<close>

section \<open>Immediate fields\<close>

lemma bit_extractBits:
  assumes "b < 63"
  shows "bit (extractBits v b e) n \<longleftrightarrow> n < 32 \<and> n + e \<le> b \<and> bit v (n + e)"
proof -
  have "push_bit (b + 1) 1 - 1 = (mask (b + 1) :: u64)"
    by (simp add: mask_eq_exp_minus_1)
  then show ?thesis
    using assms by (auto simp: extractBits_def bit_simps add.commute less_Suc_eq_le dest: bit_imp_le_length)
qed

lemma upt_9: "[0..<9] = [0, 1, 2, 3, 4, 5, 6, 7, 8]"
  by (simp add: upt_rec)

lemma upt_12: "[0..<12] = [0, 1, 2, 3, 4, 5, 6, 7, 8, 9, 10, 11]"
  by (simp add: upt_rec)

lemma upt_13: "[0..<13] = [0, 1, 2, 3, 4, 5, 6, 7, 8, 9, 10, 11, 12]"
  by (simp add: upt_rec)

lemma upt_16: "[0..<16] = [0, 1, 2, 3, 4, 5, 6, 7, 8, 9, 10, 11, 12, 13, 14, 15]"
  by (simp add: upt_rec)

lemma upt_20: "[0..<20] = [0, 1, 2, 3, 4, 5, 6, 7, 8, 9, 10, 11, 12, 13, 14, 15, 16, 17, 18, 19]"
  by (simp add: upt_rec)

lemma upt_21: "[0..<21] = [0, 1, 2, 3, 4, 5, 6, 7, 8, 9, 10, 11, 12, 13, 14, 15, 16, 17, 18, 19, 20]"
  by (simp add: upt_rec)

lemma upt_32: "[0..<32] = [0, 1, 2, 3, 4, 5, 6, 7, 8, 9, 10, 11, 12, 13, 14, 15, 16, 17, 18, 19, 20, 21, 22, 23, 24, 25, 26, 27, 28, 29, 30, 31]"
  by (simp add: upt_rec)


lemmas upts = upt_9 upt_12 upt_13 upt_16 upt_20 upt_21 upt_32

definition field :: "'a::len word \<Rightarrow> nat \<Rightarrow> nat \<Rightarrow> nat \<Rightarrow> u64" where
  "field w hi lo at = push_bit at (ucast (take_bit (hi + 1 - lo) (drop_bit lo w)))"

lemma bit_field:
  "bit (field (w :: 'a::len word) hi lo at) n \<longleftrightarrow> n < 64 \<and> at \<le> n \<and> n - at + lo \<le> hi \<and> bit w (n - at + lo)"
  by (auto simp: field_def bit_simps add.commute less_diff_conv2 dest: bit_imp_le_length)

definition dec_branch :: "u32 \<Rightarrow> u64" where
  "dec_branch w = SignExtend64 (field w 31 31 12 OR field w 7 7 11 OR field w 30 25 5 OR field w 11 8 1) 13"

definition dec_jal :: "u32 \<Rightarrow> u64" where
  "dec_jal w = SignExtend64 (field w 31 31 20 OR field w 19 12 12 OR field w 20 20 11 OR field w 30 21 1) 21"

definition dec_rvc_branch :: "u16 \<Rightarrow> u64" where
  "dec_rvc_branch w = SignExtend64 (field w 12 12 8 OR field w 6 5 6 OR field w 2 2 5 OR field w 11 10 3 OR field w 4 3 1) 9"

definition dec_rvc_jump :: "u16 \<Rightarrow> u64" where
  "dec_rvc_jump w = SignExtend64 (field w 12 12 11 OR field w 8 8 10 OR field w 10 9 8 OR field w 6 6 7 OR field w 7 7 6
     OR field w 2 2 5 OR field w 11 11 4 OR field w 5 3 1) 12"

lemma enc_keep:
  "enc_branch w v AND 0x1FFF07F = w AND 0x1FFF07F"
  "enc_jal w v AND 0xFFF = w AND 0xFFF"
  "enc_rvc_branch i v AND 0xE383 = i AND 0xE383"
  "enc_rvc_jump i v AND 0xE003 = i AND 0xE003"
  by (rule word_eqI_list; simp add: upts enc_branch_def enc_jal_def enc_rvc_branch_def enc_rvc_jump_def bit_simps bit_extractBits)+

lemma SignExtend64_eqI:
  assumes "0 < B" "B \<le> 64" "list_all (\<lambda>n. bit x n \<longleftrightarrow> n \<noteq> 0 \<and> bit y n) [0..<B]"
  shows "SignExtend64 x B = SignExtend64 (y AND NOT 1) B"
proof (rule bit_word_eqI)
  fix n assume n: "n < LENGTH(64)"
  have "min n (B - 1) < B" using assms(1) by simp
  then have "bit x (min n (B - 1)) \<longleftrightarrow> min n (B - 1) \<noteq> 0 \<and> bit y (min n (B - 1))"
    using assms(3) by (simp add: list_all_iff)
  then show "bit (SignExtend64 x B) n = bit (SignExtend64 (y AND NOT 1) B) n"
    using n assms(1,2) by (auto simp: bit_SignExtend64 bit_simps bit_1_iff)
qed

lemma dec_enc:
  "dec_branch (enc_branch w v) = SignExtend64 (v AND NOT 1) 13"
  "dec_jal (enc_jal w v) = SignExtend64 (v AND NOT 1) 21"
  "dec_rvc_branch (enc_rvc_branch i v) = SignExtend64 (v AND NOT 1) 9"
  "dec_rvc_jump (enc_rvc_jump i v) = SignExtend64 (v AND NOT 1) 12"
  unfolding dec_branch_def dec_jal_def dec_rvc_branch_def dec_rvc_jump_def
  by (rule SignExtend64_eqI; (simp add: upts enc_branch_def enc_jal_def enc_rvc_branch_def enc_rvc_jump_def
      bit_simps bit_extractBits bit_field)?; (simp add: eval_nat_numeral)?)+
section \<open>Patching an immediate\<close>

text \<open>
  \<open>enc\<close> patches an instruction word, \<open>dec\<close> reads the immediate back, \<open>keep\<close> masks the bits that
  must survive, \<open>width\<close> is the width of the signed byte offset, whose lowest bit is not stored.
\<close>

locale field_patcher =
  fixes enc :: "'w::len word \<Rightarrow> u64 \<Rightarrow> 'w word" and dec :: "'w word \<Rightarrow> u64"
    and keep :: "'w word" and width :: nat
  assumes width_range: "0 < width" "width \<le> 64"
    and enc_reads_keep: "enc (w AND keep) v = enc w v"
    and enc_keeps: "enc w v AND keep = w AND keep"
    and dec_enc_law: "dec (enc w v) = SignExtend64 (v AND NOT 1) width"
begin

lemma in_range:
  assumes "checkInt v width t = []" "checkAlignment v 2 t = []"
  shows "SignExtend64 (v AND NOT 1) width = v"
proof -
  have s: "SignExtend64 v width = v"
    using assms(1) by (simp add: checkInt_def split: if_splits)
  have "v AND 1 = 0"
    using assms(2) by (simp add: checkAlignment_def split: if_splits)
  then have "\<not> bit v 0" by (simp only: and_one_eq_0_iff simp_thms)
  have "v AND NOT 1 = v"
  proof (rule bit_word_eqI)
    fix n assume "n < LENGTH(64)"
    then show "bit (v AND NOT 1) n = bit v n"
      using \<open>\<not> bit v 0\<close> by (cases n) (simp_all add: bit_and_iff bit_not_iff bit_1_iff)
  qed
  then show ?thesis by (simp only: s)
qed

lemma roundtrip:
  assumes "checkInt v width t = []" "checkAlignment v 2 t = []"
  shows "dec (enc w v) = v"
  using in_range [OF assms] by (simp only: dec_enc_law)

lemma overwrite: "enc (enc w v) v' = enc w v'"
proof -
  have "enc (enc w v) v' = enc (enc w v AND keep) v'" by (simp only: enc_reads_keep)
  also have "\<dots> = enc w v'" by (simp only: enc_keeps enc_reads_keep)
  finally show ?thesis .
qed

lemma distinguishes:
  assumes "checkInt v width t = []" "checkAlignment v 2 t = []"
    "checkInt v' width t = []" "checkAlignment v' 2 t = []" "enc w v = enc w v'"
  shows "v = v'"
  using roundtrip [OF assms(1,2)] roundtrip [OF assms(3,4)] assms(5) by metis

end

lemma enc_reads_masked:
  "enc_branch (w AND 0x1FFF07F) v = enc_branch w v" "enc_jal (w AND 0xFFF) v = enc_jal w v"
  "enc_rvc_branch (i AND 0xE383) v = enc_rvc_branch i v" "enc_rvc_jump (i AND 0xE003) v = enc_rvc_jump i v"
  by (simp_all add: enc_branch_def enc_jal_def enc_rvc_branch_def enc_rvc_jump_def and.assoc)

interpretation branch: field_patcher enc_branch dec_branch "0x1FFF07F" 13
  by unfold_locales (simp_all add: enc_reads_masked enc_keep dec_enc)

interpretation jal: field_patcher enc_jal dec_jal "0xFFF" 21
  by unfold_locales (simp_all add: enc_reads_masked enc_keep dec_enc)

interpretation rvc_branch: field_patcher enc_rvc_branch dec_rvc_branch "0xE383" 9
  by unfold_locales (simp_all add: enc_reads_masked enc_keep dec_enc)

interpretation rvc_jump: field_patcher enc_rvc_jump dec_rvc_jump "0xE003" 12
  by unfold_locales (simp_all add: enc_reads_masked enc_keep dec_enc)

section \<open>Reading and writing words\<close>

lemma length_mem_bytes [simp]: "length (mem_bytes (v :: 'a::len word)) = LENGTH('a) div 8"
  by (simp add: mem_bytes_def)

lemma bit_of_mem_bytes:
  "bit (of_mem_bytes bs :: 'a::len word) n \<longleftrightarrow> n < LENGTH('a) \<and> n div 8 < length bs \<and> bit (bs ! (n div 8)) (n mod 8)"
proof (induction bs arbitrary: n)
  case (Cons b bs)
  have rec: "of_mem_bytes (b # bs) = (push_bit 8 (of_mem_bytes bs) OR ucast b :: 'a word)"
    by (simp add: of_mem_bytes_def)
  show ?case
  proof (cases "n < 8")
    case True
    then show ?thesis by (simp add: rec bit_simps)
  next
    case False
    then obtain k where k: "n = k + 8" by (metis add.commute le_Suc_ex not_less)
    have "\<not> bit b (k + 8)" using bit_imp_le_length [of b "k + 8"] by auto
    moreover have "(k + 8) div 8 = Suc (k div 8)" "(k + 8) mod 8 = k mod 8" by simp_all
    ultimately show ?thesis unfolding k by (auto simp: rec bit_simps Cons.IH)
  qed
qed (simp add: of_mem_bytes_def)

lemma of_mem_bytes_mem_bytes:
  assumes "8 dvd LENGTH('a::len)"
  shows "of_mem_bytes (mem_bytes v) = (v :: 'a word)"
proof (rule bit_word_eqI)
  fix n assume n: "n < LENGTH('a)"
  then have "n div 8 < LENGTH('a) div 8"
    using assms by (metis dvd_div_mult_self less_mult_imp_div_less)
  moreover have "8 * (n div 8) + n mod 8 = n" by simp
  ultimately show "bit (of_mem_bytes (mem_bytes v) :: 'a word) n = bit v n"
    using n unfolding bit_of_mem_bytes by (simp add: mem_bytes_def bit_simps)
qed

lemma read_write [simp]:
  "read16le (write16le P V16) = V16" "read32le (write32le P V32) = V32" "read64le (write64le P V64) = V64"
  by (simp_all add: read16le_def write16le_def read32le_def write32le_def read64le_def write64le_def
      of_mem_bytes_mem_bytes)

lemma length_write [simp]:
  "2 \<le> length P \<Longrightarrow> length (write16le P V16) = length P"
  "4 \<le> length P \<Longrightarrow> length (write32le P V32) = length P"
  "8 \<le> length P \<Longrightarrow> length (write64le P V64) = length P"
  by (simp_all add: write16le_def write32le_def write64le_def)

lemma drop_write [simp]:
  "2 \<le> k \<Longrightarrow> drop k (write16le P V16) = drop k P"
  "4 \<le> k \<Longrightarrow> drop k (write32le P V32) = drop k P"
  "8 \<le> k \<Longrightarrow> drop k (write64le P V64) = drop k P"
  by (auto simp: write16le_def write32le_def write64le_def nat_le_iff_add add.commute)

lemma take_4_write32le [simp]: "take 4 (write32le P V) = mem_bytes V"
  by (simp add: write32le_def)

section \<open>Upper and lower halves\<close>

definition dec_u :: "u32 \<Rightarrow> u64" where
  "dec_u w = SignExtend64 (field w 31 12 12) 32"

definition dec_i :: "u32 \<Rightarrow> u64" where
  "dec_i w = SignExtend64 (field w 31 20 0) 12"

definition dec_s :: "u32 \<Rightarrow> u64" where
  "dec_s w = SignExtend64 (field w 31 25 5 OR field w 11 7 0) 12"

lemma SignExtend64_cong:
  assumes "0 < B" "B \<le> 64" "\<And>n. n < B \<Longrightarrow> bit x n \<longleftrightarrow> bit y n"
  shows "SignExtend64 x B = SignExtend64 y B"
  by (rule bit_word_eqI) (use assms in \<open>simp add: bit_SignExtend64 min_def\<close>)

lemma bit_0xFFFFF000: "bit (0xFFFFF000 :: u64) n \<longleftrightarrow> 12 \<le> n \<and> n < 32"
proof -
  have "(0xFFFFF000 :: u64) = push_bit 12 (mask 20)" by (simp add: mask_eq_exp_minus_1)
  then show ?thesis by (auto simp only: bit_push_bit_iff bit_mask_iff possible_bit_word) auto
qed

lemma bit_0xFFF: "bit (0xFFF :: 'a::len word) n \<longleftrightarrow> n < 12 \<and> n < LENGTH('a)"
proof -
  have "(0xFFF :: 'a word) = mask 12" by (simp add: mask_eq_exp_minus_1)
  then show ?thesis by (auto simp only: bit_mask_iff possible_bit_word)
qed

lemma enc_hi20_keep: "enc_hi20 w v AND 0xFFF = w AND 0xFFF"
  unfolding enc_hi20_def Let_def
  by (rule bit_word_eqI)
    (auto simp only: bit_and_iff bit_or_iff bit_0xFFF bit_0xFFFFF000 bit_unsigned_iff possible_bit_word)

lemma dec_u_enc_hi20: "dec_u (enc_hi20 w v) = SignExtend64 ((v + 0x800) AND NOT 0xFFF) 32"
  unfolding dec_u_def
proof (rule SignExtend64_cong)
  fix n :: nat assume n: "n < 32"
  show "bit (field (enc_hi20 w v) 31 12 12) n \<longleftrightarrow> bit ((v + 0x800) AND NOT 0xFFF) n"
    unfolding enc_hi20_def Let_def
    using n by (auto simp only: bit_field bit_and_iff bit_or_iff bit_not_iff bit_0xFFF bit_0xFFFFF000 bit_unsigned_iff possible_bit_word) simp_all
qed simp_all

lemma low12_of_difference: "n < 12 \<Longrightarrow> bit (v - push_bit 12 x) n \<longleftrightarrow> bit (v :: u64) n"
proof -
  assume n: "n < 12"
  define K where "K = uint v - push_bit 12 (uint x)"
  have "v - push_bit 12 x = word_of_int K"
    by (simp add: K_def push_bit_eq_mult)
  then have "bit (v - push_bit 12 x) n \<longleftrightarrow> bit (take_bit 12 K) n"
    using n by (simp add: bit_word_of_int_iff bit_take_bit_iff)
  also have "take_bit 12 K = take_bit 12 (uint v - push_bit 12 (uint x))" by (simp only: K_def)
  also have "take_bit 12 (uint v - push_bit 12 (uint x)) = take_bit 12 (take_bit 12 (uint v) - take_bit 12 (push_bit 12 (uint x)))"
    by (simp only: take_bit_diff)
  also have "\<dots> = take_bit 12 (uint v)" by (simp add: take_bit_push_bit)
  finally show ?thesis using n by (simp add: bit_take_bit_iff bit_uint_iff)
qed

lemma enc_lo12_keep: "enc_lo12_i w v AND 0xFFFFF = w AND 0xFFFFF" "enc_lo12_s w v AND 0x1FFF07F = w AND 0x1FFF07F"
  by (rule word_eqI_list; simp add: upts enc_lo12_i_def enc_lo12_s_def Let_def setLO12_I_def setLO12_S_def bit_simps bit_extractBits)+

lemma dec_setLO12:
  "dec_i (setLO12_I w (ucast x)) = SignExtend64 x 12" "dec_s (setLO12_S w (ucast x)) = SignExtend64 x 12"
proof -
  have "list_all (\<lambda>n. bit (field (setLO12_I w (ucast x)) 31 20 0) n \<longleftrightarrow> bit x n) [0..<12]"
    by (simp add: upts setLO12_I_def bit_simps bit_field) (simp add: eval_nat_numeral)?
  then show "dec_i (setLO12_I w (ucast x)) = SignExtend64 x 12"
    unfolding dec_i_def by (intro SignExtend64_cong) (simp_all add: list_all_iff)
  have "list_all (\<lambda>n. bit (field (setLO12_S w (ucast x)) 31 25 5 OR field (setLO12_S w (ucast x)) 11 7 0) n \<longleftrightarrow> bit x n) [0..<12]"
    apply (simp add: upts setLO12_S_def bit_simps bit_field bit_extractBits)
    apply (simp add: eval_nat_numeral)?
    done
  then show "dec_s (setLO12_S w (ucast x)) = SignExtend64 x 12"
    unfolding dec_s_def by (intro SignExtend64_cong) (simp_all add: list_all_iff)
qed

lemma dec_lo12:
  "dec_i (enc_lo12_i w v) = SignExtend64 v 12" "dec_s (enc_lo12_s w v) = SignExtend64 v 12"
proof -
  have "SignExtend64 ((v - push_bit 12 x) AND 0xfff) 12 = SignExtend64 v 12" for x
    by (rule SignExtend64_cong) (simp_all only: bit_and_iff bit_0xFFF low12_of_difference, simp_all)
  then show "dec_i (enc_lo12_i w v) = SignExtend64 v 12"
    unfolding enc_lo12_i_def Let_def dec_setLO12 .
  have "SignExtend64 (v - push_bit 12 x) 12 = SignExtend64 v 12" for x
    by (rule SignExtend64_cong) (simp_all add: low12_of_difference)
  then show "dec_s (enc_lo12_s w v) = SignExtend64 v 12"
    unfolding enc_lo12_s_def Let_def dec_setLO12 .
qed

lemma checkInt_iff: "checkInt v n t = [] \<longleftrightarrow> SignExtend64 v n = v"
  by (auto simp: checkInt_def)

text \<open>An upper and a lower half add up to the relocated value.\<close>

lemma hi_lo_sum:
  assumes "checkInt (signed_drop_bit 12 (SignExtend64 (v + 0x800) 64)) 20 t = []"
  shows "dec_u (enc_hi20 w v) + SignExtend64 v 12 = v"
proof -
  let ?y = "v + 0x800"
  have y: "SignExtend64 ?y 64 = ?y"
    by (rule bit_word_eqI) (simp add: bit_SignExtend64 min_def)
  have s: "SignExtend64 (signed_drop_bit 12 ?y) 20 = signed_drop_bit 12 ?y"
    using assms unfolding y checkInt_iff .
  have "SignExtend64 (?y AND NOT 0xFFF) 32 = ?y AND NOT 0xFFF"
  proof (rule bit_word_eqI)
    fix n assume n: "n < LENGTH(64)"
    have "bit (SignExtend64 (signed_drop_bit 12 ?y) 20) (n - 12) = bit (signed_drop_bit 12 ?y) (n - 12)"
      by (simp only: s)
    then have "bit ?y n = bit ?y 31" if "32 \<le> n"
      using that n by (simp add: bit_SignExtend64 bit_signed_drop_bit_iff min_def split: if_splits)
    moreover have "bit (SignExtend64 (?y AND NOT 0xFFF) 32) n = bit (?y AND NOT 0xFFF) (if n < 32 then n else 31)"
      using n by (simp add: bit_SignExtend64 min_def)
    moreover have "bit (?y AND NOT 0xFFF) k = (bit ?y k \<and> \<not> k < 12 \<and> k < 64)" for k
      by (auto simp only: bit_and_iff bit_not_iff bit_0xFFF possible_bit_word) simp_all
    ultimately show "bit (SignExtend64 (?y AND NOT 0xFFF) 32) n = bit (?y AND NOT 0xFFF) n"
      using n by simp
  qed
  then show ?thesis
    using Hi52_Lo12 [of v] by (simp only: dec_u_enc_hi20)
qed

lemma hi_lo_sum32: "ucast (dec_u (enc_hi20 w v) + SignExtend64 v 12) = (ucast v :: u32)"
proof -
  have "ucast (SignExtend64 x 32) = (ucast x :: u32)" for x :: u64
    by (rule bit_word_eqI) (simp add: bit_unsigned_iff bit_SignExtend64 min_def)
  moreover have "ucast (a + b) = (ucast a + ucast b :: u32)" for a b :: u64
    using ucast_word_of_int_down [where 'a = 64 and 'b = 32, of "uint a + uint b"] by simp
  ultimately show ?thesis
    using Hi52_Lo12 [of v] by (metis dec_u_enc_hi20)
qed


section \<open>One relocation at a time\<close>

lemma relocate_jumps:
  "relocate c gp loc R_RISCV_RVC_BRANCH val =
    Some (write16le loc (enc_rvc_branch (read16le loc) val), checkInt val 9 R_RISCV_RVC_BRANCH @ checkAlignment val 2 R_RISCV_RVC_BRANCH)"
  "relocate c gp loc R_RISCV_RVC_JUMP val =
    Some (write16le loc (enc_rvc_jump (read16le loc) val), checkInt val 12 R_RISCV_RVC_JUMP @ checkAlignment val 2 R_RISCV_RVC_JUMP)"
  "relocate c gp loc R_RISCV_JAL val =
    Some (write32le loc (enc_jal (read32le loc) val), checkInt val 21 R_RISCV_JAL @ checkAlignment val 2 R_RISCV_JAL)"
  "relocate c gp loc R_RISCV_BRANCH val =
    Some (write32le loc (enc_branch (read32le loc) val), checkInt val 13 R_RISCV_BRANCH @ checkAlignment val 2 R_RISCV_BRANCH)"
  by (subst relocate.simps, simp add: Let_def)+

definition hi20_types :: "RelType set" where
  "hi20_types = {R_RISCV_GOT_HI20, R_RISCV_PCREL_HI20, R_RISCV_TLS_GD_HI20, R_RISCV_TLS_GOT_HI20,
     R_RISCV_TPREL_HI20, R_RISCV_HI20}"

definition lo12_i_types :: "RelType set" where
  "lo12_i_types = {R_RISCV_PCREL_LO12_I, R_RISCV_TPREL_LO12_I, R_RISCV_LO12_I}"

definition lo12_s_types :: "RelType set" where
  "lo12_s_types = {R_RISCV_PCREL_LO12_S, R_RISCV_TPREL_LO12_S, R_RISCV_LO12_S}"

lemma relocate_halves:
  "t \<in> hi20_types \<Longrightarrow> relocate c gp loc t val =
    Some (write32le loc (enc_hi20 (read32le loc) val),
      checkInt (signed_drop_bit 12 (SignExtend64 (val + 0x800) (wordsize c * 8))) 20 t)"
  "t \<in> lo12_i_types \<Longrightarrow> relocate c gp loc t val = Some (write32le loc (enc_lo12_i (read32le loc) val), [])"
  "t \<in> lo12_s_types \<Longrightarrow> relocate c gp loc t val = Some (write32le loc (enc_lo12_s (read32le loc) val), [])"
  by (auto simp: hi20_types_def lo12_i_types_def lo12_s_types_def relocate.simps Let_def)

lemma relocate_call_eq:
  fixes c :: config and val :: u64
  assumes "t \<in> {R_RISCV_CALL, R_RISCV_CALL_PLT}" "8 \<le> length loc"
  defines "hi \<equiv> signed_drop_bit 12 (SignExtend64 (val + 0x800) (wordsize c * 8))"
  shows "relocate c gp loc t val =
    (if isInt 20 hi
     then Some (mem_bytes (enc_hi20 (read32le loc) val) @ write32le (drop 4 loc) (enc_lo12_i (read32le (drop 4 loc)) val),
       checkInt hi 20 t @ checkInt hi 20 R_RISCV_PCREL_HI20)
     else Some (loc, checkInt hi 20 t))"
proof -
  have "relocate c gp loc R_RISCV_PCREL_HI20 val = Some (write32le loc (enc_hi20 (read32le loc) val), checkInt hi 20 R_RISCV_PCREL_HI20)"
    unfolding hi_def by (rule relocate_halves) (simp add: hi20_types_def)
  moreover have "relocate c gp l R_RISCV_PCREL_LO12_I val = Some (write32le l (enc_lo12_i (read32le l) val), [])" for l
    by (rule relocate_halves) (simp add: lo12_i_types_def)
  ultimately show ?thesis
    using assms(1,2) by (subst relocate.simps) (auto simp: Let_def hi_def [symmetric])
qed

lemma isInt_SignExtend64: 
  assumes "0 < n" "n \<le> 64"
  shows "isInt n v \<longleftrightarrow> SignExtend64 v n = v"
proof -
  have "sint (SignExtend64 v n) = signed_take_bit (n - 1) (sint v)"
  proof -
    have "n - 1 \<le> 63" using assms by simp
    then show ?thesis
      unfolding sint_SignExtend64 [OF assms] sint_uint [of v] by (simp add: min_absorb1)
  qed
  then have "SignExtend64 v n = v \<longleftrightarrow> signed_take_bit (n - 1) (sint v) = sint v"
    by (metis signed_word_eqI)
  then show ?thesis
    by (simp only: isInt_iff_aux [OF assms] signed_take_bit_int_eq_self_iff)
qed

lemma read32le_append: "read32le (mem_bytes (w :: u32) @ xs) = w"
  using read_write(2) [of xs w] by (simp add: read32le_def of_mem_bytes_mem_bytes)


section \<open>Properties\<close>

text \<open>The offset a jump or branch at a location encodes, and the bits that are not part of it.\<close>

definition jump_offset :: "RelType \<Rightarrow> u8 list \<Rightarrow> u64" where
  "jump_offset t loc =
    (if t = R_RISCV_RVC_BRANCH then dec_rvc_branch (read16le loc)
     else if t = R_RISCV_RVC_JUMP then dec_rvc_jump (read16le loc)
     else if t = R_RISCV_JAL then dec_jal (read32le loc) else dec_branch (read32le loc))"

definition jump_fixed :: "RelType \<Rightarrow> u8 list \<Rightarrow> u32" where
  "jump_fixed t loc =
    (if t = R_RISCV_RVC_BRANCH then ucast (read16le loc AND 0xE383)
     else if t = R_RISCV_RVC_JUMP then ucast (read16le loc AND 0xE003)
     else if t = R_RISCV_JAL then read32le loc AND 0xFFF else read32le loc AND 0x1FFF07F)"

definition jump_width :: "RelType \<Rightarrow> nat" where
  "jump_width t = (if t = R_RISCV_RVC_BRANCH then 9 else if t = R_RISCV_RVC_JUMP then 12
     else if t = R_RISCV_JAL then 21 else 13)"

definition jump_size :: "RelType \<Rightarrow> nat" where
  "jump_size t = (if t \<in> {R_RISCV_RVC_BRANCH, R_RISCV_RVC_JUMP} then 2 else 4)"

lemma jump_relocated:
  assumes "t \<in> {R_RISCV_RVC_BRANCH, R_RISCV_RVC_JUMP, R_RISCV_JAL, R_RISCV_BRANCH}"
    "relocate c gp loc t val = Some (loc', [])"
  shows "jump_offset t loc' = val \<and> jump_fixed t loc' = jump_fixed t loc \<and>
    drop (jump_size t) loc' = drop (jump_size t) loc"
proof -
  consider "t = R_RISCV_RVC_BRANCH" "loc' = write16le loc (enc_rvc_branch (read16le loc) val)"
      "checkInt val 9 t = []" "checkAlignment val 2 t = []"
    | "t = R_RISCV_RVC_JUMP" "loc' = write16le loc (enc_rvc_jump (read16le loc) val)"
      "checkInt val 12 t = []" "checkAlignment val 2 t = []"
    | "t = R_RISCV_JAL" "loc' = write32le loc (enc_jal (read32le loc) val)"
      "checkInt val 21 t = []" "checkAlignment val 2 t = []"
    | "t = R_RISCV_BRANCH" "loc' = write32le loc (enc_branch (read32le loc) val)"
      "checkInt val 13 t = []" "checkAlignment val 2 t = []"
    using assms by (auto simp: relocate_jumps)
  then show ?thesis
  proof cases
    case 1
    then show ?thesis using rvc_branch.roundtrip [OF 1(3,4)]
      by (simp add: jump_offset_def jump_fixed_def jump_size_def enc_keep)
  next
    case 2
    then show ?thesis using rvc_jump.roundtrip [OF 2(3,4)]
      by (simp add: jump_offset_def jump_fixed_def jump_size_def enc_keep)
  next
    case 3
    then show ?thesis using jal.roundtrip [OF 3(3,4)]
      by (simp add: jump_offset_def jump_fixed_def jump_size_def enc_keep)
  next
    case 4
    then show ?thesis using branch.roundtrip [OF 4(3,4)]
      by (simp add: jump_offset_def jump_fixed_def jump_size_def enc_keep)
  qed
qed

lemmas jump_offset_relocated = jump_relocated [THEN conjunct1]

text \<open>C4: a jump or branch relocation that reports no error leaves an instruction whose offset,
  read back as the ISA defines it, is the relocated value; opcode, registers and function code
  are unchanged and so is every byte after the instruction.\<close>

theorem relocate_jump_sound:
  assumes "t \<in> {R_RISCV_RVC_BRANCH, R_RISCV_RVC_JUMP, R_RISCV_JAL, R_RISCV_BRANCH}"
    "relocate c gp loc t val = Some (loc', [])"
  shows "jump_offset t loc' = val \<and> jump_fixed t loc' = jump_fixed t loc \<and>
    drop (jump_size t) loc' = drop (jump_size t) loc"
  by (rule jump_relocated [OF assms])

lemma relocate_jump_sound_witness:
  "jump_offset R_RISCV_JAL [0xef, 0x10, 0, 0, 7] = 0x1000 \<and>
    jump_fixed R_RISCV_JAL [0xef, 0x10, 0, 0, 7] = jump_fixed R_RISCV_JAL [0xef, 0, 0, 0, 7]"
proof -
  have "relocate \<lparr>is64 = True, cfg_relax = True, cfg_eflags = 0, writeAddends = False\<rparr> None [0xef, 0, 0, 0, 7] R_RISCV_JAL 0x1000 =
    Some ([0xef, 0x10, 0, 0, 7], [])"
    by code_simp
  from relocate_jump_sound [OF _ this] show ?thesis by simp
qed

text \<open>C5: a jump or branch relocation reports an error exactly when its value is odd or outside
  the range of the instruction.\<close>

theorem relocate_jump_error:
  assumes "t \<in> {R_RISCV_RVC_BRANCH, R_RISCV_RVC_JUMP, R_RISCV_JAL, R_RISCV_BRANCH}"
  shows "\<exists>loc' ds. relocate c gp loc t val = Some (loc', ds) \<and>
    (ds = [] \<longleftrightarrow> isInt (jump_width t) val \<and> \<not> bit val 0)"
proof -
  have a: "checkAlignment val 2 t = [] \<longleftrightarrow> \<not> bit val 0" for t
    using and_one_eq_0_iff [of val] by (simp add: checkAlignment_def)
  have i: "checkInt val n t = [] \<longleftrightarrow> isInt n val" if "n \<in> {9, 12, 13, 21}" for n t
    using that isInt_SignExtend64 [of n val] by (auto simp: checkInt_iff)
  show ?thesis
    using assms by (auto simp: relocate_jumps a i jump_width_def simp del: bit_0)
qed

lemma relocate_jump_error_witness:
  "\<exists>loc' ds. relocate \<lparr>is64 = True, cfg_relax = True, cfg_eflags = 0, writeAddends = False\<rparr> None
      [0x63, 0, 0, 0] R_RISCV_BRANCH 0x1000 = Some (loc', ds) \<and> ds \<noteq> []"
proof -
  have "\<not> isInt 13 0x1000" by code_simp
  then show ?thesis
    using relocate_jump_error [of R_RISCV_BRANCH "\<lparr>is64 = True, cfg_relax = True, cfg_eflags = 0, writeAddends = False\<rparr>" None
        "[0x63, 0, 0, 0]" "0x1000"]
    by (auto simp: jump_width_def)
qed

text \<open>C6: when a call relocation reports no error, the immediates of the \<open>auipc\<close> and the
  \<open>jalr\<close> add up to the relocated value (modulo \<open>2 ^ 32\<close> on RV32), although the lower one is
  sign-extended; both instructions keep their opcodes and registers.\<close>

theorem relocate_call_sound:
  assumes "t \<in> {R_RISCV_CALL, R_RISCV_CALL_PLT}" "8 \<le> length loc"
    "relocate c gp loc t val = Some (loc', [])"
  shows "(if is64 c then dec_u (read32le loc') + dec_i (read32le (drop 4 loc')) = val
      else ucast (dec_u (read32le loc') + dec_i (read32le (drop 4 loc'))) = (ucast val :: u32)) \<and>
    read32le loc' AND 0xFFF = read32le loc AND 0xFFF \<and>
    read32le (drop 4 loc') AND 0xFFFFF = read32le (drop 4 loc) AND 0xFFFFF \<and>
    drop 8 loc' = drop 8 loc"
proof -
  let ?hi = "signed_drop_bit 12 (SignExtend64 (val + 0x800) (wordsize c * 8))"
  have hi: "isInt 20 ?hi" "checkInt ?hi 20 t = []"
    and loc': "loc' = mem_bytes (enc_hi20 (read32le loc) val) @ write32le (drop 4 loc) (enc_lo12_i (read32le (drop 4 loc)) val)"
    using assms(3) isInt_SignExtend64 [of 20 ?hi]
    by (auto simp: relocate_call_eq [OF assms(1,2)] checkInt_iff split: if_splits)
  have "is64 c \<Longrightarrow> dec_u (enc_hi20 (read32le loc) val) + SignExtend64 val 12 = val"
    using hi(2) by (intro hi_lo_sum) (simp add: wordsize_def)
  then show ?thesis
    using hi_lo_sum32 [of "read32le loc" val]
    by (simp add: loc' read32le_append dec_lo12 enc_hi20_keep enc_lo12_keep)
qed

lemma relocate_call_sound_witness:
  "dec_u (read32le [0x97, 0x30, 0, 0, 0xe7, 0x80, 0, 0x80]) + dec_i (read32le [0xe7, 0x80, 0, 0x80]) = 0x2800"
proof -
  have "relocate \<lparr>is64 = True, cfg_relax = True, cfg_eflags = 0, writeAddends = False\<rparr> None
      [0x97, 0, 0, 0, 0xe7, 0x80, 0, 0] R_RISCV_CALL 0x2800 =
    Some ([0x97, 0x30, 0, 0, 0xe7, 0x80, 0, 0x80], [])"
    by code_simp
  from relocate_call_sound [OF _ _ this] show ?thesis by simp
qed

text \<open>C7: an upper-half and a lower-half relocation of the same value, applied to two separate
  instructions, add up to the value whenever the upper one reports no error; this covers the
  \<open>lui\<close>/\<open>auipc\<close> forms and both the I- and the S-format of the lower half.\<close>

theorem relocate_hi_lo_sound:
  assumes "thi \<in> hi20_types" "tlo \<in> lo12_i_types \<union> lo12_s_types"
    "relocate c gp loc1 thi val = Some (loc1', [])" "relocate c gp loc2 tlo val = Some (loc2', ds)"
  defines "lo \<equiv> (if tlo \<in> lo12_i_types then dec_i (read32le loc2') else dec_s (read32le loc2'))"
  shows "ds = [] \<and>
    (if is64 c then dec_u (read32le loc1') + lo = val
     else ucast (dec_u (read32le loc1') + lo) = (ucast val :: u32))"
proof -
  have l1: "loc1' = write32le loc1 (enc_hi20 (read32le loc1) val)"
    and chk: "checkInt (signed_drop_bit 12 (SignExtend64 (val + 0x800) (wordsize c * 8))) 20 thi = []"
    using assms(3) by (simp_all add: relocate_halves(1) [OF assms(1)])
  have disj: "tlo \<in> lo12_s_types \<Longrightarrow> tlo \<notin> lo12_i_types"
    by (auto simp: lo12_i_types_def lo12_s_types_def)
  have lo: "ds = [] \<and> lo = SignExtend64 val 12"
    using assms(2,4) disj by (auto simp: lo_def relocate_halves dec_lo12)
  have "is64 c \<Longrightarrow> dec_u (enc_hi20 (read32le loc1) val) + SignExtend64 val 12 = val"
    using chk by (intro hi_lo_sum) (simp add: wordsize_def)
  then show ?thesis
    using lo hi_lo_sum32 [of "read32le loc1" val] by (simp add: l1)
qed

lemma relocate_hi_lo_sound_witness:
  "dec_u (read32le [0x37, 0x35, 0, 0]) + dec_s (read32le [0x23, 0x20, 0xb5, 0x80]) = 0x2800"
proof -
  have 1: "relocate \<lparr>is64 = True, cfg_relax = True, cfg_eflags = 0, writeAddends = False\<rparr> None
      [0x37, 0x05, 0, 0] R_RISCV_HI20 0x2800 = Some ([0x37, 0x35, 0, 0], [])"
    by code_simp
  have 2: "relocate \<lparr>is64 = True, cfg_relax = True, cfg_eflags = 0, writeAddends = False\<rparr> None
      [0x23, 0x20, 0xb5, 0] R_RISCV_LO12_S 0x2800 = Some ([0x23, 0x20, 0xb5, 0x80], [])"
    by code_simp
  from relocate_hi_lo_sound [OF _ _ 1 2] show ?thesis
    by (simp add: hi20_types_def lo12_i_types_def lo12_s_types_def)
qed


text \<open>The number of bytes a relocation patches.\<close>

definition patch_size :: "RelType \<Rightarrow> nat" where
  "patch_size t =
    (if t = R_RISCV_RELAX then 0
     else if t \<in> {R_RISCV_ADD8, R_RISCV_SUB6, R_RISCV_SUB8, R_RISCV_SET6, R_RISCV_SET8} then 1
     else if t \<in> {R_RISCV_RVC_BRANCH, R_RISCV_RVC_JUMP, R_RISCV_RVC_LUI, R_RISCV_ADD16, R_RISCV_SUB16, R_RISCV_SET16} then 2
     else if t \<in> {R_RISCV_64, R_RISCV_CALL, R_RISCV_CALL_PLT, R_RISCV_ADD64, R_RISCV_SUB64, R_RISCV_TLS_DTPREL64} then 8
     else 4)"

lemma patched_bytes:
  "2 \<le> length l \<Longrightarrow> length (write16le l v) = length l \<and> drop 2 (write16le l v) = drop 2 l"
  "4 \<le> length l \<Longrightarrow> length (write32le l w) = length l \<and> drop 4 (write32le l w) = drop 4 l"
  "8 \<le> length l \<Longrightarrow> length (write64le l x) = length l \<and> drop 8 (write64le l x) = drop 8 l"
  "1 \<le> length l \<Longrightarrow> length (setByte l b) = length l \<and> drop 1 (setByte l b) = drop 1 l"
  by (simp_all add: setByte_def)

text \<open>A relocation writes only the bytes of its own field: the section keeps its length and
  every byte from the end of the field on keeps its value, whatever diagnostics are reported.\<close>

theorem relocate_frame:
  assumes "relocate c gp loc t val = Some (loc', ds)" "patch_size t \<le> length loc"
  shows "length loc' = length loc \<and> drop (patch_size t) loc' = drop (patch_size t) loc"
proof (cases "t \<in> {R_RISCV_CALL, R_RISCV_CALL_PLT}")
  case True
  then have "8 \<le> length loc" and [simp]: "patch_size t = 8"
    using assms(2) by (auto simp: patch_size_def)
  then show ?thesis
    using assms(1) unfolding relocate_call_eq [OF True \<open>8 \<le> length loc\<close>]
    by (auto split: if_splits)
next
  case False
  then show ?thesis
    using assms
    by (cases t) (auto simp: relocate.simps Let_def relocate_data_def patch_size_def patched_bytes [simplified]
      split: if_splits option.splits)
qed

lemma relocate_frame_witness:
  "drop (patch_size R_RISCV_ADD16) [0x34, 0x12, 0xff :: u8] = drop (patch_size R_RISCV_ADD16) [0x30, 0x12, 0xff]"
proof -
  have "relocate \<lparr>is64 = True, cfg_relax = True, cfg_eflags = 0, writeAddends = False\<rparr> None
      [0x30, 0x12, 0xff] R_RISCV_ADD16 4 = Some ([0x34, 0x12, 0xff], [])"
    by code_simp
  from relocate_frame [OF this] show ?thesis by (simp add: patch_size_def)
qed

text \<open>The instruction words of a PLT entry.\<close>

definition word_at :: "u8 list \<Rightarrow> nat \<Rightarrow> u32" where
  "word_at buf i = read32le (drop (4 * i) buf)"

lemma word_at_writeWords:
  assumes "i < length ws"
  shows "word_at (writeWords buf ws) i = ws ! i"
proof -
  have "drop (4 * i) (concat (map mem_bytes ws)) = concat (map mem_bytes (drop i (ws :: u32 list)))" for i
  proof (induction i arbitrary: ws)
    case (Suc i)
    then show ?case by (cases ws) (simp_all add: drop_Cons')
  qed simp
  moreover have "drop i ws = ws ! i # drop (Suc i) ws"
    using assms by (simp add: Cons_nth_drop_Suc)
  moreover have "length (concat (map mem_bytes ws)) = 4 * length (ws :: u32 list)" for ws
    by (induction ws) simp_all
  ultimately show ?thesis
    using assms by (simp add: word_at_def writeWords_def read32le_append)
qed

lemma utype_hi20:
  assumes "op OR push_bit 7 rd = w" "w AND 0xFFF = w"
  shows "utype op rd (hi20 (ucast v)) = enc_hi20 w v"
proof -
  have u: "ucast v + 0x800 = (ucast (v + 0x800) :: u32)"
    using ucast_word_of_int_down [where 'a = 64 and 'b = 32, of "uint v + 0x800"] by simp
  have *: "push_bit 12 (drop_bit 12 (ucast y :: u32)) = ucast (y AND 0xFFFFF000)" for y :: u64
    by (rule bit_word_eqI)
      (auto simp only: bit_push_bit_iff bit_drop_bit_eq comp_def bit_unsigned_iff bit_and_iff bit_0xFFFFF000
        possible_bit_word le_add_diff_inverse, simp_all)
  have "utype op rd (hi20 (ucast v)) = (op OR push_bit 7 rd) OR ucast ((v + 0x800) AND 0xFFFFF000)"
    unfolding utype_def hi20_def u * by (simp only: or.assoc)
  also have "\<dots> = enc_hi20 w v"
    unfolding assms(1) enc_hi20_def Let_def assms(2) ..
  finally show ?thesis .
qed

lemma itype_lo12:
  assumes "op OR push_bit 7 rd OR push_bit 15 rs1 = w" "w AND 0xfffff = w"
  shows "dec_i (itype op rd rs1 (lo12 (ucast v))) = SignExtend64 v 12"
proof -
  have m: "(4095 :: 'a::len word) = mask 12"
    by (simp add: mask_eq_exp_minus_1)
  have "lo12 (ucast v) = ucast (v AND 0xfff)"
    unfolding lo12_def m by (rule bit_word_eqI) (auto simp: bit_simps)
  moreover have "itype op rd rs1 x = setLO12_I w x" for x
    unfolding itype_def setLO12_I_def assms(2) by (simp only: assms(1) [symmetric] or.assoc)
  moreover have "SignExtend64 (v AND 0xfff) 12 = SignExtend64 v 12"
    by (rule SignExtend64_cong) (simp_all only: bit_and_iff bit_0xFFF, simp_all)
  ultimately show ?thesis by (simp only: dec_setLO12)
qed

lemma writePlt_halves:
  fixes c :: config
  shows "dec_u (word_at (writePlt c g p buf) 0) = dec_u (enc_hi20 0xE17 (g - p))"
    "dec_i (word_at (writePlt c g p buf) 1) = SignExtend64 (g - p) 12"
proof -
  have "utype AUIPC_op X_T3 (hi20 (ucast (g - p))) = enc_hi20 0xE17 (g - p)"
    by (rule utype_hi20) (simp_all add: AUIPC_op_def X_T3_def)
  then show "dec_u (word_at (writePlt c g p buf) 0) = dec_u (enc_hi20 0xE17 (g - p))"
    by (simp add: writePlt_def Let_def word_at_writeWords)
  have "dec_i (itype (if is64 c then LD_op else LW_op) X_T3 X_T3 (lo12 (ucast (g - p)))) = SignExtend64 (g - p) 12"
    by (cases "is64 c"; simp; rule itype_lo12 [OF refl]) (simp_all add: LD_op_def LW_op_def X_T3_def)
  then show "dec_i (word_at (writePlt c g p buf) 1) = SignExtend64 (g - p) 12"
    by (simp add: writePlt_def Let_def word_at_writeWords del: if_split)
qed

text \<open>The first two instructions of a PLT entry address the symbol's \<open>.got.plt\<close> slot: the
  \<open>auipc\<close> immediate and the load offset add up to the distance from the entry to the slot,
  exactly when the rounded distance fits 32 bits and modulo \<open>2 ^ 32\<close> always.\<close>

theorem writePlt_target:
  fixes c :: config
  shows "ucast (dec_u (word_at (writePlt c g p buf) 0) + dec_i (word_at (writePlt c g p buf) 1)) = (ucast (g - p) :: u32) \<and>
    (isInt 32 (g - p + 0x800) \<longrightarrow>
      p + (dec_u (word_at (writePlt c g p buf) 0) + dec_i (word_at (writePlt c g p buf) 1)) = g)"
proof -
  have "checkInt (signed_drop_bit 12 (SignExtend64 (g - p + 0x800) 64)) 20 R_RISCV_NONE = []" if "isInt 32 (g - p + 0x800)"
  proof -
    let ?y = "g - p + 0x800"
    have "SignExtend64 ?y 64 = ?y"
      by (rule bit_word_eqI) (simp add: bit_SignExtend64 min_def)
    moreover have "isInt 20 (signed_drop_bit 12 ?y)"
    proof -
      have "- (2 ^ 31) \<le> sint ?y" "sint ?y < 2 ^ 31"
        using that by (simp_all add: isInt_iff_aux)
      then have "- 524288 \<le> sint ?y div 4096" "sint ?y div 4096 < 524288"
        using zdiv_mono1 [of "- (2 ^ 31)" "sint ?y" 4096] by (simp_all add: int_div_less_iff)
      then show ?thesis
        by (simp add: isInt_iff_aux sint_signed_drop_bit)
    qed
    ultimately show ?thesis
      by (simp add: checkInt_iff isInt_SignExtend64)
  qed
  then show ?thesis
    using hi_lo_sum [of "g - p" R_RISCV_NONE "0xE17"] hi_lo_sum32 [of "0xE17" "g - p"]
    by (simp add: writePlt_halves del: One_nat_def)
qed

lemma writePlt_target_witness:
  "0x10000 + (dec_u (word_at (writePlt \<lparr>is64 = True, cfg_relax = True, cfg_eflags = 0, writeAddends = False\<rparr> 0x12820 0x10000 []) 0) +
     dec_i (word_at (writePlt \<lparr>is64 = True, cfg_relax = True, cfg_eflags = 0, writeAddends = False\<rparr> 0x12820 0x10000 []) 1)) = 0x12820"
 proof -
  have "isInt 32 (0x12820 - 0x10000 + 0x800)" by code_simp
  with writePlt_target show ?thesis by blast
qed

lemma EF_flags:
  "(t OR EF_RISCV_RVC) AND EF_RISCV_FLOAT_ABI = t AND EF_RISCV_FLOAT_ABI"
  "(t OR EF_RISCV_RVC) AND EF_RISCV_RVE = t AND EF_RISCV_RVE"
  "(t OR EF_RISCV_RVC) OR EF_RISCV_RVC = t OR EF_RISCV_RVC"
  unfolding EF_RISCV_FLOAT_ABI_def EF_RISCV_RVE_def EF_RISCV_RVC_def
  by (rule word_eqI_list; simp add: upts bit_simps)+

lemma calcEFlags_loop_sound:
  "fst (calcEFlags_loop i fs t) = (if list_ex (\<lambda>f. f AND EF_RISCV_RVC \<noteq> 0) fs then t OR EF_RISCV_RVC else t)"
  "snd (calcEFlags_loop i fs t) = [] \<Longrightarrow>
    list_all (\<lambda>f. f AND EF_RISCV_FLOAT_ABI = t AND EF_RISCV_FLOAT_ABI \<and> f AND EF_RISCV_RVE = t AND EF_RISCV_RVE) fs"
proof (induction fs arbitrary: i t)
  case (Cons f fs)
  { case 1
    show ?case by (simp add: Let_def case_prod_beta Cons.IH(1) EF_flags) }
  { case 2
    then show ?case
      using Cons.IH(2) [of "Suc i" "if f AND EF_RISCV_RVC \<noteq> 0 then t OR EF_RISCV_RVC else t"]
      by (simp add: Let_def case_prod_beta EF_flags split: if_splits) }
qed simp_all

text \<open>The flags of the output have the compressed bit exactly when some input has it, and
  when no error is reported every input agrees with the first one, and so with the output, on
  the floating-point ABI and on RVE.\<close>

theorem calcEFlags_sound:
  assumes "calcEFlags files = (r, ds)"
  shows "(r AND EF_RISCV_RVC \<noteq> 0 \<longleftrightarrow> list_ex (\<lambda>f. f AND EF_RISCV_RVC \<noteq> 0) files) \<and>
    (ds = [] \<longrightarrow> list_all (\<lambda>f. f AND EF_RISCV_FLOAT_ABI = r AND EF_RISCV_FLOAT_ABI \<and>
       f AND EF_RISCV_RVE = r AND EF_RISCV_RVE) files)"
proof (cases files)
  case (Cons f fs)
  have "(t OR EF_RISCV_RVC) AND EF_RISCV_RVC \<noteq> 0" for t :: u32
  proof -
    have "bit ((t OR EF_RISCV_RVC) AND EF_RISCV_RVC) 0"
      by (simp add: EF_RISCV_RVC_def bit_simps)
    then show ?thesis by (metis bit_0_eq bot_apply bot_bool_def)
  qed
  moreover have "r = (if list_ex (\<lambda>f. f AND EF_RISCV_RVC \<noteq> 0) files then f OR EF_RISCV_RVC else f)"
    using assms calcEFlags_loop_sound(1) [of 0 files f] by (simp add: calcEFlags_def Cons)
  ultimately show ?thesis
    using assms calcEFlags_loop_sound(2) [of 0 files f]
    by (simp add: calcEFlags_def Cons EF_flags)
qed (use assms in \<open>simp add: calcEFlags_def\<close>)

lemma calcEFlags_sound_witness:
  "list_all (\<lambda>f. f AND EF_RISCV_FLOAT_ABI = 5 AND EF_RISCV_FLOAT_ABI \<and> f AND EF_RISCV_RVE = 5 AND EF_RISCV_RVE)
    [4, 5, 4 :: u32]"
proof -
  have "calcEFlags [4, 5, 4] = (5, [])" by code_simp
  from calcEFlags_sound [OF this] show ?thesis by simp
qed

end
