(* ===== verification/RVRelax.thy ===== *)
theory RVRelax
  imports RVRelocSound "HOL-Library.Product_Lexorder"
begin

text \<open>
  \<open>lld/ELF/Arch/RISCV.cpp\<close>, second half: linker relaxation. \<open>initSymbolAnchors\<close> records where
  symbols start and end, \<open>relax\<close> decides for one section which bytes each relocation can give
  up and moves the symbols, \<open>relaxOnce\<close> does so for every executable section, and
  \<open>finalizeRelax\<close> rewrites the contents and the relocations.

  Sections and symbols are named by numbers; the state maps them to their records, as pointers
  do. The address of a section, a symbol and the global pointer come from the layout of the
  linker, the record \<open>layout\<close>; the address of a symbol may depend on the symbol values that
  \<open>relax\<close> is changing. A failed assertion, a \<open>fatal\<close> or an access outside an array is an error
  value.
\<close>

section \<open>Data\<close>

record Relocation =
  r_expr :: RelExpr
  r_type :: RelType
  r_offset :: u64
  r_addend :: u64
  r_sym :: nat

record Defined =
  d_file :: nat
  scriptDefined :: bool
  d_section :: "nat option"
  d_value :: u64
  d_size :: u64

type_synonym symtab = "nat \<rightharpoonup> Defined"

record SymbolAnchor =
  a_offset :: u64
  a_sym :: nat
  a_end :: bool

record RelaxAux =
  anchors :: "SymbolAnchor list"
  relocDeltas :: "u32 list"
  relocTypes :: "RelType list"
  writes :: "u32 list"

record InputSection =
  execinstr :: bool
  content :: "u8 list"
  sec_size :: u64
  bytesDropped :: u32
  relocs :: "Relocation list"
  relaxAux :: "RelaxAux option"

datatype SectionCommand = InputSectionDescription "nat list" | OtherCommand

record OutputSection =
  os_exec :: bool
  commands :: "SectionCommand list"

record link_state =
  secs :: "nat \<Rightarrow> InputSection"
  syms :: symtab

record layout =
  secVA :: "nat \<Rightarrow> u64"
  symVA :: "symtab \<Rightarrow> nat \<Rightarrow> u64 \<Rightarrow> u64"
  pltVA :: "nat \<Rightarrow> u64"
  gpVA :: "(symtab \<Rightarrow> u64) option"

datatype relax_error = AssertionFailure | SectionDecreaseTooLarge | NullRelaxAux | OutOfBounds

definition getInputSections :: "OutputSection \<Rightarrow> nat list" where
  "getInputSections os = concat (map (\<lambda>c. case c of InputSectionDescription ids \<Rightarrow> ids | OtherCommand \<Rightarrow> []) (commands os))"

definition execSections :: "OutputSection list \<Rightarrow> nat list" where
  "execSections outs = concat (map (\<lambda>os. if os_exec os then getInputSections os else []) outs)"

section \<open>Symbol anchors\<close>

definition emptyAux :: "InputSection \<Rightarrow> RelaxAux" where
  "emptyAux sec = \<lparr>anchors = [], relocDeltas = replicate (length (relocs sec)) 0,
     relocTypes = replicate (length (relocs sec)) R_RISCV_NONE, writes = []\<rparr>"

definition pushAnchors :: "nat \<Rightarrow> nat \<Rightarrow> link_state \<Rightarrow> link_state" where
  "pushAnchors file symbol st =
    (case syms st symbol of
       None \<Rightarrow> st
     | Some d \<Rightarrow>
         if d_file d \<noteq> file \<and> \<not> scriptDefined d then st
         else (case d_section d of
             None \<Rightarrow> st
           | Some s \<Rightarrow>
               (let sec = secs st s in
                case relaxAux sec of
                  None \<Rightarrow> st
                | Some aux \<Rightarrow>
                    if execinstr sec then
                      let as = anchors aux @ [\<lparr>a_offset = d_value d, a_sym = symbol, a_end = False\<rparr>,
                                              \<lparr>a_offset = d_value d + d_size d, a_sym = symbol, a_end = True\<rparr>]
                      in st\<lparr>secs := (secs st)(s := sec\<lparr>relaxAux := Some (aux\<lparr>anchors := as\<rparr>)\<rparr>)\<rparr>
                    else st)))"

definition anchor_key :: "SymbolAnchor \<Rightarrow> u64 \<times> bool" where
  "anchor_key a = (a_offset a, a_end a)"

definition initSymbolAnchors :: "OutputSection list \<Rightarrow> (nat \<times> nat list) list \<Rightarrow> link_state \<Rightarrow> link_state" where
  "initSymbolAnchors outs files st =
    (let ids = execSections outs;
         st1 = fold (\<lambda>s st. st\<lparr>secs := (secs st)(s := (secs st s)\<lparr>relaxAux := Some (emptyAux (secs st s))\<rparr>)\<rparr>) ids st;
         st2 = fold (\<lambda>(file, symbols) st. fold (pushAnchors file) symbols st) files st1
     in fold (\<lambda>s st. st\<lparr>secs := (secs st)(s := (secs st s)\<lparr>relaxAux :=
          map_option (\<lambda>aux. aux\<lparr>anchors := sort_key anchor_key (anchors aux)\<rparr>) (relaxAux (secs st s))\<rparr>)\<rparr>) ids st2)"

section \<open>One relocation\<close>

text \<open>The new type, the words pushed on \<open>writes\<close> and the number of bytes to remove.\<close>

type_synonym edit = "RelType \<times> u32 list \<times> u32"

definition no_edit :: edit where
  "no_edit = (R_RISCV_NONE, [], 0)"

definition relaxCall :: "config \<Rightarrow> layout \<Rightarrow> symtab \<Rightarrow> u8 list \<Rightarrow> u64 \<Rightarrow> Relocation \<Rightarrow> edit" where
  "relaxCall c lay sy data loc r =
    (let rvc = (cfg_eflags c AND EF_RISCV_RVC \<noteq> 0);
         insnPair = read64le (drop (unat (r_offset r)) data);
         rd = extractBits insnPair (32 + 11) (32 + 7);
         dest = (if r_expr r = R_PLT_PC then pltVA lay (r_sym r) else symVA lay sy (r_sym r) 0) + r_addend r;
         displace = dest - loc
     in if rvc \<and> isInt 12 displace \<and> rd = 0 then (R_RISCV_RVC_JUMP, [0xa001], 6)
        else if rvc \<and> isInt 12 displace \<and> rd = X_RA \<and> \<not> is64 c then (R_RISCV_RVC_JUMP, [0x2001], 6)
        else if isInt 21 displace then (R_RISCV_JAL, [0x6f OR push_bit 7 rd], 4)
        else no_edit)"

definition relaxTlsLe :: "layout \<Rightarrow> symtab \<Rightarrow> u8 list \<Rightarrow> Relocation \<Rightarrow> edit" where
  "relaxTlsLe lay sy data r =
    (let val = symVA lay sy (r_sym r) (r_addend r) in
     if hi20 (ucast val) \<noteq> 0 then no_edit
     else
       let insn = read32le (drop (unat (r_offset r)) data);
           insn' = (insn AND NOT (push_bit 15 31)) OR push_bit 15 X_TP
       in case r_type r of
            R_RISCV_TPREL_HI20 \<Rightarrow> (R_RISCV_RELAX, [], 4)
          | R_RISCV_TPREL_ADD \<Rightarrow> (R_RISCV_RELAX, [], 4)
          | R_RISCV_TPREL_LO12_I \<Rightarrow> (R_RISCV_32, [setLO12_I insn' (ucast val)], 0)
          | R_RISCV_TPREL_LO12_S \<Rightarrow> (R_RISCV_32, [setLO12_S insn' (ucast val)], 0)
          | _ \<Rightarrow> no_edit)"

definition relaxHi20Lo12 :: "layout \<Rightarrow> symtab \<Rightarrow> Relocation \<Rightarrow> edit" where
  "relaxHi20Lo12 lay sy r =
    (case gpVA lay of
       None \<Rightarrow> no_edit
     | Some gp \<Rightarrow>
         if \<not> isInt 12 (symVA lay sy (r_sym r) (r_addend r) - gp sy) then no_edit
         else case r_type r of
             R_RISCV_HI20 \<Rightarrow> (R_RISCV_RELAX, [], 4)
           | R_RISCV_LO12_I \<Rightarrow> (INTERNAL_R_RISCV_GPREL_I, [], 0)
           | R_RISCV_LO12_S \<Rightarrow> (INTERNAL_R_RISCV_GPREL_S, [], 0)
           | _ \<Rightarrow> no_edit)"

text \<open>The bytes an alignment directive gives up at \<open>loc\<close>; the assertion of the code rejects a
  negative number.\<close>

definition alignRemove :: "u64 \<Rightarrow> u64 \<Rightarrow> u32 option" where
  "alignRemove loc addend =
    (let nextLoc = loc + addend;
         align = PowerOf2Ceil (addend + 2);
         remove = ucast (nextLoc - ((loc + align - 1) AND - align)) :: u32
     in if 0 \<le> sint remove then Some remove else None)"

definition relax_reloc :: "config \<Rightarrow> layout \<Rightarrow> symtab \<Rightarrow> u8 list \<Rightarrow> u64 \<Rightarrow> Relocation \<Rightarrow> Relocation list \<Rightarrow> edit option" where
  "relax_reloc c lay sy data loc r rest =
    (let relaxable = (rest \<noteq> [] \<and> r_type (hd rest) = R_RISCV_RELAX) in
     if r_type r = R_RISCV_ALIGN then map_option (\<lambda>n. (R_RISCV_NONE, [], n)) (alignRemove loc (r_addend r))
     else if r_type r \<in> {R_RISCV_CALL, R_RISCV_CALL_PLT} then
       Some (if relaxable then relaxCall c lay sy data loc r else no_edit)
     else if r_type r \<in> {R_RISCV_TPREL_HI20, R_RISCV_TPREL_ADD, R_RISCV_TPREL_LO12_I, R_RISCV_TPREL_LO12_S} then
       Some (if relaxable then relaxTlsLe lay sy data r else no_edit)
     else if r_type r \<in> {R_RISCV_HI20, R_RISCV_LO12_I, R_RISCV_LO12_S} then
       Some (if relaxable then relaxHi20Lo12 lay sy r else no_edit)
     else Some no_edit)"

section \<open>One section\<close>

definition move_anchor :: "u64 \<Rightarrow> SymbolAnchor \<Rightarrow> symtab \<Rightarrow> symtab" where
  "move_anchor delta a sy =
    (case sy (a_sym a) of
       None \<Rightarrow> sy
     | Some d \<Rightarrow> sy(a_sym a \<mapsto>
         (if a_end a then d\<lparr>d_size := a_offset a - delta - d_value d\<rparr> else d\<lparr>d_value := a_offset a - delta\<rparr>)))"

fun advance_anchors :: "u64 \<Rightarrow> u64 \<Rightarrow> SymbolAnchor list \<Rightarrow> symtab \<Rightarrow> SymbolAnchor list \<times> symtab" where
  "advance_anchors off delta [] sy = ([], sy)"
| "advance_anchors off delta (a # sa) sy =
    (if a_offset a \<le> off then advance_anchors off delta sa (move_anchor delta a sy) else (a # sa, sy))"

text \<open>The loop over the relocations, from the accumulated \<open>delta\<close>, the remaining anchors and the
  symbols: the new deltas, types and writes, whether some delta changed, and the final \<open>delta\<close>,
  anchors and symbols.\<close>

fun relax_loop :: "config \<Rightarrow> layout \<Rightarrow> u64 \<Rightarrow> u8 list \<Rightarrow> Relocation list \<Rightarrow> u32 list \<Rightarrow> u64 \<Rightarrow> SymbolAnchor list \<Rightarrow> symtab
    \<Rightarrow> (u32 list \<times> RelType list \<times> u32 list \<times> bool \<times> u64 \<times> SymbolAnchor list \<times> symtab) option" where
  "relax_loop c lay secAddr data [] deltas delta sa sy = Some (deltas, [], [], False, delta, sa, sy)"
| "relax_loop c lay secAddr data (r # rs) [] delta sa sy = None"
| "relax_loop c lay secAddr data (r # rs) (cur # deltas) delta sa sy =
    (case relax_reloc c lay sy data (secAddr + r_offset r - delta) r rs of
       None \<Rightarrow> None
     | Some (t, ws, remove) \<Rightarrow>
         let (sa', sy') = advance_anchors (r_offset r) delta sa sy;
             delta' = delta + ucast remove;
             differs = (delta' \<noteq> ucast cur);
             cur' = (if differs then ucast delta' else cur)
         in case relax_loop c lay secAddr data rs deltas delta' sa' sy' of
              None \<Rightarrow> None
            | Some (ds, ts, ws', changed, rest) \<Rightarrow> Some (cur' # ds, t # ts, ws @ ws', differs \<or> changed, rest))"

definition relax :: "config \<Rightarrow> layout \<Rightarrow> nat \<Rightarrow> link_state \<Rightarrow> relax_error + bool \<times> link_state" where
  "relax c lay s st =
    (let sec = secs st s in
     case relaxAux sec of
       None \<Rightarrow> Inl NullRelaxAux
     | Some aux \<Rightarrow>
         (case relax_loop c lay (secVA lay s) (content sec) (relocs sec) (relocDeltas aux) 0 (anchors aux) (syms st) of
            None \<Rightarrow> Inl AssertionFailure
          | Some (ds, ts, ws, changed, delta, sa, sy) \<Rightarrow>
              if \<not> isUInt 32 delta then Inl SectionDecreaseTooLarge
              else Inr (changed,
                st\<lparr>secs := (secs st)(s := sec\<lparr>bytesDropped := ucast delta,
                      relaxAux := Some (aux\<lparr>relocDeltas := ds, relocTypes := ts, writes := ws\<rparr>)\<rparr>),
                   syms := fold (move_anchor delta) sa sy\<rparr>)))"

fun relax_all :: "config \<Rightarrow> layout \<Rightarrow> nat list \<Rightarrow> link_state \<Rightarrow> relax_error + bool \<times> link_state" where
  "relax_all c lay [] st = Inr (False, st)"
| "relax_all c lay (s # ids) st =
    (case relax c lay s st of
       Inl e \<Rightarrow> Inl e
     | Inr (ch, st1) \<Rightarrow>
         (case relax_all c lay ids st1 of Inl e \<Rightarrow> Inl e | Inr (ch', st2) \<Rightarrow> Inr (ch \<or> ch', st2)))"

definition relaxOnce :: "config \<Rightarrow> layout \<Rightarrow> bool \<Rightarrow> OutputSection list \<Rightarrow> (nat \<times> nat list) list \<Rightarrow> nat \<Rightarrow> link_state
    \<Rightarrow> relax_error + bool \<times> link_state" where
  "relaxOnce c lay relocatable outs files pass st =
    (if relocatable then Inr (False, st)
     else relax_all c lay (execSections outs) (if pass = 0 then initSymbolAnchors outs files st else st))"

section \<open>Rewriting the contents\<close>

text \<open>\<open>memcpy\<close> out of a section.\<close>

definition copy_range :: "u8 list \<Rightarrow> u64 \<Rightarrow> u64 \<Rightarrow> u8 list option" where
  "copy_range old offset n =
    (if unat offset + unat n \<le> length old then Some (take (unat n) (drop (unat offset) old)) else None)"

function align_nops :: "int \<Rightarrow> int \<Rightarrow> u8 list option" where
  "align_nops j skip =
    (if j + 4 \<le> skip then map_option ((@) (mem_bytes (0x13 :: u32))) (align_nops (j + 4) skip)
     else if j \<noteq> skip then (if j + 2 = skip then Some (mem_bytes (1 :: u16)) else None)
     else Some [])"
  by pat_completeness auto
termination
  by (relation "measure (\<lambda>(j, skip). nat (skip - j))") auto

declare align_nops.simps [simp del]

text \<open>The bytes written in place of the relocated code, the entry left in \<open>relocTypes\<close> and the
  words not consumed yet.\<close>

definition finalize_edit :: "Relocation \<Rightarrow> u32 \<Rightarrow> RelType \<Rightarrow> u32 list \<Rightarrow> (u8 list \<times> RelType \<times> u32 list) option" where
  "finalize_edit r remove t ws =
    (if r_type r = R_RISCV_ALIGN then
       (if remove mod 4 \<noteq> 0 \<or> \<not> 4 dvd sint (r_addend r)
        then map_option (\<lambda>bs. (bs, t, ws)) (align_nops 0 (sint (r_addend r - ucast remove)))
        else Some ([], t, ws))
     else if t \<in> {R_RISCV_NONE, INTERNAL_R_RISCV_GPREL_I, INTERNAL_R_RISCV_GPREL_S, R_RISCV_RELAX} then Some ([], t, ws)
     else if t = R_RISCV_RVC_JUMP then
       (case ws of [] \<Rightarrow> None | w # ws' \<Rightarrow> Some (mem_bytes (ucast w :: u16), t, ws'))
     else if t = R_RISCV_JAL then (case ws of [] \<Rightarrow> None | w # ws' \<Rightarrow> Some (mem_bytes w, t, ws'))
     else if t = R_RISCV_32 then (case ws of [] \<Rightarrow> None | w # ws' \<Rightarrow> Some (mem_bytes w, R_RISCV_NONE, ws'))
     else None)"

fun finalize_loop :: "u8 list \<Rightarrow> Relocation list \<Rightarrow> u32 list \<Rightarrow> RelType list \<Rightarrow> u32 list \<Rightarrow> u64 \<Rightarrow> u64
    \<Rightarrow> (u8 list \<times> RelType list) option" where
  "finalize_loop old (r # rs) (d # ds) (t # ts) ws offset delta =
    (let remove = ucast (ucast d - delta) :: u32 in
     if remove = 0 \<and> t = R_RISCV_NONE then
       map_option (\<lambda>(out, ts'). (out, t # ts')) (finalize_loop old rs ds ts ws offset (ucast d))
     else
       case copy_range old offset (r_offset r - offset) of
         None \<Rightarrow> None
       | Some kept \<Rightarrow>
           (case finalize_edit r remove t ws of
              None \<Rightarrow> None
            | Some (new, t', ws') \<Rightarrow>
                map_option (\<lambda>(out, ts'). (kept @ new @ out, t' # ts'))
                  (finalize_loop old rs ds ts ws' (r_offset r + of_nat (length new) + ucast remove) (ucast d))))"
| "finalize_loop old [] ds ts ws offset delta =
    map_option (\<lambda>out. (out, [])) (copy_range old offset (of_nat (length old) - offset))"
| "finalize_loop old (r # rs) _ _ ws offset delta = None"

text \<open>The second loop of \<open>finalizeRelax\<close>: a run of relocations at one offset is shifted by the
  delta of the relocation before the run.\<close>

fun shift_relocs :: "u64 option \<Rightarrow> u64 \<Rightarrow> u64 \<Rightarrow> Relocation list \<Rightarrow> u32 list \<Rightarrow> RelType list \<Rightarrow> Relocation list" where
  "shift_relocs cur delta before (r # rs) (d # ds) (t # ts) =
    (let delta' = (if cur = Some (r_offset r) then delta else before) in
     r\<lparr>r_offset := r_offset r - delta', r_type := (if t \<noteq> R_RISCV_NONE then t else r_type r)\<rparr>
     # shift_relocs (Some (r_offset r)) delta' (ucast d) rs ds ts)"
| "shift_relocs cur delta before _ _ _ = []"

definition finalize_section :: "InputSection \<Rightarrow> relax_error + InputSection" where
  "finalize_section sec =
    (case relaxAux sec of
       None \<Rightarrow> Inl NullRelaxAux
     | Some aux \<Rightarrow>
         if relocDeltas aux = [] then Inr sec
         else
           let newSize = of_nat (length (content sec)) - ucast (relocDeltas aux ! (length (relocs sec) - 1)) :: u64 in
           case finalize_loop (content sec) (relocs sec) (relocDeltas aux) (relocTypes aux) (writes aux) 0 0 of
             None \<Rightarrow> Inl OutOfBounds
           | Some (out, ts) \<Rightarrow>
               if unat newSize < length out then Inl OutOfBounds
               else Inr (sec\<lparr>content := out, sec_size := newSize, bytesDropped := 0,
                 relocs := shift_relocs None 0 0 (relocs sec) (relocDeltas aux) ts,
                 relaxAux := Some (aux\<lparr>relocTypes := ts\<rparr>)\<rparr>))"

fun finalize_all :: "nat list \<Rightarrow> link_state \<Rightarrow> relax_error + link_state" where
  "finalize_all [] st = Inr st"
| "finalize_all (s # ids) st =
    (case finalize_section (secs st s) of
       Inl e \<Rightarrow> Inl e
     | Inr sec \<Rightarrow> finalize_all ids (st\<lparr>secs := (secs st)(s := sec)\<rparr>))"

definition finalizeRelax :: "OutputSection list \<Rightarrow> link_state \<Rightarrow> relax_error + link_state" where
  "finalizeRelax outs st = finalize_all (execSections outs) st"

end
