(* ===== verification/RVRelaxSound.thy ===== *)
theory RVRelaxSound
  imports RVRelax
begin

text \<open>
  Properties of linker relaxation: what \<open>relax\<close> leaves in the side tables of a section and in the
  symbols, and what \<open>finalizeRelax\<close> makes of them.
\<close>

section \<open>The trace of a relaxation\<close>

definition e_type :: "edit \<Rightarrow> RelType" where "e_type e = fst e"
definition e_writes :: "edit \<Rightarrow> u32 list" where "e_writes e = fst (snd e)"
definition e_remove :: "edit \<Rightarrow> nat" where "e_remove e = unat (snd (snd e))"

text \<open>The bytes removed up to and including each edit.\<close>

definition removed :: "edit list \<Rightarrow> nat \<Rightarrow> nat" where
  "removed es n = (\<Sum>e\<leftarrow>take n es. e_remove e)"

lemma removed_simps [simp]:
  "removed es 0 = 0" "removed (e # es) (Suc n) = e_remove e + removed es n"
  by (simp_all add: removed_def)

lemma removed_Suc: "n < length es \<Longrightarrow> removed es (Suc n) = removed es n + e_remove (es ! n)"
  by (simp add: removed_def take_Suc_conv_app_nth)

lemma removed_mono: "m \<le> n \<Longrightarrow> removed es m \<le> removed es n"
proof (induction n)
  case (Suc n)
  then show ?case by (cases "n < length es") (auto simp: removed_Suc le_Suc_eq, simp add: removed_def)
qed simp

lemma removed_le: "(\<And>e. e \<in> set es \<Longrightarrow> e_remove e \<le> b) \<Longrightarrow> removed es n \<le> n * b"
proof (induction n arbitrary: es)
  case (Suc n)
  show ?case
  proof (cases es)
    case (Cons e es')
    have "removed es' n \<le> n * b" using Suc.prems Cons by (intro Suc.IH) simp
    moreover have "e_remove e \<le> b" using Suc.prems Cons by (simp del: split_paired_All)
    ultimately show ?thesis by (simp add: Cons add_mono)
  qed (simp add: removed_def)
qed simp

lemma alignRemove_bound: "alignRemove loc a = Some n \<Longrightarrow> unat n < 2 ^ 31"
proof -
  assume "alignRemove loc a = Some n"
  then have "0 \<le> sint n" by (auto simp: alignRemove_def Let_def split: if_splits)
  then have "uint n < 2 ^ 31"
    using signed_take_bit_nonnegative_iff [of 31 "uint n"] sint_uint [of n]
    \<open>0 \<le> sint n\<close> bit_imp_le_length [of n]
    unfolding uint_less_2p_iff_bits by (fastforce simp: bit_uint_iff le_less)
  then have "int (unat n) < int (2 ^ 31)" by simp
  then show ?thesis by (simp only: of_nat_less_iff)
qed

lemma relax_reloc_bound: 
  assumes "relax_reloc c lay sy dat loc r rest = Some e"
  shows "e_remove e < 2 ^ 31"
  using assms alignRemove_bound
  by (auto simp: relax_reloc_def e_remove_def Let_def relaxCall_def relaxTlsLe_def relaxHi20Lo12_def no_edit_def
      split: if_splits option.splits RelType.splits)

text \<open>The relocations that lie before an anchor.\<close>

definition relocs_before :: "Relocation list \<Rightarrow> SymbolAnchor \<Rightarrow> nat" where
  "relocs_before rs a = length (takeWhile (\<lambda>r. r_offset r < a_offset a) rs)"

lemma relocs_before_simps [simp]:
  "relocs_before [] a = 0"
  "relocs_before (r # rs) a = (if r_offset r < a_offset a then Suc (relocs_before rs a) else 0)"
  by (simp_all add: relocs_before_def)

lemma relocs_before_le: "relocs_before rs a \<le> length rs"
  by (simp add: relocs_before_def length_takeWhile_le)

lemma advance_anchors_eq:
  "advance_anchors off delta sa sy =
    (dropWhile (\<lambda>a. a_offset a \<le> off) sa, fold (move_anchor delta) (takeWhile (\<lambda>a. a_offset a \<le> off) sa) sy)"
  by (induction sa arbitrary: sy) auto

lemma dropWhile_sorted_less:
  assumes "sorted (map a_offset sa)" "a \<in> set (dropWhile (\<lambda>a. a_offset a \<le> off) sa)"
  shows "off < a_offset a"
  using assms by (induction sa) (auto split: if_splits simp: not_le intro: less_le_trans)

lemma sorted_dropWhile_map: "sorted (map f xs) \<Longrightarrow> sorted (map f (dropWhile P xs))"
  by (induction xs) auto

text \<open>The symbols as the loop sees them at relocation \<open>i\<close>: the anchors at or before an earlier
  relocation have been moved, by the bytes removed before them, and the others have not.\<close>

definition passed :: "Relocation list \<Rightarrow> nat \<Rightarrow> SymbolAnchor \<Rightarrow> bool" where
  "passed rs i a \<longleftrightarrow> (\<exists>r\<in>set (take i rs). a_offset a \<le> r_offset r)"

definition moved_upto :: "Relocation list \<Rightarrow> edit list \<Rightarrow> u64 \<Rightarrow> SymbolAnchor list \<Rightarrow> symtab \<Rightarrow> nat \<Rightarrow> symtab" where
  "moved_upto rs es delta sa sy i =
    fold (\<lambda>a. move_anchor (delta + of_nat (removed es (relocs_before rs a))) a) (takeWhile (passed rs i) sa) sy"

lemma passed_0: "passed rs 0 = (\<lambda>_. False)"
  by (simp add: passed_def fun_eq_iff)

lemma moved_upto_0 [simp]: "moved_upto rs es delta sa sy 0 = sy"
  by (cases sa) (simp_all add: moved_upto_def passed_0)

lemma takeWhile_disj:
  "takeWhile (\<lambda>a. P a \<or> Q a) xs = takeWhile P xs @ takeWhile (\<lambda>a. P a \<or> Q a) (dropWhile P xs)"
  by (induction xs) auto

lemma moved_upto_Suc:
  fixes sa :: "SymbolAnchor list"
  defines "P \<equiv> \<lambda>r a. a_offset a \<le> r_offset r"
  assumes "sorted (map a_offset sa)"
  shows "moved_upto (r # rs) (e # es) delta sa sy (Suc i) =
    moved_upto rs es (delta + of_nat (e_remove e)) (dropWhile (P r) sa)
      (fold (move_anchor delta) (takeWhile (P r) sa) sy) i"
proof -
  let ?f = "\<lambda>a. move_anchor (delta + of_nat (removed (e # es) (relocs_before (r # rs) a))) a"
  let ?g = "\<lambda>a. move_anchor (delta + of_nat (e_remove e) + of_nat (removed es (relocs_before rs a))) a"
  have after: "r_offset r < a_offset a" if "a \<in> set (dropWhile (P r) sa)" for a
    using dropWhile_sorted_less [OF assms(2) that [unfolded P_def]] .
  have "passed (r # rs) (Suc i) = (\<lambda>a. P r a \<or> passed rs i a)"
    by (simp add: passed_def P_def fun_eq_iff)
  then have "takeWhile (passed (r # rs) (Suc i)) sa =
      takeWhile (P r) sa @ takeWhile (\<lambda>a. P r a \<or> passed rs i a) (dropWhile (P r) sa)"
    using takeWhile_disj [of "P r" "passed rs i" sa] by simp
  also have "takeWhile (\<lambda>a. P r a \<or> passed rs i a) (dropWhile (P r) sa) = takeWhile (passed rs i) (dropWhile (P r) sa)"
  proof (intro takeWhile_cong refl)
    fix a assume "a \<in> set (dropWhile (P r) sa)"
    then have "\<not> P r a" using after [of a] by (simp add: P_def)
    then show "(P r a \<or> passed rs i a) = passed rs i a" by simp
  qed
  finally have split: "takeWhile (passed (r # rs) (Suc i)) sa =
      takeWhile (P r) sa @ takeWhile (passed rs i) (dropWhile (P r) sa)" .
  have "?f a = move_anchor delta a" if "a \<in> set (takeWhile (P r) sa)" for a
    using set_takeWhileD [OF that] by (auto simp: P_def dest: leD)
  then have "fold ?f (takeWhile (P r) sa) sy = fold (move_anchor delta) (takeWhile (P r) sa) sy"
    by (intro fold_cong) auto
  moreover have "?f a = ?g a" if "a \<in> set (takeWhile (passed rs i) (dropWhile (P r) sa))" for a
    using after [OF conjunct1 [OF set_takeWhileD [OF that]]] by (simp add: add.assoc)
  then have "fold ?f (takeWhile (passed rs i) (dropWhile (P r) sa)) sy0 =
      fold ?g (takeWhile (passed rs i) (dropWhile (P r) sa)) sy0" for sy0
    by (intro fold_cong) auto
  ultimately show ?thesis
    by (simp only: moved_upto_def split fold_append comp_apply)
qed

lemma relax_loop_trace:
  assumes "relax_loop c lay secAddr dat rs cur delta sa sy = Some (ds, ts, ws, ch, fin, sa', sy')"
  shows "\<exists>es. length es = length rs \<and> ts = map e_type es \<and> ws = concat (map e_writes es) \<and>
    (\<forall>i<length rs. \<exists>sy0. (sorted (map a_offset sa) \<longrightarrow> sy0 = moved_upto rs es delta sa sy i) \<and>
      relax_reloc c lay sy0 dat
        (secAddr + r_offset (rs ! i) - (delta + of_nat (removed es i))) (rs ! i) (drop (Suc i) rs) = Some (es ! i)) \<and>
    fin = delta + of_nat (removed es (length rs)) \<and> length rs \<le> length cur \<and>
    ds = map (\<lambda>i. ucast (delta + of_nat (removed es (Suc i)))) [0..<length rs] @ drop (length rs) cur \<and>
    (ch \<longleftrightarrow> (\<exists>i<length rs. delta + of_nat (removed es (Suc i)) \<noteq> ucast (cur ! i))) \<and>
    (sorted (map a_offset sa) \<longrightarrow> fold (move_anchor fin) sa' sy' =
      fold (\<lambda>a. move_anchor (delta + of_nat (removed es (relocs_before rs a))) a) sa sy)"
  using assms
proof (induction rs arbitrary: cur delta sa sy ds ts ws ch)
  case (Cons r rs)
  from Cons.prems obtain c0 cur' where cur: "cur = c0 # cur'" by (cases cur) simp_all
  from Cons.prems obtain t w n where e: "relax_reloc c lay sy dat (secAddr + r_offset r - delta) r rs = Some (t, w, n)"
    by (auto simp: cur split: option.splits)
  obtain sa1 sy1 where adv: "advance_anchors (r_offset r) delta sa sy = (sa1, sy1)" by fastforce
  define delta' where "delta' = delta + ucast n"
  from Cons.prems obtain ds1 ts1 ws1 ch1 where rec:
    "relax_loop c lay secAddr dat rs cur' delta' sa1 sy1 = Some (ds1, ts1, ws1, ch1, fin, sa', sy')"
    and out: "ds = (if delta' \<noteq> ucast c0 then ucast delta' else c0) # ds1" "ts = t # ts1" "ws = w @ ws1"
      "ch \<longleftrightarrow> delta' \<noteq> ucast c0 \<or> ch1"
    by (auto simp: cur e adv Let_def delta'_def split: option.splits prod.splits)
  have c0: "(if delta' \<noteq> ucast c0 then ucast delta' else c0) = ucast delta'"
    by (cases "delta' = ucast c0") (simp_all add: unsigned_ucast_eq, rule bit_word_eqI, auto simp: bit_simps)
  from Cons.IH [OF rec] obtain es where es: "length es = length rs" "ts1 = map e_type es" "ws1 = concat (map e_writes es)"
    "\<And>i. i < length rs \<Longrightarrow> \<exists>sy0. (sorted (map a_offset sa1) \<longrightarrow> sy0 = moved_upto rs es delta' sa1 sy1 i) \<and>
      relax_reloc c lay sy0 dat (secAddr + r_offset (rs ! i) - (delta' + of_nat (removed es i))) (rs ! i) (drop (Suc i) rs) = Some (es ! i)"
    "fin = delta' + of_nat (removed es (length rs))" "length rs \<le> length cur'"
    "ds1 = map (\<lambda>i. ucast (delta' + of_nat (removed es (Suc i)))) [0..<length rs] @ drop (length rs) cur'"
    "ch1 \<longleftrightarrow> (\<exists>i<length rs. delta' + of_nat (removed es (Suc i)) \<noteq> ucast (cur' ! i))"
    "sorted (map a_offset sa1) \<Longrightarrow> fold (move_anchor fin) sa' sy' =
      fold (\<lambda>a. move_anchor (delta' + of_nat (removed es (relocs_before rs a))) a) sa1 sy1"
    by blast
  have d': "delta' + x = delta + (of_nat (e_remove (t, w, n)) + x)" for x
    by (simp add: delta'_def e_remove_def unsigned_ucast_eq)
  show ?case
  proof (intro exI [of _ "(t, w, n) # es"] conjI)
    show "\<forall>i<length (r # rs). \<exists>sy0.
        (sorted (map a_offset sa) \<longrightarrow> sy0 = moved_upto (r # rs) ((t, w, n) # es) delta sa sy i) \<and>
        relax_reloc c lay sy0 dat
          (secAddr + r_offset ((r # rs) ! i) - (delta + of_nat (removed ((t, w, n) # es) i))) ((r # rs) ! i)
          (drop (Suc i) (r # rs)) = Some (((t, w, n) # es) ! i)"
    proof (intro allI impI)
      fix i assume i: "i < length (r # rs)"
      show "\<exists>sy0. (sorted (map a_offset sa) \<longrightarrow> sy0 = moved_upto (r # rs) ((t, w, n) # es) delta sa sy i) \<and>
        relax_reloc c lay sy0 dat
          (secAddr + r_offset ((r # rs) ! i) - (delta + of_nat (removed ((t, w, n) # es) i))) ((r # rs) ! i)
          (drop (Suc i) (r # rs)) = Some (((t, w, n) # es) ! i)"
      proof (cases i)
        case 0
        then show ?thesis using e by (intro exI [of _ sy]) simp
      next
        case (Suc j)
        then obtain sy0 where sy0: "sorted (map a_offset sa1) \<longrightarrow> sy0 = moved_upto rs es delta' sa1 sy1 j"
          "relax_reloc c lay sy0 dat (secAddr + r_offset (rs ! j) - (delta' + of_nat (removed es j))) (rs ! j)
            (drop (Suc j) rs) = Some (es ! j)"
          using es(4) [of j] i by auto
        have sa1: "sa1 = dropWhile (\<lambda>a. a_offset a \<le> r_offset r) sa"
          and sy1: "sy1 = fold (move_anchor delta) (takeWhile (\<lambda>a. a_offset a \<le> r_offset r) sa) sy"
          using adv by (simp_all add: advance_anchors_eq)
        have "sy0 = moved_upto (r # rs) ((t, w, n) # es) delta sa sy (Suc j)" if "sorted (map a_offset sa)"
          using sy0(1) sorted_dropWhile_map [OF that, of "\<lambda>a. a_offset a \<le> r_offset r"] d' [of 0]
          unfolding moved_upto_Suc [OF that] by (simp add: sa1 sy1)
        then show ?thesis
          using sy0(2) by (intro exI [of _ sy0]) (simp add: Suc d' add.assoc)
      qed
    qed
  next
    show "sorted (map a_offset sa) \<longrightarrow> fold (move_anchor fin) sa' sy' =
      fold (\<lambda>a. move_anchor (delta + of_nat (removed ((t, w, n) # es) (relocs_before (r # rs) a))) a) sa sy"
    proof
      let ?P = "\<lambda>a. a_offset a \<le> r_offset r"
      let ?f = "\<lambda>a. move_anchor (delta + of_nat (removed ((t, w, n) # es) (relocs_before (r # rs) a))) a"
      assume sorted: "sorted (map a_offset sa)"
      have sa1: "sa1 = dropWhile ?P sa" and sy1: "sy1 = fold (move_anchor delta) (takeWhile ?P sa) sy"
        using adv by (simp_all add: advance_anchors_eq)
      have "?f a = move_anchor delta a" if "a \<in> set (takeWhile ?P sa)" for a
        using set_takeWhileD [OF that] by (auto dest: leD)
      then have "fold ?f (takeWhile ?P sa) sy = sy1"
        unfolding sy1 by (intro fold_cong) auto
      moreover have "?f a = move_anchor (delta' + of_nat (removed es (relocs_before rs a))) a" if "a \<in> set sa1" for a
      proof -
        have "r_offset r < a_offset a" using sorted that unfolding sa1 by (rule dropWhile_sorted_less)
        then show ?thesis by (simp add: d')
      qed
      then have "fold ?f sa1 sy1 = fold (\<lambda>a. move_anchor (delta' + of_nat (removed es (relocs_before rs a))) a) sa1 sy1"
        by (intro fold_cong) auto
      then have "fold ?f sa1 sy1 = fold (move_anchor fin) sa' sy'"
        using es(9) sorted_dropWhile_map [OF sorted, of ?P] by (simp only: sa1)
      ultimately show "fold (move_anchor fin) sa' sy' = fold ?f sa sy"
        using fold_append [of ?f "takeWhile ?P sa" sa1] by (simp add: sa1)
    qed
  next
    show "ds = map (\<lambda>i. ucast (delta + of_nat (removed ((t, w, n) # es) (Suc i)))) [0..<length (r # rs)] @
        drop (length (r # rs)) cur"
      by (simp add: out c0 es(7) d' cur map_upt_Suc del: upt_Suc) (simp add: d' [of 0, simplified])
    show "ch \<longleftrightarrow> (\<exists>i<length (r # rs). delta + of_nat (removed ((t, w, n) # es) (Suc i)) \<noteq> ucast (cur ! i))"
      by (simp add: out es(8) cur Ex_less_Suc2 d') (simp add: d' [of 0, simplified])
  qed (auto simp: out es cur e_type_def e_writes_def [abs_def] d' add.assoc)
qed simp

definition aux_of :: "link_state \<Rightarrow> nat \<Rightarrow> RelaxAux" where
  "aux_of st s = the (relaxAux (secs st s))"

text \<open>What \<open>relax\<close> promises about one section: the edits it decided on, at the addresses the
  earlier edits leave, and the exact sums of the removed bytes.\<close>

definition relaxed_with :: "config \<Rightarrow> layout \<Rightarrow> nat \<Rightarrow> link_state \<Rightarrow> link_state \<Rightarrow> edit list \<Rightarrow> bool" where
  "relaxed_with c lay s st st' es \<longleftrightarrow>
    (let sec = secs st s; n = length (relocs sec) in
     length es = n \<and> removed es n < 2 ^ 32 \<and>
     (\<forall>i<n. \<exists>sy. (sorted (map a_offset (anchors (aux_of st s))) \<longrightarrow>
          sy = moved_upto (relocs sec) es 0 (anchors (aux_of st s)) (syms st) i) \<and>
        relax_reloc c lay sy (content sec) (secVA lay s + r_offset (relocs sec ! i) - of_nat (removed es i))
        (relocs sec ! i) (drop (Suc i) (relocs sec)) = Some (es ! i)) \<and>
     secs st' s = sec\<lparr>bytesDropped := of_nat (removed es n), relaxAux := Some ((aux_of st s)
       \<lparr>relocDeltas := map (\<lambda>i. of_nat (removed es (Suc i))) [0..<n], relocTypes := map e_type es,
        writes := concat (map e_writes es)\<rparr>)\<rparr> \<and>
     (sorted (map a_offset (anchors (aux_of st s))) \<longrightarrow> syms st' =
       fold (\<lambda>a. move_anchor (of_nat (removed es (relocs_before (relocs sec) a))) a) (anchors (aux_of st s)) (syms st)))"

lemma isUInt_iff_unat: "isUInt 32 v \<longleftrightarrow> unat v < 2 ^ 32"
proof -
  have "isUInt 32 v \<longleftrightarrow> int (unat v) < int (2 ^ 32)"
    by (simp add: isUInt_iff_aux)
  then show ?thesis by (simp only: of_nat_less_iff)
qed

lemma relax_trace:
  fixes lay :: layout
  assumes "relax c lay s st = Inr (ch, st')" "length (relocs (secs st s)) < 2 ^ 32"
    "length (relocDeltas (aux_of st s)) = length (relocs (secs st s))"
  obtains es where "relaxed_with c lay s st st' es"
    "ch \<longleftrightarrow> relocDeltas (aux_of st' s) \<noteq> relocDeltas (aux_of st s)"
proof -
  let ?sec = "secs st s" and ?n = "length (relocs (secs st s))"
  from assms(1) obtain aux where aux: "relaxAux ?sec = Some aux"
    by (auto simp: relax_def Let_def split: option.splits)
  from assms(1) obtain ds ts ws fin sa sy where
    loop: "relax_loop c lay (secVA lay s) (content ?sec) (relocs ?sec) (relocDeltas aux) 0 (anchors aux) (syms st) =
      Some (ds, ts, ws, ch, fin, sa, sy)"
    and fin: "isUInt 32 fin"
    and st': "secs st' s = ?sec\<lparr>bytesDropped := ucast fin, relaxAux := Some (aux\<lparr>relocDeltas := ds, relocTypes := ts, writes := ws\<rparr>)\<rparr>"
      "syms st' = fold (move_anchor fin) sa sy"
    by (auto simp: relax_def Let_def aux split: option.splits if_splits)
  have len: "length (relocDeltas aux) = ?n"
    using assms(3) by (simp add: aux_of_def aux)
  from relax_loop_trace [OF loop] obtain es where es: "length es = ?n" "ts = map e_type es" "ws = concat (map e_writes es)"
    "\<forall>i<?n. \<exists>sy0. (sorted (map a_offset (anchors aux)) \<longrightarrow>
        sy0 = moved_upto (relocs ?sec) es 0 (anchors aux) (syms st) i) \<and> relax_reloc c lay sy0 (content ?sec)
        (secVA lay s + r_offset (relocs ?sec ! i) - (0 + of_nat (removed es i))) (relocs ?sec ! i) (drop (Suc i) (relocs ?sec)) = Some (es ! i)"
    "fin = 0 + of_nat (removed es ?n)"
    "ds = map (\<lambda>i. ucast (0 + of_nat (removed es (Suc i)) :: u64)) [0..<?n] @ drop ?n (relocDeltas aux)"
    "ch \<longleftrightarrow> (\<exists>i<?n. 0 + of_nat (removed es (Suc i)) \<noteq> (ucast (relocDeltas aux ! i) :: u64))"
    "sorted (map a_offset (anchors aux)) \<longrightarrow> fold (move_anchor fin) sa sy =
      fold (\<lambda>a. move_anchor (0 + of_nat (removed es (relocs_before (relocs ?sec) a))) a) (anchors aux) (syms st)"
    by blast
  have "e_remove e \<le> 2 ^ 31" if "e \<in> set es" for e
  proof -
    obtain i where "i < ?n" "e = es ! i" using \<open>e \<in> set es\<close> unfolding in_set_conv_nth es(1) by blast
    with es(4) obtain sy0 x where "relax_reloc c lay sy0 (content ?sec) x (relocs ?sec ! i) (drop (Suc i) (relocs ?sec)) = Some e"
      by blast
    from relax_reloc_bound [OF this] show ?thesis by simp
  qed
  then have "removed es ?n \<le> ?n * 2 ^ 31"
    by (rule removed_le)
  also have "?n * 2 ^ 31 < 2 ^ 32 * 2 ^ 31"
    using assms(2) by (rule mult_less_mono1) simp
  also have "(2 :: nat) ^ 32 * 2 ^ 31 \<le> 2 ^ 64" by simp
  finally have "removed es ?n < 2 ^ 64" .
  then have n: "removed es ?n < 2 ^ 32"
    proof -
    have "unat fin = removed es ?n"
      using \<open>removed es ?n < 2 ^ 64\<close> by (simp only: es(5) add_0 unat_of_nat64)
    then show ?thesis using fin by (simp only: isUInt_iff_unat)
  qed
  have le: "removed es (Suc i) < 2 ^ 32" if "i < ?n" for i
    using removed_mono [of "Suc i" ?n es] n that by simp
  have ds: "ds = map (\<lambda>i. of_nat (removed es (Suc i))) [0..<?n]"
    using le by (simp add: es(6) len ucast_of_nat_32)
  have ne: "0 + of_nat (removed es (Suc i)) \<noteq> (ucast d :: u64) \<longleftrightarrow> of_nat (removed es (Suc i)) \<noteq> (d :: u32)" if "i < ?n" for i d
  proof -
    have "0 + of_nat m = (ucast d :: u64) \<longleftrightarrow> of_nat m = d" if m: "m < 2 ^ 32" for m
    proof
      assume *: "0 + of_nat m = (ucast d :: u64)"
      have "ucast (ucast d :: u64) = d" by (rule bit_word_eqI) (auto simp: bit_simps)
      then show "of_nat m = d" using ucast_of_nat_32 [OF m] * by simp
    next
      assume "of_nat m = d"
      then show "0 + of_nat m = (ucast d :: u64)" 
        using ucast_of_nat_64 [OF m] by simp
    qed
    then show ?thesis using le [OF that] by metis
  qed
  have "length ds = ?n" by (simp add: ds)
  then have "ds \<noteq> relocDeltas aux \<longleftrightarrow> (\<exists>i<?n. ds ! i \<noteq> relocDeltas aux ! i)"
    using len by (metis nth_equalityI)
  moreover have "ds ! i = of_nat (removed es (Suc i))" if "i < ?n" for i
    using that by (simp add: ds del: upt_Suc)
  ultimately have "ch \<longleftrightarrow> ds \<noteq> relocDeltas aux"
    unfolding es(7) using ne by (metis (no_types, lifting))
  moreover have "relaxed_with c lay s st st' es"
    using es(1-4,8) n by (simp add: relaxed_with_def Let_def st' ds es(5) ucast_of_nat_32 aux aux_of_def)
  ultimately show thesis
    using that by (simp add: aux_of_def st' aux)
qed

section \<open>Alignment\<close>

lemma align_up_offset:
  fixes loc :: u64
  assumes "k < 64"
  obtains j where "unat j < 2 ^ k" "(loc + push_bit k 1 - 1) AND - push_bit k 1 = loc + j" "2 ^ k dvd unat (loc + j)"
proof -
  let ?M = "mask k :: u64" and ?y = "loc + mask k"
  define j where "j = ?M - (?y AND ?M)"
  have p: "push_bit k 1 - 1 = ?M" "- push_bit k 1 = NOT ?M"
    by (simp_all add: mask_eq_exp_minus_1 push_bit_eq_mult not_eq_complement)
  have "?y = (?y AND ?M) + (?y AND NOT ?M)"
    by (subst disjunctive_add) (auto simp: bit_simps intro: bit_word_eqI)
  then have loc: "loc + j = ?y AND NOT ?M"
    by (simp add: j_def algebra_simps)
  have "?M = (?y AND ?M) + (?M AND NOT ?y)"
    by (subst disjunctive_add) (auto simp: bit_simps intro: bit_word_eqI)
  then have "j = ?M AND NOT ?y"
    unfolding j_def by (metis add_diff_cancel_left')
  then have "take_bit k j = j"
    by (auto simp: bit_simps intro: bit_word_eqI)
  then have "unat j < 2 ^ k"
    by (metis take_bit_nat_less_exp unsigned_take_bit_eq)
  moreover have "take_bit k (?y AND NOT ?M) = 0"
    by (rule bit_word_eqI) (simp add: bit_simps)
  then have "take_bit k (unat (?y AND NOT ?M)) = 0"
    by (metis unsigned_0 unsigned_take_bit_eq)
  then have "2 ^ k dvd unat (loc + j)"
    by (simp add: loc take_bit_eq_0_iff)
  ultimately show thesis
    using that [of j] by (simp add: p(2) loc add_diff_eq [symmetric] p(1) del: push_bit_of_1)
qed

lemma alignRemove_sound:
  assumes "alignRemove loc a = Some n" "unat a < 2 ^ 30"
  obtains k where "k < 32" "PowerOf2Ceil (a + 2) = push_bit k 1" "0 < k"
    "unat n \<le> unat a" "unat a - unat n < 2 ^ k" "2 ^ k dvd unat (loc + a - ucast n)"
proof -
  have "int (unat a) < int (2 ^ 30)" using assms(2) by (simp only: of_nat_less_iff)
  then have ua: "uint a < 2 ^ 30" by simp
  then have a2: "uint (a + 2) = int (unat a) + 2"
    by (simp add: uint_word_ariths mod_pos_pos_trivial)
  then have "0 < uint (a + 2)" by (simp add: add_nonneg_pos)
  then have "a + 2 \<noteq> 0" by auto
  then obtain k where k: "k < 64" "PowerOf2Ceil (a + 2) = push_bit k 1" "uint (a + 2) \<le> 2 ^ k" "k \<noteq> 0 \<Longrightarrow> 2 ^ (k - 1) < uint (a + 2)"
    using PowerOf2Ceil_props [of "a + 2"] a2 ua by (auto simp del: push_bit_of_1)
  have "k \<noteq> 0" using k(3) a2 uint_ge_0 [of a] by (intro notI) simp
  have "int (2 ^ (k - 1)) < int (2 ^ 31)" using k(4) [OF \<open>k \<noteq> 0\<close>] a2 ua by simp
  then have "(2 :: nat) ^ (k - 1) < 2 ^ 31" by (simp only: of_nat_less_iff)
  then have "k - 1 < 31" by (simp only: power_strict_increasing_iff)
  then have "k < 32" by simp
  obtain j where j: "unat j < 2 ^ k" "(loc + push_bit k 1 - 1) AND - push_bit k 1 = loc + j" "2 ^ k dvd unat (loc + j)"
    using align_up_offset [OF k(1)] by blast
  have n: "n = ucast (a - j)" "0 \<le> sint n"
  proof -
    have "loc + a - (loc + j) = a - j" by simp
    then show "n = ucast (a - j)" "0 \<le> sint n"
      using assms(1) unfolding alignRemove_def k(2) j(2) Let_def by (auto split: if_splits)
  qed
  have "(2 :: nat) ^ k \<le> 2 ^ 31" using \<open>k < 32\<close> by (intro power_increasing) auto
  define A J where "A = unat a" and "J = unat j"
  have aj: "a - j = word_of_int (int (A) - int (J))"
    by (simp add: A_def J_def)
  have n': "n = word_of_int (int (A) - int (J))"
    unfolding n(1) aj by (rule ucast_word_of_int_down) simp
  have le: "J \<le> A"
  proof (rule ccontr)
    let ?d = "int (J) - int (A)"
    assume "\<not> J \<le> A"
    then have "0 < ?d" "?d \<le> 2 ^ 31" using j(1) [folded J_def] \<open>2 ^ k \<le> 2 ^ 31\<close> by auto
    then have "sint n = - ?d"
      using sint_word_of_int_small [where 'a = 32, of "- ?d"] by (simp add: n')
    then show False using n(2) \<open>0 < ?d\<close> by simp
  qed
  have un: "unat n = A - J"
  proof -
    have "n = of_nat (A - J)" using le by (simp add: n' of_nat_diff)
    then show ?thesis using assms(2) [folded A_def] by (simp add: unat_of_nat)
  qed
  have "ucast n = a - j"
  proof -
    have "(ucast n :: u64) = of_nat (unat n)" by simp
    then show ?thesis using le by (simp add: un aj of_nat_diff)
  qed
  then show thesis
    using le j \<open>k \<noteq> 0\<close> by (intro that [OF \<open>k < 32\<close> k(2)]) (auto simp: un A_def [symmetric] J_def [symmetric])
qed

end
