(* ===== verification/RVFinalize.thy ===== *)
theory RVFinalize
  imports RVRelaxSound "HOL-Library.Multiset"
begin

text \<open>
  Properties of \<open>finalizeRelax\<close>: on a well-formed section it always succeeds, writes exactly the
  bytes it allocated, keeps every byte outside the rewritten instructions, and moves relocations
  and symbols to where their bytes went.
\<close>

section \<open>Well-formed sections\<close>

text \<open>The bytes of code a relocation may rewrite.\<close>

definition code_size :: "Relocation \<Rightarrow> nat" where
  "code_size r =
    (if r_type r = R_RISCV_ALIGN then unat (r_addend r)
     else if r_type r \<in> {R_RISCV_CALL, R_RISCV_CALL_PLT} then 8
     else if r_type r \<in> {R_RISCV_TPREL_HI20, R_RISCV_TPREL_ADD, R_RISCV_TPREL_LO12_I, R_RISCV_TPREL_LO12_S,
       R_RISCV_HI20, R_RISCV_LO12_I, R_RISCV_LO12_S} then 4
     else 0)"

text \<open>These bytes are disjoint, in order, and inside the section.\<close>

fun wf_relocs :: "nat \<Rightarrow> nat \<Rightarrow> Relocation list \<Rightarrow> bool" where
  "wf_relocs lo n [] \<longleftrightarrow> lo \<le> n"
| "wf_relocs lo n (r # rs) \<longleftrightarrow>
    (if code_size r = 0 then wf_relocs lo n rs
     else lo \<le> unat (r_offset r) \<and> wf_relocs (unat (r_offset r) + code_size r) n rs)"

definition wf_align :: "Relocation \<Rightarrow> bool" where
  "wf_align r \<longleftrightarrow> (r_type r = R_RISCV_ALIGN \<longrightarrow> even (r_offset r) \<and> even (r_addend r) \<and> unat (r_addend r) < 2 ^ 30)"

text \<open>An edit the rewriting can apply: it does nothing, or the bytes it writes and removes are
  those of the relocation.\<close>

definition trivial_edit :: "edit \<Rightarrow> bool" where
  "trivial_edit e \<longleftrightarrow> e_type e = R_RISCV_NONE \<and> e_remove e = 0 \<and> e_writes e = []"

definition edit_ok :: "Relocation \<Rightarrow> edit \<Rightarrow> u8 list \<Rightarrow> bool" where
  "edit_ok r e new \<longleftrightarrow>
    (if e_type e = R_RISCV_NONE \<and> e_remove e = 0 then e_writes e = []
     else 0 < code_size r \<and> length new + e_remove e \<le> code_size r \<and>
       (\<exists>t. \<forall>ws. finalize_edit r (snd (snd e)) (e_type e) (e_writes e @ ws) = Some (new, t, ws)))"

lemma even_unat [simp]: "even (unat (w :: 'a::len word)) \<longleftrightarrow> even w"
  by (metis bit_0 bit_unsigned_iff zero_less_numeral len_gt_0 possible_bit_word possible_bit_0)

lemma align_nops_length:
  assumes "even (m - j)" "j \<le> m"
  shows "\<exists>bs. align_nops j m = Some bs \<and> int (length bs) = m - j"
  using assms
proof (induction j m rule: align_nops.induct)
  case (1 j m)
  show ?case
  proof (cases "j + 4 \<le> m")
    case True
    with 1 obtain bs where "align_nops (j + 4) m = Some bs" "int (length bs) = m - (j + 4)"
      by auto
    then show ?thesis using True by (simp add: align_nops.simps [of j m])
  next
    case False
    moreover obtain q where "m - j = 2 * q" using 1(2) by (rule evenE)
    ultimately have "m = j \<or> m = j + 2" using 1(3) by presburger
    then show ?thesis by (auto simp: align_nops.simps [of j])
  qed
qed

text \<open>An alignment at an even address keeps an even number of bytes.\<close>

lemma alignRemove_even:
  assumes "alignRemove loc a = Some n" "unat a < 2 ^ 30" "even loc" "even a"
  shows "even n"
proof -
  obtain k where k: "0 < k" "2 ^ k dvd unat (loc + a - ucast n)"
    using alignRemove_sound [OF assms(1,2)] by metis
  then have "even (unat (loc + a - ucast n))"
    by (metis dvd_power dvd_trans)
  then have "even (loc + a - ucast n)" by (simp only: even_unat)
  then have "even (ucast n :: u64)" using assms(3,4) by simp
  then have "even (unat (ucast n :: u64))" by (simp only: even_unat)
  then show ?thesis by (simp add: unsigned_ucast_eq)
qed

lemma no_edit_ok: "even (e_remove no_edit) \<and> (\<exists>new. edit_ok r no_edit new)"
  by (simp add: no_edit_def edit_ok_def e_type_def e_remove_def e_writes_def)

lemmas edit_ok_simps = edit_ok_def finalize_edit_def e_type_def e_remove_def e_writes_def code_size_def

lemma relaxCall_ok:
  assumes "r_type r \<in> {R_RISCV_CALL, R_RISCV_CALL_PLT}"
  shows "even (e_remove (relaxCall c lay sy dat loc r)) \<and> (\<exists>new. edit_ok r (relaxCall c lay sy dat loc r) new)"
proof -
  have "relaxCall c lay sy dat loc r = no_edit \<or> (\<exists>w. relaxCall c lay sy dat loc r = (R_RISCV_RVC_JUMP, [w], 6)) \<or>
    (\<exists>w. relaxCall c lay sy dat loc r = (R_RISCV_JAL, [w], 4))"
    by (simp add: relaxCall_def Let_def)
  moreover have "edit_ok r (R_RISCV_RVC_JUMP, [w], 6) (mem_bytes (ucast w :: u16))"
    "edit_ok r (R_RISCV_JAL, [w], 4) (mem_bytes w)" for w
    using assms by (auto simp: edit_ok_simps)
  ultimately show ?thesis
    using no_edit_ok by (elim disjE exE) (simp_all add: e_remove_def, blast+)
qed

lemma relaxTlsLe_ok:
  assumes "r_type r \<in> {R_RISCV_TPREL_HI20, R_RISCV_TPREL_ADD, R_RISCV_TPREL_LO12_I, R_RISCV_TPREL_LO12_S}"
  shows "even (e_remove (relaxTlsLe lay sy dat r)) \<and> (\<exists>new. edit_ok r (relaxTlsLe lay sy dat r) new)"
proof -
  have "relaxTlsLe lay sy dat r = no_edit \<or> relaxTlsLe lay sy dat r = (R_RISCV_RELAX, [], 4) \<or>
    (\<exists>w. relaxTlsLe lay sy dat r = (R_RISCV_32, [w], 0))"
    using assms by (auto simp: relaxTlsLe_def Let_def)
  moreover have "edit_ok r (R_RISCV_RELAX, [], 4) []" "edit_ok r (R_RISCV_32, [w], 0) (mem_bytes w)" for w
    using assms by (auto simp: edit_ok_simps)
  ultimately show ?thesis
    using no_edit_ok by (elim disjE exE) (simp_all add: e_remove_def, blast+)
qed

lemma relaxHi20Lo12_ok:
  assumes "r_type r \<in> {R_RISCV_HI20, R_RISCV_LO12_I, R_RISCV_LO12_S}"
  shows "even (e_remove (relaxHi20Lo12 lay sy r)) \<and> (\<exists>new. edit_ok r (relaxHi20Lo12 lay sy r) new)"
proof -
  have "relaxHi20Lo12 lay sy r \<in> {no_edit, (R_RISCV_RELAX, [], 4), (INTERNAL_R_RISCV_GPREL_I, [], 0), (INTERNAL_R_RISCV_GPREL_S, [], 0)}"
    using assms by (auto simp: relaxHi20Lo12_def split: option.splits)
  moreover have "edit_ok r (R_RISCV_RELAX, [], 4) []" "edit_ok r (INTERNAL_R_RISCV_GPREL_I, [], 0) []"
    "edit_ok r (INTERNAL_R_RISCV_GPREL_S, [], 0) []"
    using assms by (auto simp: edit_ok_simps)
  ultimately show ?thesis
    using no_edit_ok by (auto simp: e_remove_def)
qed

lemma relax_reloc_edit_ok:
  assumes "relax_reloc c lay sy dat loc r rest = Some e" "wf_align r" "r_type r = R_RISCV_ALIGN \<Longrightarrow> even loc"
  shows "even (e_remove e) \<and> (\<exists>new. edit_ok r e new)"
proof (cases "r_type r = R_RISCV_ALIGN")
  case True
  then obtain n where n: "alignRemove loc (r_addend r) = Some n" and e: "e = (R_RISCV_NONE, [], n)"
    using assms(1) by (auto simp: relax_reloc_def Let_def)
  have a: "even (r_addend r)" "unat (r_addend r) < 2 ^ 30"
    using assms(2) True by (simp_all add: wf_align_def)
  have "even n" using alignRemove_even [OF n a(2) assms(3) [OF True] a(1)] .
  have le: "unat n \<le> unat (r_addend r)" using alignRemove_sound [OF n a(2)] by metis
  have "\<exists>new. edit_ok r e new"
  proof (cases "n = 0")
    case True
    then show ?thesis by (simp add: edit_ok_def e e_type_def e_remove_def e_writes_def)
  next
    case False
    have "r_addend r - ucast n = of_nat (unat (r_addend r) - unat n)"
      using le by (simp add: of_nat_diff)
    then have "sint (r_addend r - ucast n) = int (unat (r_addend r) - unat n)"
      using a(2) sint_word_of_int_64 [of "int (unat (r_addend r) - unat n)"] by simp
    moreover have "even (unat (r_addend r) - unat n)"
      using a(1) \<open>even n\<close> le by simp
    then have "even (int (unat (r_addend r) - unat n) - 0)"
      by (simp only: diff_zero even_of_nat)
    ultimately obtain bs where bs: "align_nops 0 (sint (r_addend r - ucast n)) = Some bs" "length bs = unat (r_addend r) - unat n"
      using align_nops_length [of "int (unat (r_addend r) - unat n)" 0] by auto
    have "unat n \<noteq> 0" using False by (metis unsigned_eq_0_iff)
    then show ?thesis
      using le bs True
      by (intro exI [of _ "if n mod 4 \<noteq> 0 \<or> \<not> 4 dvd sint (r_addend r) then bs else []"])
        (auto simp: edit_ok_def e e_type_def e_remove_def e_writes_def finalize_edit_def code_size_def)
  qed
  then show ?thesis using \<open>even n\<close> by (simp add: e e_remove_def)
next
  case False
  then have "e = no_edit \<or> e = relaxCall c lay sy dat loc r \<and> r_type r \<in> {R_RISCV_CALL, R_RISCV_CALL_PLT} \<or>
      e = relaxTlsLe lay sy dat r \<and> r_type r \<in> {R_RISCV_TPREL_HI20, R_RISCV_TPREL_ADD, R_RISCV_TPREL_LO12_I, R_RISCV_TPREL_LO12_S} \<or>
      e = relaxHi20Lo12 lay sy r \<and> r_type r \<in> {R_RISCV_HI20, R_RISCV_LO12_I, R_RISCV_LO12_S}"
    using assms(1) by (auto simp: relax_reloc_def Let_def split: if_splits)
  then show ?thesis
    using no_edit_ok relaxCall_ok relaxTlsLe_ok relaxHi20Lo12_ok by blast
qed

section \<open>Rewriting a section\<close>

definition before :: "Relocation list \<Rightarrow> nat \<Rightarrow> nat" where
  "before rs p = length (takeWhile (\<lambda>r. unat (r_offset r) < p) rs)"

lemma before_simps [simp]:
  "before [] p = 0" "before (r # rs) p = (if unat (r_offset r) < p then Suc (before rs p) else 0)"
  by (simp_all add: before_def)

text \<open>A byte no relocation may rewrite.\<close>

definition kept :: "Relocation list \<Rightarrow> nat \<Rightarrow> bool" where
  "kept rs p \<longleftrightarrow> list_all (\<lambda>r. p < unat (r_offset r) \<or> unat (r_offset r) + code_size r \<le> p) rs"

lemma kept_simps [simp]:
  "kept [] p" "kept (r # rs) p \<longleftrightarrow> (p < unat (r_offset r) \<or> unat (r_offset r) + code_size r \<le> p) \<and> kept rs p"
  by (simp_all add: kept_def)

lemma wf_relocs_le: "wf_relocs lo n rs \<Longrightarrow> lo \<le> n"
  by (induction rs arbitrary: lo) (auto split: if_splits, fastforce)

lemma before_eq_0:
  assumes "sorted (map r_offset (r # rs))" "p \<le> unat (r_offset r)"
  shows "before rs p = 0"
  using assms by (cases rs) (auto simp: word_le_nat_alt)

definition edit_deltas :: "nat \<Rightarrow> edit list \<Rightarrow> u32 list" where
  "edit_deltas d es = map (\<lambda>i. of_nat (d + removed es (Suc i))) [0..<length es]"

lemma edit_deltas_Cons: "edit_deltas d (e # es) = of_nat (d + e_remove e) # edit_deltas (d + e_remove e) es"
  by (simp add: edit_deltas_def map_upt_Suc add.assoc del: upt_Suc)

lemma ucast_remove:
  assumes "d + e_remove e < 2 ^ 32"
  shows "(ucast (ucast (of_nat (d + e_remove e) :: u32) - of_nat d :: u64) :: u32) = snd (snd e)"
proof -
  have "(ucast (of_nat (d + e_remove e) :: u32) :: u64) - of_nat d = of_nat (e_remove e)"
    using ucast_of_nat_64 [OF assms] by simp
  then show ?thesis using ucast_of_nat_32 [of "e_remove e"] assms by (simp add: e_remove_def)
qed

text \<open>What the loop writes from old offset \<open>lo\<close> on: kept bytes move down by what was removed before
  them, and every edit's bytes stand where its instruction stood.\<close>

definition rewritten :: "u8 list \<Rightarrow> Relocation list \<Rightarrow> edit list \<Rightarrow> nat \<Rightarrow> u8 list \<Rightarrow> bool" where
  "rewritten old rs es lo out \<longleftrightarrow>
    (\<forall>p. lo \<le> p \<longrightarrow> p < length old \<longrightarrow> kept rs p \<longrightarrow>
       lo + removed es (before rs p) \<le> p \<and> out ! (p - lo - removed es (before rs p)) = old ! p) \<and>
    (\<forall>i<length rs. \<forall>new. \<not> (e_type (es ! i) = R_RISCV_NONE \<and> e_remove (es ! i) = 0) \<longrightarrow> edit_ok (rs ! i) (es ! i) new \<longrightarrow>
       lo + removed es i \<le> unat (r_offset (rs ! i)) \<and>
       take (length new) (drop (unat (r_offset (rs ! i)) - lo - removed es i) out) = new)"

lemma copy_range_nat:
  assumes "lo \<le> unat (b :: u64)" "unat b \<le> length old" "length old < 2 ^ 63"
  shows "copy_range old (of_nat lo) (b - of_nat lo) = Some (take (unat b - lo) (drop lo old))"
proof -
  have lo: "unat (of_nat lo :: u64) = lo" by (rule unat_of_nat64, rule le_less_trans [OF le_trans [OF assms(1,2)]], rule less_trans [OF assms(3)]) simp
  have "of_nat lo \<le> b" using assms(1) lo by (simp add: word_le_nat_alt)
  then show ?thesis using assms lo by (simp add: copy_range_def unat_sub)
qed

lemma rewritten_trivial:
  assumes "rewritten old rs es lo out" "e_remove e = 0" "e_type e = R_RISCV_NONE" "sorted (map r_offset (r # rs))"
  shows "rewritten old (r # rs) (e # es) lo out"
proof -
  have "removed (e # es) (before (r # rs) p) = removed es (before rs p)" for p
    using before_eq_0 [OF assms(4), of p] assms(2) by simp
  then show ?thesis
    using assms(1-3) unfolding rewritten_def by (auto simp: less_Suc_eq_0_disj)
qed

lemma edit_ok_unique:
  "edit_ok r e new \<Longrightarrow> edit_ok r e new' \<Longrightarrow> \<not> (e_type e = R_RISCV_NONE \<and> e_remove e = 0) \<Longrightarrow> new' = new"
  unfolding edit_ok_def by (metis option.inject prod.inject)

lemma rewritten_edit:
  assumes rec: "rewritten old rs es (unat (r_offset r) + length new + e_remove e) out"
    and ok: "edit_ok r e new" "0 < code_size r" "length new + e_remove e \<le> code_size r"
    and lo: "lo \<le> unat (r_offset r)" "unat (r_offset r) \<le> length old"
  shows "rewritten old (r # rs) (e # es) lo (take (unat (r_offset r) - lo) (drop lo old) @ new @ out)"
proof -
  let ?o = "unat (r_offset r)" and ?pre = "take (unat (r_offset r) - lo) (drop lo old)"
  let ?lo = "?o + length new + e_remove e"
  have pre: "length ?pre = ?o - lo" using lo by simp
  have "lo + removed (e # es) (before (r # rs) p) \<le> p \<and>
      (?pre @ new @ out) ! (p - lo - removed (e # es) (before (r # rs) p)) = old ! p"
    if p: "lo \<le> p" "p < length old" "kept (r # rs) p" for p
  proof (cases "p < ?o")
    case True
    then show ?thesis using p lo diff_less_mono [OF True p(1)] by (simp add: nth_append)
  next
    case False
    then have "?lo \<le> p" "kept rs p" "?o < p" using p(3) ok by auto
    with rec p have *: "?lo + removed es (before rs p) \<le> p" "out ! (p - ?lo - removed es (before rs p)) = old ! p"
      by (auto simp: rewritten_def)
    have "p - lo - (e_remove e + removed es (before rs p)) = length ?pre + (length new + (p - ?lo - removed es (before rs p)))"
      using *(1) lo pre by simp
    then have "(?pre @ new @ out) ! (p - lo - (e_remove e + removed es (before rs p))) = old ! p"
      using *(2) by (simp only: nth_append_length_plus)
    then show ?thesis using *(1) lo \<open>?o < p\<close> by simp
  qed
  moreover have "lo + removed (e # es) i \<le> unat (r_offset ((r # rs) ! i)) \<and>
      take (length new') (drop (unat (r_offset ((r # rs) ! i)) - lo - removed (e # es) i) (?pre @ new @ out)) = new'"
    if i: "i < length (r # rs)" "\<not> (e_type ((e # es) ! i) = R_RISCV_NONE \<and> e_remove ((e # es) ! i) = 0)"
      "edit_ok ((r # rs) ! i) ((e # es) ! i) new'" for i new'
  proof (cases i)
    case 0
    then show ?thesis using i edit_ok_unique [OF ok(1), of new'] lo by simp
  next
    case (Suc j)
    with rec i have *: "?lo + removed es j \<le> unat (r_offset (rs ! j))"
      "take (length new') (drop (unat (r_offset (rs ! j)) - ?lo - removed es j) out) = new'"
      by (auto simp: rewritten_def)
    have "unat (r_offset (rs ! j)) - lo - (e_remove e + removed es j) =
        length ?pre + length new + (unat (r_offset (rs ! j)) - ?lo - removed es j)"
      using *(1) lo pre by simp
    then have "drop (unat (r_offset (rs ! j)) - lo - (e_remove e + removed es j)) (?pre @ new @ out) =
        drop (unat (r_offset (rs ! j)) - ?lo - removed es j) out"
      by (simp only: drop_append drop_drop [symmetric] append_assoc [symmetric]) simp
    then show ?thesis using * lo by (simp add: Suc)
  qed
  ultimately show ?thesis unfolding rewritten_def by blast
qed

lemma finalize_loop_ok:
  assumes "list_all2 (\<lambda>r e. \<exists>new. edit_ok r e new) rs es" "wf_relocs hi (length old) rs" "lo \<le> hi"
    "length old < 2 ^ 63" "d + removed es (length es) < 2 ^ 32" "sorted (map r_offset rs)"
  shows "\<exists>out ts. finalize_loop old rs (edit_deltas d es) (map e_type es) (concat (map e_writes es)) (of_nat lo) (of_nat d) = Some (out, ts) \<and>
    length ts = length rs \<and> length out + removed es (length es) = length old - lo \<and> rewritten old rs es lo out"
  using assms
proof (induction rs es arbitrary: hi lo d rule: list_all2_induct)
  case Nil
  then have "lo \<le> length old" by simp
  then have "copy_range old (of_nat lo) (of_nat (length old) - of_nat lo) = Some (drop lo old)"
    using Nil copy_range_nat [of lo "of_nat (length old)" old] by (simp add: unat_of_nat64)
  then show ?case by (simp add: rewritten_def)
next
  case (Cons r rs e es)
  let ?o = "unat (r_offset r)"
  obtain new where new: "edit_ok r e new" using Cons.hyps by blast
  have d: "d + e_remove e < 2 ^ 32" "(d + e_remove e) + removed es (length es) < 2 ^ 32"
    using Cons.prems(4) by simp_all
  note del = ucast_of_nat_64 [OF d(1)]
  note rem = ucast_remove [OF d(1), unfolded del]
  show ?case
  proof (cases "e_type e = R_RISCV_NONE \<and> e_remove e = 0")
    case True
    then have w: "e_writes e = []" using new by (simp add: edit_ok_def)
    obtain hi' where hi': "wf_relocs hi' (length old) rs" "lo \<le> hi'"
      using Cons.prems(1,2) by (cases "code_size r = 0") auto
    have "d + removed es (length es) < 2 ^ 32" "sorted (map r_offset rs)"
      using d Cons.prems(5) by simp_all
    from Cons.IH [OF hi' Cons.prems(3) this] obtain out ts where "finalize_loop old rs (edit_deltas d es) (map e_type es) (concat (map e_writes es)) (of_nat lo) (of_nat d) = Some (out, ts)"
      "length ts = length rs" "length out + removed es (length es) = length old - lo" "rewritten old rs es lo out"
      by blast
    then show ?thesis
      using True w rem del rewritten_trivial [OF _ _ _ Cons.prems(5)]
      by (auto simp: edit_deltas_Cons Let_def e_remove_def)
  next
    case False
    then obtain t where e: "0 < code_size r" "length new + e_remove e \<le> code_size r"
      "\<And>ws. finalize_edit r (snd (snd e)) (e_type e) (e_writes e @ ws) = Some (new, t, ws)"
      using new by (auto simp: edit_ok_def)
    have wf: "hi \<le> ?o" "wf_relocs (?o + code_size r) (length old) rs"
      using Cons.prems(1) e(1) by auto
    have o: "lo \<le> ?o" "?o \<le> length old" 
      using wf(1) Cons.prems(2) wf_relocs_le [OF wf(2)] by auto
    let ?lo = "?o + length new + e_remove e"
    have "?lo \<le> ?o + code_size r" "sorted (map r_offset rs)"
      using e(2) Cons.prems(5) by simp_all
    from Cons.IH [OF wf(2) this(1) Cons.prems(3) d(2) this(2)] obtain out ts where IH: "finalize_loop old rs (edit_deltas (d + e_remove e) es) (map e_type es) (concat (map e_writes es)) (of_nat ?lo) (of_nat (d + e_remove e)) = Some (out, ts)"
      "length ts = length rs" "length out + removed es (length es) = length old - ?lo" "rewritten old rs es ?lo out"
      by blast
    have pos: "r_offset r + of_nat (length new) + ucast (snd (snd e)) = of_nat ?lo"
      by (simp add: e_remove_def)
    have le: "?lo \<le> length old" using wf_relocs_le [OF wf(2)] e(2) by simp
    have nt: "\<not> (snd (snd e) = 0 \<and> e_type e = R_RISCV_NONE)"
      using False by (auto simp: e_remove_def)
    have "finalize_loop old (r # rs) (edit_deltas d (e # es)) (map e_type (e # es)) (concat (map e_writes (e # es))) (of_nat lo) (of_nat d) =
        Some (take (?o - lo) (drop lo old) @ new @ out, t # ts)"
      using IH(1) nt by (auto simp: edit_deltas_Cons Let_def rem del pos e(3) copy_range_nat [OF o Cons.prems(3)] simp del: of_nat_add)
    moreover have "length (take (?o - lo) (drop lo old) @ new @ out) + removed (e # es) (length (e # es)) = length old - lo"
      using IH(3) le o by simp
    ultimately show ?thesis
      using rewritten_edit [OF IH(4) new e(1,2) o] IH(2) by simp
  qed
qed

section \<open>From \<open>relax\<close> to \<open>finalizeRelax\<close>\<close>

lemma shift_relocs_nth:
  assumes "sorted (map r_offset rs)" "case cur of None \<Rightarrow> True | Some x \<Rightarrow> \<forall>r\<in>set rs. x \<le> r_offset r"
    "length es = length rs" "length ts = length rs" "i < length rs" "d + removed es (length es) < 2 ^ 32"
  shows "shift_relocs cur delta (of_nat d) rs (edit_deltas d es) ts ! i =
    (rs ! i)\<lparr>r_offset := r_offset (rs ! i) -
        (if cur = Some (r_offset (rs ! i)) then delta else of_nat (d + removed es (before rs (unat (r_offset (rs ! i)))))),
      r_type := (if ts ! i \<noteq> R_RISCV_NONE then ts ! i else r_type (rs ! i))\<rparr>"
  using assms
proof (induction rs arbitrary: cur delta d es ts i)
  case (Cons r rs)
  obtain e es' t ts' where l: "es = e # es'" "ts = t # ts'" using Cons.prems(3,4) by (metis length_Suc_conv)
  let ?delta = "if cur = Some (r_offset r) then delta else of_nat d"
  have d: "d + e_remove e < 2 ^ 32" using Cons.prems(6) by (simp add: l)
  show ?case
  proof (cases i)
    case 0
    then show ?thesis by (simp add: l edit_deltas_Cons Let_def)
  next
    case (Suc j)
    let ?r = "rs ! j"
    have le: "r_offset r \<le> r_offset ?r" using Cons.prems(1,5) Suc by simp
    have cur: "r_offset r < r_offset ?r \<Longrightarrow> cur \<noteq> Some (r_offset ?r)" using Cons.prems(2) by auto
    have "shift_relocs (Some (r_offset r)) ?delta (of_nat (d + e_remove e)) rs (edit_deltas (d + e_remove e) es') ts' ! j =
      ?r\<lparr>r_offset := r_offset ?r -
        (if Some (r_offset r) = Some (r_offset ?r) then ?delta else of_nat ((d + e_remove e) + removed es' (before rs (unat (r_offset ?r))))),
      r_type := (if ts' ! j \<noteq> R_RISCV_NONE then ts' ! j else r_type ?r)\<rparr>"
      using Cons.prems by (intro Cons.IH) (auto simp: l Suc)
    moreover have "(if Some (r_offset r) = Some (r_offset ?r) then ?delta else of_nat ((d + e_remove e) + removed es' (before rs (unat (r_offset ?r))))) =
      (if cur = Some (r_offset ?r) then delta else of_nat (d + removed es (before (r # rs) (unat (r_offset ?r)))))"
    proof (cases "r_offset r = r_offset ?r")
      case False
      then have "r_offset r < r_offset ?r" using le by simp
      then show ?thesis using cur False by (simp add: l word_less_nat_alt add.assoc)
    qed (simp add: l)
    ultimately show ?thesis
      by (simp only: l Suc edit_deltas_Cons shift_relocs.simps Let_def ucast_of_nat_64 [OF d] nth_Cons_Suc)
  qed
qed simp

lemma shift_relocs_length:
  "length ds = length rs \<Longrightarrow> length ts = length rs \<Longrightarrow> length (shift_relocs cur delta b rs ds ts) = length rs"
  by (induction cur delta b rs ds ts rule: shift_relocs.induct) (simp_all add: Let_def)

text \<open>What the input of relaxation promises about a section.\<close>

definition wf_section :: "layout \<Rightarrow> nat \<Rightarrow> link_state \<Rightarrow> bool" where
  "wf_section lay s st \<longleftrightarrow>
    (let sec = secs st s in
     even (secVA lay s) \<and> list_all wf_align (relocs sec) \<and> wf_relocs 0 (length (content sec)) (relocs sec) \<and>
     sorted (map r_offset (relocs sec)) \<and> length (content sec) < 2 ^ 63 \<and> length (relocs sec) < 2 ^ 32 \<and>
     length (relocDeltas (aux_of st s)) = length (relocs sec))"

text \<open>The bytes removed before an old offset, from the deltas the section records.\<close>

definition delta_before :: "Relocation list \<Rightarrow> u32 list \<Rightarrow> nat \<Rightarrow> nat" where
  "delta_before rs ds p = (if before rs p = 0 then 0 else unat (ds ! (before rs p - 1)))"

lemma before_le: "before rs p \<le> length rs"
  by (simp add: before_def length_takeWhile_le)

lemma delta_before_eq:
  assumes "length es = length rs" "removed es (length es) < 2 ^ 32"
  shows "delta_before rs (edit_deltas 0 es) p = removed es (before rs p)"
proof (cases "before rs p")
  case (Suc n)
  then have "Suc n \<le> length es" using before_le [of rs p] assms(1) by simp
  then have "removed es (Suc n) < 2 ^ 32" using removed_mono [of "Suc n" "length es" es] assms(2) by simp
  then show ?thesis using Suc \<open>Suc n \<le> length es\<close>
    by (simp add: delta_before_def edit_deltas_def unat_of_nat32 del: upt_Suc)
qed (simp add: delta_before_def)

lemma edits_ok:
  assumes "relaxed_with c lay s st st' es" "wf_section lay s st"
  shows "list_all2 (\<lambda>r e. \<exists>new. edit_ok r e new) (relocs (secs st s)) es"
proof -
  let ?rs = "relocs (secs st s)"
  have len: "length es = length ?rs"
    and step: "\<And>i. i < length ?rs \<Longrightarrow> \<exists>sy. relax_reloc c lay sy (content (secs st s)) (secVA lay s + r_offset (?rs ! i) - of_nat (removed es i))
        (?rs ! i) (drop (Suc i) ?rs) = Some (es ! i)"
    using assms(1) by (auto simp: relaxed_with_def Let_def)
  have al: "even (secVA lay s)" "\<And>i. i < length ?rs \<Longrightarrow> wf_align (?rs ! i)"
    using assms(2) by (auto simp: wf_section_def Let_def list_all_length)
  have ok: "even (e_remove (es ! i)) \<and> (\<exists>new. edit_ok (?rs ! i) (es ! i) new)"
    if "i < length ?rs" "even (removed es i)" for i
  proof -
    obtain sy where e: "relax_reloc c lay sy (content (secs st s)) (secVA lay s + r_offset (?rs ! i) - of_nat (removed es i))
        (?rs ! i) (drop (Suc i) ?rs) = Some (es ! i)" using step \<open>i < length ?rs\<close> by blast
    show ?thesis
      using al that by (intro relax_reloc_edit_ok [OF e]) (auto simp: wf_align_def)
  qed
  have "i \<le> length ?rs \<Longrightarrow> even (removed es i)" for i
    by (induction i) (simp_all add: ok removed_Suc len Suc_le_eq)
  then show ?thesis
    using ok len by (simp add: list_all2_conv_all_nth)
qed

text \<open>The section a relaxation and its finalisation leave.\<close>

lemma finalize_relaxed:
  assumes rel: "relaxed_with c lay s st st' es" and wf: "wf_section lay s st" and ne: "relocs (secs st s) \<noteq> []"
  obtains out ts sec' where
    "finalize_section (secs st' s) = Inr sec'" "content sec' = out" "sec_size sec' = of_nat (length out)"
    "relocs sec' = shift_relocs None 0 0 (relocs (secs st s)) (edit_deltas 0 es) ts"
    "length ts = length (relocs (secs st s))"
    "length out + removed es (length es) = length (content (secs st s))"
    "rewritten (content (secs st s)) (relocs (secs st s)) es 0 out"
proof -
  let ?sec = "secs st s"
  have len: "length es = length (relocs ?sec)" and lt: "removed es (length es) < 2 ^ 32"
    and st': "secs st' s = ?sec\<lparr>bytesDropped := of_nat (removed es (length es)), relaxAux := Some ((aux_of st s)
       \<lparr>relocDeltas := edit_deltas 0 es, relocTypes := map e_type es, writes := concat (map e_writes es)\<rparr>)\<rparr>"
    using rel by (simp_all add: relaxed_with_def Let_def edit_deltas_def)
  have wf': "wf_relocs 0 (length (content ?sec)) (relocs ?sec)" "length (content ?sec) < 2 ^ 63" "sorted (map r_offset (relocs ?sec))"
    using wf by (simp_all add: wf_section_def Let_def)
  obtain out ts where out:
    "finalize_loop (content ?sec) (relocs ?sec) (edit_deltas 0 es) (map e_type es) (concat (map e_writes es)) 0 0 = Some (out, ts)"
    "length ts = length (relocs ?sec)" "length out + removed es (length es) = length (content ?sec)"
    "rewritten (content ?sec) (relocs ?sec) es 0 out"
    using finalize_loop_ok [OF edits_ok [OF rel wf] wf'(1) le_refl wf'(2) _ wf'(3), of 0] lt by auto
  have last: "edit_deltas 0 es ! (length (relocs ?sec) - 1) = of_nat (removed es (length es))" and "edit_deltas 0 es \<noteq> []"
  proof -
    have "0 < length es" using ne len by simp
    then show "edit_deltas 0 es ! (length (relocs ?sec) - 1) = of_nat (removed es (length es))" "edit_deltas 0 es \<noteq> []"
      by (simp_all add: edit_deltas_def del: upt_Suc flip: len)
  qed
  have size: "of_nat (length (content ?sec)) - ucast (of_nat (removed es (length es)) :: u32) = (of_nat (length out) :: u64)"
    using ucast_of_nat_64 [OF lt] by (simp flip: out(3))
  have "length out < 2 ^ 64" using out(3) wf'(2) by simp
  then have "unat (of_nat (length out) :: u64) = length out" by (rule unat_of_nat64)
  then show thesis
    using that [OF _ refl] out \<open>edit_deltas 0 es \<noteq> []\<close> last [unfolded One_nat_def]
    by (simp add: st' finalize_section_def Let_def size)
qed

section \<open>Properties\<close>

lemma relaxed_with_deltas:
  assumes "relaxed_with c lay s st st' es"
  shows "relocDeltas (aux_of st' s) = edit_deltas 0 es" "relocTypes (aux_of st' s) = map e_type es"
    "anchors (aux_of st' s) = anchors (aux_of st s)"
    "length es = length (relocs (secs st s))" "removed es (length es) < 2 ^ 32"
    "bytesDropped (secs st' s) = of_nat (removed es (length es))"
  using assms by (simp_all add: relaxed_with_def Let_def aux_of_def edit_deltas_def)

lemma edit_deltas_nth:
  assumes "i < length es" "removed es (length es) < 2 ^ 32"
  shows "unat (edit_deltas 0 es ! i) = removed es (Suc i)"
proof -
  have "removed es (Suc i) < 2 ^ 32" using removed_mono [of "Suc i" "length es" es] assms by simp
  then show ?thesis using assms(1) by (simp add: edit_deltas_def unat_of_nat32 del: upt_Suc)
qed

text \<open>C13: a relaxation pass records deltas that never decrease along the section, the last of them is
  the number of bytes dropped from its size, and it reports a change exactly when some delta
  changed.\<close>

theorem relax_deltas:
  assumes "relax c lay s st = Inr (ch, st')" "length (relocs (secs st s)) < 2 ^ 32"
    "length (relocDeltas (aux_of st s)) = length (relocs (secs st s))"
  shows "sorted (relocDeltas (aux_of st' s)) \<and> length (relocDeltas (aux_of st' s)) = length (relocs (secs st' s)) \<and>
    bytesDropped (secs st' s) = (if relocs (secs st s) = [] then 0 else last (relocDeltas (aux_of st' s))) \<and>
    (ch \<longleftrightarrow> relocDeltas (aux_of st' s) \<noteq> relocDeltas (aux_of st s))"
proof -
  from relax_trace [OF assms] obtain es where rel: "relaxed_with c lay s st st' es"
    and ch: "ch \<longleftrightarrow> relocDeltas (aux_of st' s) \<noteq> relocDeltas (aux_of st s)" by blast
  note d = relaxed_with_deltas [OF rel]
  have "sorted (edit_deltas 0 es)"
    unfolding sorted_iff_nth_mono
  proof (intro allI impI)
    fix i j assume "i \<le> j" "j < length (edit_deltas 0 es)"
    then show "edit_deltas 0 es ! i \<le> edit_deltas 0 es ! j"
      using edit_deltas_nth [OF _ d(5), of i] edit_deltas_nth [OF _ d(5), of j] removed_mono [of "Suc i" "Suc j" es]
      by (simp add: word_le_nat_alt edit_deltas_def)
  qed
  moreover have "last (edit_deltas 0 es) = of_nat (removed es (length es))" if "es \<noteq> []"
    using that by (cases es rule: rev_cases) (simp_all add: edit_deltas_def)
  moreover have "relocs (secs st' s) = relocs (secs st s)"
    using rel by (simp add: relaxed_with_def Let_def)
  moreover have "es = [] \<longleftrightarrow> relocs (secs st s) = []" and "length (edit_deltas 0 es) = length es"
    using d(4) by (auto simp: edit_deltas_def)
  ultimately show ?thesis
    using ch d by auto
qed

text \<open>The delta before relocation \<open>i\<close>, as the comment on \<open>relocDeltas\<close> defines it.\<close>

definition prev_delta :: "u32 list \<Rightarrow> nat \<Rightarrow> u32" where
  "prev_delta ds i = (if i = 0 then 0 else ds ! (i - 1))"

lemma prev_delta_eq:
  assumes "i < length es" "removed es (length es) < 2 ^ 32"
  shows "unat (prev_delta (edit_deltas 0 es) i) = removed es i" "(ucast (prev_delta (edit_deltas 0 es) i) :: u64) = of_nat (removed es i)"
proof -
  show *: "unat (prev_delta (edit_deltas 0 es) i) = removed es i"
    using assms edit_deltas_nth [of "i - 1" es] by (cases i) (simp_all add: prev_delta_def)
  show "(ucast (prev_delta (edit_deltas 0 es) i) :: u64) = of_nat (removed es i)"
    using * by (metis of_nat_unat ucast_eq unsigned_def word_of_int_uint of_int_of_nat_eq) 
qed

text \<open>C11: after a pass, the code behind every alignment directive starts at a multiple of the
  alignment, and the directive gave up at most the padding it had.\<close>

theorem relax_align:
  assumes "relax c lay s st = Inr (ch, st')" "length (relocs (secs st s)) < 2 ^ 32"
    "length (relocDeltas (aux_of st s)) = length (relocs (secs st s))"
    "i < length (relocs (secs st s))" "r = relocs (secs st s) ! i" "r_type r = R_RISCV_ALIGN" "unat (r_addend r) < 2 ^ 30"
    "ds = relocDeltas (aux_of st' s)"
  shows "unat (PowerOf2Ceil (r_addend r + 2)) dvd unat (secVA lay s + r_offset r + r_addend r - ucast (ds ! i)) \<and>
    unat (prev_delta ds i) \<le> unat (ds ! i) \<and> unat (ds ! i) - unat (prev_delta ds i) \<le> unat (r_addend r)"
proof -
  from relax_trace [OF assms(1-3)] obtain es where rel: "relaxed_with c lay s st st' es" by blast
  note d = relaxed_with_deltas [OF rel]
  have i: "i < length es" using assms(4) d(4) by simp
  obtain sy where "relax_reloc c lay sy (content (secs st s)) (secVA lay s + r_offset r - of_nat (removed es i)) r
      (drop (Suc i) (relocs (secs st s))) = Some (es ! i)"
    using rel assms(4,5) by (auto simp: relaxed_with_def Let_def)
  then obtain n where n: "alignRemove (secVA lay s + r_offset r - of_nat (removed es i)) (r_addend r) = Some n"
    and e: "es ! i = (R_RISCV_NONE, [], n)"
    by (auto simp: relax_reloc_def assms(6) Let_def)
  obtain k where k: "k < 32" "PowerOf2Ceil (r_addend r + 2) = push_bit k 1" "unat n \<le> unat (r_addend r)"
    "2 ^ k dvd unat (secVA lay s + r_offset r - of_nat (removed es i) + r_addend r - ucast n)"
    using alignRemove_sound [OF n assms(7)] by metis
  have p: "unat (push_bit k 1 :: u64) = 2 ^ k"
  proof -
    have "unat (push_bit k 1 :: u64) = take_bit 64 (push_bit k (unat (1 :: u64)))"
      using unsigned_push_bit_eq [where ?'a = nat, of k "1 :: u64"] by simp
    also have "\<dots> = 2 ^ k"
      using k(1) power_strict_increasing [of k 64 "2 :: nat"] by (simp add: take_bit_nat_eq_self)
    finally show ?thesis .
  qed
  have R: "removed es (Suc i) = removed es i + unat n"
    using i by (simp add: removed_Suc e e_remove_def)
  have di: "unat (ds ! i) = removed es i + unat n"
    using edit_deltas_nth [OF i d(5)] d(1) assms(8) R by simp
  have "(ucast (ds ! i) :: u64) = of_nat (removed es i) + ucast n"
    using di by (metis of_nat_add of_nat_unat)
  then have eq: "secVA lay s + r_offset r + r_addend r - ucast (ds ! i) = secVA lay s + r_offset r - of_nat (removed es i) + r_addend r - ucast n"
    by simp
  have "unat (prev_delta ds i) = removed es i"
    using prev_delta_eq(1) [OF i d(5)] d(1) assms(8) by simp
  then show ?thesis
    unfolding k(2) p di eq using k(3,4) by simp
qed

text \<open>Moving the two anchors of one symbol.\<close>

lemma fold_move_anchor:
  fixes D :: "u64 \<Rightarrow> u64"
  assumes "\<forall>a\<in>set as. a_sym a = k \<longrightarrow> a = st \<or> a = en"
    "a_sym st = k" "a_sym en = k" "\<not> a_end st" "a_end en" "anchor_key st < anchor_key en"
    "sorted (map anchor_key as)" "sy k = Some d"
    "st \<in> set as \<or> d_value d = a_offset st - D (a_offset st)"
    "en \<in> set as \<or> d_size d = a_offset en - D (a_offset en) - (a_offset st - D (a_offset st))"
  shows "fold (\<lambda>a. move_anchor (D (a_offset a)) a) as sy k =
    Some (d\<lparr>d_value := a_offset st - D (a_offset st),
      d_size := a_offset en - D (a_offset en) - (a_offset st - D (a_offset st))\<rparr>)"
  using assms
proof (induction as arbitrary: sy d)
  case (Cons a as)
  let ?sy = "move_anchor (D (a_offset a)) a sy"
  have srt: "sorted (map anchor_key as)" and le: "\<forall>b\<in>set as. anchor_key a \<le> anchor_key b"
    using Cons.prems(7) by simp_all
  have in_as: "\<forall>a\<in>set as. a_sym a = k \<longrightarrow> a = st \<or> a = en" using Cons.prems(1) by simp
  note IH = Cons.IH [OF in_as Cons.prems(2-6) srt]
  show ?case
  proof (cases "a_sym a = k")
    case False
    then have "?sy k = Some d" using Cons.prems(8) by (simp add: move_anchor_def split: option.splits)
    moreover have "a \<noteq> st" "a \<noteq> en" using False Cons.prems(2,3) by auto
    ultimately show ?thesis using IH [of ?sy d] Cons.prems(9,10) by auto
  next
    case True
    then consider "a = st" | "a = en" using Cons.prems(1) by auto
    then show ?thesis
    proof cases
      case 1
      let ?d = "d\<lparr>d_value := a_offset st - D (a_offset st)\<rparr>"
      have "?sy k = Some ?d" using Cons.prems(2,4,8) 1 by (simp add: move_anchor_def)
      moreover have "en \<in> set as \<or> d_size ?d = a_offset en - D (a_offset en) - (a_offset st - D (a_offset st))"
        using Cons.prems(4,5,10) 1 by auto
      ultimately show ?thesis using IH [of ?sy ?d] by simp
    next
      case 2
      have "st \<notin> set as" "st \<noteq> a" using le Cons.prems(4-6) 2 by (auto simp: not_le)
      then have v: "d_value d = a_offset st - D (a_offset st)" using Cons.prems(9) by auto
      let ?d = "d\<lparr>d_size := a_offset en - D (a_offset en) - d_value d\<rparr>"
      have "?sy k = Some ?d" using Cons.prems(3,5,8) 2 by (simp add: move_anchor_def)
      then show ?thesis using IH [of ?sy ?d] v by simp
    qed
  qed
qed (simp add: option.expand)

lemma relocs_before_before: "relocs_before rs a = before rs (unat (a_offset a))"
  by (simp add: relocs_before_def before_def word_less_nat_alt)

lemma sorted_anchor_offset: "sorted (map anchor_key as) \<Longrightarrow> sorted (map a_offset as)"
  by (induction as) (auto simp: anchor_key_def less_eq_prod_def less_imp_le)

text \<open>C10: a pass leaves every anchored symbol with the value and the size it had, less the bytes
  removed before its start and before its end: the single merged loop over relocations and anchors
  agrees with looking each anchor up on its own.\<close>

theorem relax_symbols:
  assumes "relax c lay s st = Inr (ch, st')" "length (relocs (secs st s)) < 2 ^ 32"
    "length (relocDeltas (aux_of st s)) = length (relocs (secs st s))"
    "sorted (map anchor_key (anchors (aux_of st s)))" "syms st k = Some d" "off \<le> off + sz"
    "\<lparr>a_offset = off, a_sym = k, a_end = False\<rparr> \<in> set (anchors (aux_of st s))"
    "\<lparr>a_offset = off + sz, a_sym = k, a_end = True\<rparr> \<in> set (anchors (aux_of st s))"
    "\<forall>a\<in>set (anchors (aux_of st s)). a_sym a = k \<longrightarrow>
       a = \<lparr>a_offset = off, a_sym = k, a_end = False\<rparr> \<or> a = \<lparr>a_offset = off + sz, a_sym = k, a_end = True\<rparr>"
    "D = (\<lambda>p. of_nat (delta_before (relocs (secs st s)) (relocDeltas (aux_of st' s)) (unat p)))"
  shows "\<exists>d'. syms st' k = Some d' \<and> d_value d' = off - D off \<and> d_value d' + d_size d' = off + sz - D (off + sz) \<and>
    d_section d' = d_section d \<and> d_file d' = d_file d"
proof -
  from relax_trace [OF assms(1-3)] obtain es where rel: "relaxed_with c lay s st st' es" by blast
  note d = relaxed_with_deltas [OF rel]
  have D: "D p = of_nat (removed es (before (relocs (secs st s)) (unat p)))" for p
    using delta_before_eq [OF d(4,5)] d(1) assms(10) by simp
  have "syms st' = fold (\<lambda>a. move_anchor (D (a_offset a)) a) (anchors (aux_of st s)) (syms st)"
    using rel sorted_anchor_offset [OF assms(4)] by (simp add: relaxed_with_def Let_def D relocs_before_before)
  moreover have "fold (\<lambda>a. move_anchor (D (a_offset a)) a) (anchors (aux_of st s)) (syms st) k =
    Some (d\<lparr>d_value := off - D off, d_size := off + sz - D (off + sz) - (off - D off)\<rparr>)"
    using fold_move_anchor [where as = "anchors (aux_of st s)" and k = k and sy = "syms st" and d = d and D = D
        and st = "\<lparr>a_offset = off, a_sym = k, a_end = False\<rparr>" and en = "\<lparr>a_offset = off + sz, a_sym = k, a_end = True\<rparr>"]
      assms(4-9) by (simp add: anchor_key_def)
  ultimately show ?thesis by simp
qed

lemma relax_reloc_call:
  assumes "relax_reloc c lay sy dat loc r rest = Some e" "e_type e \<in> {R_RISCV_JAL, R_RISCV_RVC_JUMP}"
  shows "e = relaxCall c lay sy dat loc r"
  using assms
  by (auto simp: relax_reloc_def relaxTlsLe_def relaxHi20Lo12_def no_edit_def e_type_def Let_def
      split: if_splits option.splits RelType.splits)

text \<open>The symbols a pass has computed when it reaches relocation \<open>i\<close>, from the deltas it records: the
  anchors at or before an earlier relocation are moved, the others still have the values of the
  pass before.\<close>

definition moved_symbols :: "Relocation list \<Rightarrow> u32 list \<Rightarrow> SymbolAnchor list \<Rightarrow> symtab \<Rightarrow> nat \<Rightarrow> symtab" where
  "moved_symbols rs ds as sy i =
    fold (\<lambda>a. move_anchor (of_nat (delta_before rs ds (unat (a_offset a)))) a) (takeWhile (passed rs i) as) sy"

text \<open>The symbols of a section are where its recorded deltas put them.\<close>

definition settled :: "nat \<Rightarrow> link_state \<Rightarrow> bool" where
  "settled s st \<longleftrightarrow> (\<forall>a\<in>set (anchors (aux_of st s)).
    move_anchor (of_nat (delta_before (relocs (secs st s)) (relocDeltas (aux_of st s)) (unat (a_offset a)))) a (syms st) = syms st)"

lemma fold_fixed: "\<forall>a\<in>set as. f a sy = sy \<Longrightarrow> fold f as sy = sy"
  by (induction as) auto

lemma moved_symbols_settled:
  "settled s st \<Longrightarrow>
    moved_symbols (relocs (secs st s)) (relocDeltas (aux_of st s)) (anchors (aux_of st s)) (syms st) i = syms st"
  unfolding moved_symbols_def settled_def by (rule fold_fixed) (auto dest: set_takeWhileD)

lemma relaxed_with_delta_before:
  assumes "relaxed_with c lay s st st' es"
  shows "delta_before (relocs (secs st s)) (relocDeltas (aux_of st' s)) p = removed es (before (relocs (secs st s)) p)"
  using delta_before_eq [OF relaxed_with_deltas(4) [OF assms] relaxed_with_deltas(5) [OF assms]] relaxed_with_deltas(1) [OF assms]
  by simp

lemma relaxed_with_syms:
  assumes "relaxed_with c lay s st st' es" "sorted (map anchor_key (anchors (aux_of st s)))"
  shows "syms st' = fold (\<lambda>a. move_anchor (of_nat (delta_before (relocs (secs st s)) (relocDeltas (aux_of st' s)) (unat (a_offset a)))) a)
      (anchors (aux_of st s)) (syms st)"
    "moved_upto (relocs (secs st s)) es 0 (anchors (aux_of st s)) (syms st) i =
      moved_symbols (relocs (secs st s)) (relocDeltas (aux_of st' s)) (anchors (aux_of st s)) (syms st) i"
  using assms(1) sorted_anchor_offset [OF assms(2)]
  by (simp_all add: relaxed_with_delta_before [OF assms(1)] relocs_before_before moved_upto_def moved_symbols_def)
    (simp add: relaxed_with_def Let_def relocs_before_before)

lemma fold_move_anchor_None:
  "sy k = None \<Longrightarrow> fold (\<lambda>a. move_anchor (D (a_offset a)) a) as sy k = None"
proof (induction as arbitrary: sy)
  case (Cons a as)
  then have "move_anchor (D (a_offset a)) a sy k = None" by (auto simp: move_anchor_def split: option.split)
  then show ?case by (simp add: Cons.IH)
qed simp

text \<open>The anchors come in pairs of a start and an end, one pair for each symbol, as
  \<open>initSymbolAnchors\<close> makes them.\<close>

definition paired :: "SymbolAnchor list \<Rightarrow> bool" where
  "paired as \<longleftrightarrow> (\<forall>k\<in>a_sym ` set as. \<exists>off sz. off \<le> off + sz \<and>
    {a \<in> set as. a_sym a = k} =
      {\<lparr>a_offset = off, a_sym = k, a_end = False\<rparr>, \<lparr>a_offset = off + sz, a_sym = k, a_end = True\<rparr>})"

text \<open>A pass leaves the symbols of its section where the deltas it records put them.\<close>

theorem relax_settled:
  assumes "relax c lay s st = Inr (ch, st')" "length (relocs (secs st s)) < 2 ^ 32"
    "length (relocDeltas (aux_of st s)) = length (relocs (secs st s))"
    "sorted (map anchor_key (anchors (aux_of st s)))" "paired (anchors (aux_of st s))"
  shows "settled s st'"
proof -
  from relax_trace [OF assms(1-3)] obtain es where rel: "relaxed_with c lay s st st' es" by blast
  let ?as = "anchors (aux_of st s)"
  define D where "D p = (of_nat (delta_before (relocs (secs st s)) (relocDeltas (aux_of st' s)) (unat p)) :: u64)" for p :: u64
  have syms: "syms st' = fold (\<lambda>a. move_anchor (D (a_offset a)) a) ?as (syms st)"
    using relaxed_with_syms(1) [OF rel assms(4)] by (simp add: D_def)
  have "move_anchor (D (a_offset a)) a (syms st') = syms st'" if a: "a \<in> set ?as" for a
  proof (cases "syms st (a_sym a)")
    case None
    then have "syms st' (a_sym a) = None" unfolding syms by (rule fold_move_anchor_None)
    then show ?thesis by (simp add: move_anchor_def)
  next
    case (Some d)
    obtain off sz where p: "off \<le> off + sz" "{b \<in> set ?as. a_sym b = a_sym a} =
      {\<lparr>a_offset = off, a_sym = a_sym a, a_end = False\<rparr>, \<lparr>a_offset = off + sz, a_sym = a_sym a, a_end = True\<rparr>}"
      using assms(5) [unfolded paired_def, rule_format, OF imageI [OF a]] by (elim exE conjE)
    define b where "b = \<lparr>a_offset = off, a_sym = a_sym a, a_end = False\<rparr>"
    define e where "e = \<lparr>a_offset = off + sz, a_sym = a_sym a, a_end = True\<rparr>"
    have mem: "x \<in> set ?as \<and> a_sym x = a_sym a \<longleftrightarrow> x = b \<or> x = e" for x
      using eqset_imp_iff [OF p(2) [folded b_def e_def], of x] by simp
    have be: "a_sym b = a_sym a" "a_sym e = a_sym a" "\<not> a_end b" "a_end e" "anchor_key b < anchor_key e"
      "a_offset b = off" "a_offset e = off + sz"
      using p(1) by (simp_all add: b_def e_def anchor_key_def)
    have a2: "a = b \<or> a = e" and ins: "b \<in> set ?as" "e \<in> set ?as" using mem [of a] mem [of b] mem [of e] a by simp_all
    have only: "\<forall>x\<in>set ?as. a_sym x = a_sym a \<longrightarrow> x = b \<or> x = e"
      by (intro ballI impI) (rule mem [THEN iffD1, OF conjI])
    have "fold (\<lambda>a. move_anchor (D (a_offset a)) a) ?as (syms st) (a_sym a) =
        Some (d\<lparr>d_value := a_offset b - D (a_offset b),
          d_size := a_offset e - D (a_offset e) - (a_offset b - D (a_offset b))\<rparr>)"
      by (rule fold_move_anchor [where sy = "syms st", OF only be(1-5) assms(4) Some]) (use ins in simp_all)
    then have "syms st' (a_sym a) = Some (d\<lparr>d_value := off - D off, d_size := off + sz - D (off + sz) - (off - D off)\<rparr>)"
      by (simp only: syms be)
    moreover have "a_offset a = (if a_end a then off + sz else off)"
      by (rule disjE [OF a2]) (simp_all only: be if_True if_False not_False_eq_True)
    ultimately show ?thesis by (cases "a_end a") (simp_all add: move_anchor_def fun_upd_idem)
  qed
  moreover have "relocs (secs st' s) = relocs (secs st s)" "anchors (aux_of st' s) = ?as"
    using rel relaxed_with_deltas(3) [OF rel] by (simp_all add: relaxed_with_def Let_def)
  ultimately show ?thesis by (simp add: settled_def D_def)
qed

text \<open>C12: whenever a pass turns a call into a \<open>jal\<close>, \<open>c.j\<close> or \<open>c.jal\<close>, the target is within the
  range of that instruction from the place the call has after the earlier deletions, so relocating
  it reports no range error. The target is the symbol's address in the table the pass has computed
  when it reaches the call: symbols anchored at or before an earlier relocation at their new
  offsets, the others at the offsets of the pass before. In a pass that changes nothing, after one
  that left the symbols where its deltas put them, this is the final symbol table.\<close>

theorem relax_call_in_range:
  assumes "relax c lay s st = Inr (ch, st')" "length (relocs (secs st s)) < 2 ^ 32"
    "length (relocDeltas (aux_of st s)) = length (relocs (secs st s))"
    "sorted (map anchor_key (anchors (aux_of st s)))"
    "i < length (relocs (secs st s))" "r = relocs (secs st s) ! i"
    "t = relocTypes (aux_of st' s) ! i" "t \<in> {R_RISCV_JAL, R_RISCV_RVC_JUMP}"
    "here = secVA lay s + r_offset r - ucast (prev_delta (relocDeltas (aux_of st' s)) i)"
    "sy = moved_symbols (relocs (secs st s)) (relocDeltas (aux_of st' s)) (anchors (aux_of st s)) (syms st) i"
    "dest = (if r_expr r = R_PLT_PC then pltVA lay (r_sym r) else symVA lay sy (r_sym r) 0) + r_addend r"
  shows "isInt (jump_width t) (dest - here) \<and>
    (t = R_RISCV_RVC_JUMP \<longrightarrow> cfg_eflags c AND EF_RISCV_RVC \<noteq> 0) \<and>
    (\<not> ch \<and> settled s st \<longrightarrow> sy = syms st')"
proof -
  from relax_trace [OF assms(1-3)] obtain es where rel: "relaxed_with c lay s st st' es"
    and ch: "ch \<longleftrightarrow> relocDeltas (aux_of st' s) \<noteq> relocDeltas (aux_of st s)" by blast
  note d = relaxed_with_deltas [OF rel] and syms = relaxed_with_syms [OF rel assms(4)]
  have i: "i < length es" using assms(5) d(4) by simp
  have here: "here = secVA lay s + r_offset r - of_nat (removed es i)"
    using prev_delta_eq(2) [OF i d(5)] d(1) assms(9) by simp
  have e: "relax_reloc c lay sy (content (secs st s)) here r (drop (Suc i) (relocs (secs st s))) = Some (es ! i)"
    using rel assms(5,6) syms(2) [of i] sorted_anchor_offset [OF assms(4)]
    by (auto simp: relaxed_with_def Let_def here assms(10))
  have "t = e_type (relaxCall c lay sy (content (secs st s)) here r)"
    using relax_reloc_call [OF e] d(2) i assms(7,8) by simp
  then have "isInt (jump_width t) (dest - here) \<and> (t = R_RISCV_RVC_JUMP \<longrightarrow> cfg_eflags c AND EF_RISCV_RVC \<noteq> 0)"
    using assms(8) unfolding assms(11)
    by (auto simp: relaxCall_def no_edit_def e_type_def jump_width_def Let_def split: if_splits)
  moreover have "sy = syms st'" if "\<not> ch" "settled s st"
  proof -
    have eq: "relocDeltas (aux_of st' s) = relocDeltas (aux_of st s)" using that(1) ch by blast
    have "syms st' = syms st"
      unfolding syms(1) eq using that(2) unfolding settled_def by (rule fold_fixed)
    then show ?thesis unfolding assms(10) eq moved_symbols_settled [OF that(2)] by (rule sym)
  qed
  ultimately show ?thesis by blast
qed

text \<open>C9: rewriting a well-formed section after a pass always succeeds: no assertion fails, nothing is
  read or written out of bounds, and the new contents have exactly the size the pass announced.\<close>

theorem finalize_succeeds:
  assumes "relax c lay s st = Inr (ch, st')" "wf_section lay s st" "relocs (secs st s) \<noteq> []"
  shows "\<exists>sec'. finalize_section (secs st' s) = Inr sec' \<and> sec_size sec' = of_nat (length (content sec')) \<and>
    length (content sec') + unat (bytesDropped (secs st' s)) = length (content (secs st s)) \<and>
    length (relocs sec') = length (relocs (secs st s))"
proof -
  from relax_trace [OF assms(1)] assms(2) obtain es where rel: "relaxed_with c lay s st st' es"
    by (auto simp: wf_section_def Let_def)
  note d = relaxed_with_deltas [OF rel]
  obtain out ts sec' where f: "finalize_section (secs st' s) = Inr sec'" "content sec' = out" "sec_size sec' = of_nat (length out)"
    "relocs sec' = shift_relocs None 0 0 (relocs (secs st s)) (edit_deltas 0 es) ts"
    "length ts = length (relocs (secs st s))" "length out + removed es (length es) = length (content (secs st s))"
    using finalize_relaxed [OF rel assms(2,3)] by metis
  have "length (edit_deltas 0 es) = length (relocs (secs st s))" by (simp add: edit_deltas_def d(4))
  then show ?thesis
    using f d(5,6) by (simp add: shift_relocs_length unat_of_nat32)
qed

text \<open>C8: rewriting keeps every byte outside the instructions and padding that relocations cover, at
  its old offset less the bytes removed before it, and it shifts every relocation by the same
  rule.\<close>

theorem finalize_keeps:
  assumes "relax c lay s st = Inr (ch, st')" "wf_section lay s st" "relocs (secs st s) \<noteq> []"
    "finalize_section (secs st' s) = Inr sec'"
    "D = delta_before (relocs (secs st s)) (relocDeltas (aux_of st' s))"
  shows "(\<forall>p<length (content (secs st s)). kept (relocs (secs st s)) p \<longrightarrow>
       D p \<le> p \<and> content sec' ! (p - D p) = content (secs st s) ! p) \<and>
    map r_offset (relocs sec') = map (\<lambda>r. r_offset r - of_nat (D (unat (r_offset r)))) (relocs (secs st s))"
proof -
  from relax_trace [OF assms(1)] assms(2) obtain es where rel: "relaxed_with c lay s st st' es"
    by (auto simp: wf_section_def Let_def)
  note d = relaxed_with_deltas [OF rel]
  obtain out ts where f: "content sec' = out"
    "relocs sec' = shift_relocs None 0 0 (relocs (secs st s)) (edit_deltas 0 es) ts"
    "length ts = length (relocs (secs st s))" "rewritten (content (secs st s)) (relocs (secs st s)) es 0 out"
    using finalize_relaxed [OF rel assms(2,3)] assms(4) by (metis Inr_inject)
  have D: "D p = removed es (before (relocs (secs st s)) p)" for p
    using delta_before_eq [OF d(4,5)] d(1) assms(5) by simp
  have srt: "sorted (map r_offset (relocs (secs st s)))" using assms(2) by (simp add: wf_section_def Let_def)
  have len: "length (relocs sec') = length (relocs (secs st s))"
    by (simp add: f shift_relocs_length edit_deltas_def d(4))
  have "map r_offset (relocs sec') = map (\<lambda>r. r_offset r - of_nat (D (unat (r_offset r)))) (relocs (secs st s))"
  proof (rule nth_equalityI)
    fix i assume "i < length (map r_offset (relocs sec'))"
    then have i: "i < length (relocs (secs st s))" using len by simp
    have "relocs sec' ! i = (relocs (secs st s) ! i)\<lparr>r_offset := r_offset (relocs (secs st s) ! i) -
        of_nat (D (unat (r_offset (relocs (secs st s) ! i)))),
        r_type := (if ts ! i \<noteq> R_RISCV_NONE then ts ! i else r_type (relocs (secs st s) ! i))\<rparr>"
      using shift_relocs_nth [OF srt _ d(4) f(3) i, of None 0 0] d(5) by (simp add: f(2) D)
    then show "map r_offset (relocs sec') ! i = map (\<lambda>r. r_offset r - of_nat (D (unat (r_offset r)))) (relocs (secs st s)) ! i"
      using i len by simp
  qed (simp add: len)
  then show ?thesis
    using f(4) by (simp add: rewritten_def D f(1))
qed

lemma read32le_mem_bytes: "read32le (drop n xs) = w" if "take 4 (drop n xs) = mem_bytes w" for w :: u32
  using that by (simp add: read32le_def of_mem_bytes_mem_bytes)

text \<open>The instruction of a relaxed relocation stands, after rewriting, where the relocation now
  points: its bytes are the ones the edit prescribes.\<close>

theorem finalize_places_jal:
  assumes "relax c lay s st = Inr (ch, st')" "wf_section lay s st" "i < length (relocs (secs st s))"
    "finalize_section (secs st' s) = Inr sec'"
    "r = relocs (secs st s) ! i" "relocTypes (aux_of st' s) ! i = R_RISCV_JAL"
    "D = prev_delta (relocDeltas (aux_of st' s)) i"
    "rd = extractBits (read64le (drop (unat (r_offset r)) (content (secs st s)))) 43 39"
  shows "unat D \<le> unat (r_offset r) \<and>
    read32le (drop (unat (r_offset r) - unat D) (content sec')) = 0x6f OR push_bit 7 rd"
proof -
  from relax_trace [OF assms(1)] assms(2) obtain es where rel: "relaxed_with c lay s st st' es"
    by (auto simp: wf_section_def Let_def)
  note d = relaxed_with_deltas [OF rel]
  have i: "i < length es" "relocs (secs st s) \<noteq> []" using assms(3) d(4) by auto
  have rw: "rewritten (content (secs st s)) (relocs (secs st s)) es 0 (content sec')"
    using finalize_relaxed [OF rel assms(2) i(2)] assms(4) by (metis Inr_inject)
  obtain sy loc where e: "relax_reloc c lay sy (content (secs st s)) loc r (drop (Suc i) (relocs (secs st s))) = Some (es ! i)"
    using rel assms(3,5) by (auto simp: relaxed_with_def Let_def)
  have t: "e_type (es ! i) = R_RISCV_JAL" using d(2) i assms(6) by simp
  then have "es ! i = relaxCall c lay sy (content (secs st s)) loc r" using relax_reloc_call [OF e] by simp
  with t have es: "es ! i = (R_RISCV_JAL, [0x6f OR push_bit 7 rd], 4)"
    by (auto simp: relaxCall_def no_edit_def e_type_def assms(8) Let_def split: if_splits)
  obtain new where ok: "edit_ok r (es ! i) new"
    using list_all2_nthD [OF edits_ok [OF rel assms(2)] assms(3)] assms(5) by blast
  then have new: "new = mem_bytes (0x6f OR push_bit 7 rd)"
    by (auto simp: edit_ok_def es finalize_edit_def e_type_def e_remove_def e_writes_def code_size_def split: if_splits)
  have D: "unat D = removed es i" using prev_delta_eq(1) [OF i(1) d(5)] d(1) assms(7) by simp
  have "removed es i \<le> unat (r_offset r) \<and> take (length new) (drop (unat (r_offset r) - removed es i) (content sec')) = new"
    using rw ok assms(3,5) t unfolding rewritten_def by auto
  then show ?thesis by (simp add: D new read32le_mem_bytes)
qed

section \<open>Local-exec TLS\<close>

lemma small_mod_32:
  "s mod 4294967296 < 4096 \<Longrightarrow> - 2147483648 \<le> s \<Longrightarrow> s < 2147485696 \<Longrightarrow> 0 \<le> s \<and> s < 4096" for s :: int
proof -
  assume a: "s mod 4294967296 < 4096" "- 2147483648 \<le> s" "s < 2147485696"
  have s: "s = 4294967296 * (s div 4294967296) + s mod 4294967296" by simp
  have "0 \<le> s mod 4294967296" by simp
  with s a have "s div 4294967296 = 0" by linarith
  then show ?thesis using s a(1) \<open>0 \<le> s mod 4294967296\<close> by linarith
qed

lemma hi20_zero:
  fixes val :: u64
  assumes "hi20 (ucast val) = 0" "- (2 ^ 31) \<le> sint (val + 0x800)" "sint (val + 0x800) < 2 ^ 31 + 2 ^ 11"
  shows "isInt 12 val"
proof -
  let ?y = "val + 0x800"
  have "ucast val + 0x800 = (ucast ?y :: u32)"
    using ucast_word_of_int_down [where 'a = 64 and 'b = 32, of "uint val + 0x800"] by simp
  then have "drop_bit 12 (ucast ?y :: u32) = 0" using assms(1) by (simp add: hi20_def)
  then have "\<not> bit (drop_bit 12 (ucast ?y :: u32)) m" for m
    by (simp only: bit_0_eq) simp
  then have "\<not> bit (ucast ?y :: u32) (12 + m)" for m
    by (simp only: bit_drop_bit_eq comp_def not_False_eq_True)
  then have "\<not> bit (ucast ?y :: u32) n" if "12 \<le> n" for n
    using that le_add_diff_inverse [OF that] by (metis (no_types))
  then have "uint (ucast ?y :: u32) < 2 ^ 12"
    unfolding uint_less_2p_iff_bits by blast
  moreover have "uint (ucast ?y :: u32) = sint ?y mod 2 ^ 32"
  proof -
    have "take_bit 32 (sint ?y) = take_bit 32 (uint ?y)"
      unfolding sint_uint [of ?y] by (rule take_bit_signed_take_bit) simp
    moreover have "uint (ucast ?y :: u32) = take_bit 32 (uint ?y)"
      using unsigned_ucast_eq [where 'a = int and 'b = 64 and 'c = 32, of ?y] by simp
    ultimately show ?thesis by (simp only: take_bit_eq_mod)
  qed
  ultimately have "sint ?y mod 2 ^ 32 < 4096"
    by simp
  then have y: "0 \<le> sint ?y" "sint ?y < 4096"
    using small_mod_32 [of "sint ?y"] assms(2,3) by simp_all
  have "val = word_of_int (sint ?y - 0x800)" by simp
  then have "sint val = sint ?y - 0x800"
    using sint_word_of_int_64 [of "sint ?y - 0x800"] y by simp
  then show ?thesis using y by (simp add: isInt_iff_aux)
qed

lemma relaxTlsLe_lo:
  assumes "r_type r = R_RISCV_TPREL_LO12_I \<or> r_type r = R_RISCV_TPREL_LO12_S" "val = symVA lay sy (r_sym r) (r_addend r)"
    "insn = (read32le (drop (unat (r_offset r)) dat) AND NOT (push_bit 15 31)) OR push_bit 15 X_TP"
  shows "relaxTlsLe lay sy dat r = (if hi20 (ucast val) \<noteq> 0 then no_edit
    else (R_RISCV_32, [if r_type r = R_RISCV_TPREL_LO12_I then setLO12_I insn (ucast val) else setLO12_S insn (ucast val)], 0))"
  using assms by (auto simp: relaxTlsLe_def Let_def)

lemma setLO12_tp:
  fixes w x :: u32
  defines "insn \<equiv> (w AND NOT (push_bit 15 31)) OR push_bit 15 X_TP"
  shows "drop_bit 15 (setLO12_I insn x) AND 0x1f = X_TP" "drop_bit 15 (setLO12_S insn x) AND 0x1f = X_TP"
    "setLO12_I insn x AND 0x7f = w AND 0x7f" "setLO12_S insn x AND 0x7f = w AND 0x7f"
  unfolding insn_def X_TP_def setLO12_I_def setLO12_S_def
  by (rule word_eqI_list; simp add: upts bit_simps bit_extractBits)+

text \<open>When the offset of a thread-local symbol fits 32 bits, the rewritten access reads it from the
  thread pointer: its immediate is the offset, its base register is \<open>tp\<close>, and the opcode stays.\<close>

theorem relaxTlsLe_sound:
  assumes "r_type r = R_RISCV_TPREL_LO12_I \<or> r_type r = R_RISCV_TPREL_LO12_S"
    "val = symVA lay sy (r_sym r) (r_addend r)" "isInt 32 val" "relaxTlsLe lay sy dat r = (R_RISCV_32, [w], 0)"
  shows "(if r_type r = R_RISCV_TPREL_LO12_I then dec_i w else dec_s w) = val \<and>
    drop_bit 15 w AND 0x1f = X_TP \<and> w AND 0x7f = read32le (drop (unat (r_offset r)) dat) AND 0x7f"
proof -
  let ?insn = "(read32le (drop (unat (r_offset r)) dat) AND NOT (push_bit 15 31)) OR push_bit 15 X_TP"
  have hi: "hi20 (ucast val) = 0" and w: "w = (if r_type r = R_RISCV_TPREL_LO12_I then setLO12_I ?insn (ucast val) else setLO12_S ?insn (ucast val))"
    using assms(4) unfolding relaxTlsLe_lo [OF assms(1,2) refl] by (auto simp: no_edit_def split: if_splits)
  have r: "- (2 ^ 31) \<le> sint val" "sint val < 2 ^ 31" using assms(3) by (simp_all add: isInt_iff_aux)
  have "sint (val + 0x800) = sint val + 0x800"
    using sint_word_of_int_64 [of "sint val + 0x800"] r by simp
  then have "isInt 12 val" using hi20_zero [OF hi] r by simp
  then have "SignExtend64 val 12 = val" by (simp add: isInt_SignExtend64)
  then show ?thesis
    using setLO12_tp [of "read32le (drop (unat (r_offset r)) dat)" "ucast val"] by (simp add: w dec_setLO12)
qed

text \<open>C15: when the offset of a thread-local symbol from the thread pointer does not fit 32 bits but the
  low half of its rounded upper part is zero, a pass on RV64 removes the \<open>lui\<close> and the \<open>add\<close> and makes
  the load, the \<open>addi\<close> or the store address the symbol by the sign-extended low 12 bits of the
  offset from \<open>tp\<close>, which is another address. Without relaxation the relocation of the \<open>lui\<close>
  reports the error; after it that relocation is inert, and those of the accesses report none.\<close>

theorem relaxTlsLe_wide_offset:
  fixes lay :: layout and r :: Relocation
  assumes "val = symVA lay sy (r_sym r) (r_addend r)" "hi20 (ucast val) = 0" "\<not> isInt 32 val" "is64 c"
    "insn = (read32le (drop (unat (r_offset r)) dat) AND NOT (push_bit 15 31)) OR push_bit 15 X_TP"
  shows "relaxTlsLe lay sy dat (r\<lparr>r_type := R_RISCV_TPREL_HI20\<rparr>) = (R_RISCV_RELAX, [], 4) \<and>
    relaxTlsLe lay sy dat (r\<lparr>r_type := R_RISCV_TPREL_ADD\<rparr>) = (R_RISCV_RELAX, [], 4) \<and>
    relaxTlsLe lay sy dat (r\<lparr>r_type := R_RISCV_TPREL_LO12_I\<rparr>) = (R_RISCV_32, [setLO12_I insn (ucast val)], 0) \<and>
    dec_i (setLO12_I insn (ucast val)) = SignExtend64 val 12 \<and>
    drop_bit 15 (setLO12_I insn (ucast val)) AND 0x1f = X_TP \<and>
    relaxTlsLe lay sy dat (r\<lparr>r_type := R_RISCV_TPREL_LO12_S\<rparr>) = (R_RISCV_32, [setLO12_S insn (ucast val)], 0) \<and>
    dec_s (setLO12_S insn (ucast val)) = SignExtend64 val 12 \<and>
    drop_bit 15 (setLO12_S insn (ucast val)) AND 0x1f = X_TP \<and>
    SignExtend64 val 12 \<noteq> val \<and>
    (\<exists>loc' ds. relocate c gp loc R_RISCV_TPREL_HI20 val = Some (loc', ds) \<and> ds \<noteq> []) \<and>
    relocate c gp loc R_RISCV_RELAX val = Some (loc, []) \<and>
    (\<exists>loc'. relocate c gp loc R_RISCV_TPREL_LO12_I val = Some (loc', [])) \<and>
    (\<exists>loc'. relocate c gp loc R_RISCV_TPREL_LO12_S val = Some (loc', []))"
proof -
  have not12: "\<not> isInt 12 val"
    using assms(3) by (auto simp: isInt_iff_aux)
  have "checkInt (signed_drop_bit 12 (SignExtend64 (val + 0x800) (wordsize c * 8))) 20 R_RISCV_TPREL_HI20 \<noteq> []"
  proof
    let ?y = "val + 0x800"
    assume chk: "checkInt (signed_drop_bit 12 (SignExtend64 ?y (wordsize c * 8))) 20 R_RISCV_TPREL_HI20 = []"
    have "SignExtend64 ?y 64 = ?y" by (rule bit_word_eqI) (simp add: bit_SignExtend64 min_def)
    then have "isInt 20 (signed_drop_bit 12 ?y)"
      using chk assms(4) by (simp add: checkInt_iff isInt_SignExtend64 wordsize_def)
    then have "- (2 ^ 19) \<le> sint ?y div 4096" "sint ?y div 4096 < 2 ^ 19"
      by (simp_all add: isInt_iff_aux sint_signed_drop_bit)
    then have "- (2 ^ 31) \<le> sint ?y" "sint ?y < 2 ^ 31 + 2 ^ 11"
      using mult_div_mod_eq [of 4096 "sint ?y"] pos_mod_bound [of 4096 "sint ?y"] pos_mod_sign [of 4096 "sint ?y"]
      by simp_all
    then show False using hi20_zero [OF assms(2)] not12 by blast
  qed
  then have "\<exists>loc' ds. relocate c gp loc R_RISCV_TPREL_HI20 val = Some (loc', ds) \<and> ds \<noteq> []"
    by (simp add: relocate_halves(1) hi20_types_def)
  moreover have "SignExtend64 val 12 \<noteq> val" using not12 by (simp add: isInt_SignExtend64)
  moreover have "relocate c gp loc R_RISCV_RELAX val = Some (loc, [])"
    by (simp add: relocate.simps relocate_data_def)
  ultimately show ?thesis
    using assms(1,2) setLO12_tp(1,2) [of "read32le (drop (unat (r_offset r)) dat)" "ucast val"]
    by (simp add: relaxTlsLe_def dec_setLO12 assms(5) relocate_halves(2,3) lo12_i_types_def lo12_s_types_def)
qed

section \<open>Initialising the anchors\<close>

definition new_anchors :: "symtab \<Rightarrow> nat \<Rightarrow> nat \<times> nat \<Rightarrow> SymbolAnchor list" where
  "new_anchors sy s fk = (case sy (snd fk) of
      None \<Rightarrow> []
    | Some d \<Rightarrow> if (d_file d = fst fk \<or> scriptDefined d) \<and> d_section d = Some s
        then [\<lparr>a_offset = d_value d, a_sym = snd fk, a_end = False\<rparr>, \<lparr>a_offset = d_value d + d_size d, a_sym = snd fk, a_end = True\<rparr>]
        else [])"

lemma pushAnchors_syms: "syms (pushAnchors f k st) = syms st"
  by (auto simp: pushAnchors_def Let_def split: option.splits)

lemma pushAnchors_sec:
  assumes "relaxAux (secs st s) = Some aux" "execinstr (secs st s)"
  shows "secs (pushAnchors f k st) s = (secs st s)\<lparr>relaxAux := Some (aux\<lparr>anchors := anchors aux @ new_anchors (syms st) s (f, k)\<rparr>)\<rparr>"
  using assms by (auto simp: pushAnchors_def new_anchors_def Let_def split: option.splits)

lemma fold_pushAnchors:
  assumes "relaxAux (secs st s) = Some aux" "execinstr (secs st s)"
  shows "secs (fold (\<lambda>(f, k). pushAnchors f k) fks st) s =
      (secs st s)\<lparr>relaxAux := Some (aux\<lparr>anchors := anchors aux @ concat (map (new_anchors (syms st) s) fks)\<rparr>)\<rparr> \<and>
    syms (fold (\<lambda>(f, k). pushAnchors f k) fks st) = syms st"
  using assms
proof (induction fks arbitrary: st aux)
  case (Cons fk fks)
  obtain f k where fk: "fk = (f, k)" by (cases fk)
  note p = pushAnchors_sec [OF Cons.prems, of f k] pushAnchors_syms [of f k st]
  show ?case
    using Cons.IH [of "pushAnchors f k st"] Cons.prems by (simp add: fk p)
qed simp

lemma fold_files: "fold (\<lambda>(file, symbols) st. fold (pushAnchors file) symbols st) files st =
  fold (\<lambda>(f, k). pushAnchors f k) (concat (map (\<lambda>(f, ks). map (Pair f) ks) files)) st"
  by (induction files arbitrary: st) (auto simp: fold_map comp_def)

lemma fold_update_sec:
  fixes st :: link_state
  assumes "\<And>x. g (g x) = g x"
  shows "secs (fold (\<lambda>s st. st\<lparr>secs := (secs st)(s := g (secs st s))\<rparr>) ids st) s = (if s \<in> set ids then g (secs st s) else secs st s) \<and>
    syms (fold (\<lambda>s st. st\<lparr>secs := (secs st)(s := g (secs st s))\<rparr>) ids st) = syms st"
  by (induction ids arbitrary: st) (auto simp: assms)

text \<open>C14: after initialisation every executable section has exactly the start and end anchors of the
  symbols defined in it, in the order the pass needs, and all deltas are zero.\<close>

theorem initSymbolAnchors_spec:
  assumes "s \<in> set (execSections outs)" "execinstr (secs st s)"
  shows "\<exists>aux. relaxAux (secs (initSymbolAnchors outs files st) s) = Some aux \<and> sorted (map anchor_key (anchors aux)) \<and>
    relocDeltas aux = replicate (length (relocs (secs st s))) 0 \<and>
    mset (anchors aux) = (\<Sum>(f, ks) \<leftarrow> files. \<Sum>k \<leftarrow> ks. mset (new_anchors (syms st) s (f, k))) \<and>
    syms (initSymbolAnchors outs files st) = syms st"
proof -
  let ?ids = "execSections outs"
  let ?fks = "concat (map (\<lambda>(f, ks). map (Pair f) ks) files)"
  define init where "init sec = sec\<lparr>relaxAux := Some (emptyAux sec)\<rparr>" for sec :: InputSection
  define sort' where "sort' sec = sec\<lparr>relaxAux := map_option (\<lambda>aux. aux\<lparr>anchors := sort_key anchor_key (anchors aux)\<rparr>) (relaxAux sec)\<rparr>" for sec :: InputSection
  have ii: "init (init x) = init x" for x by (simp add: init_def emptyAux_def)
  have ss: "sort' (sort' x) = sort' x" for x
    by (cases "relaxAux x") (simp_all add: sort'_def sort_key_id_if_sorted)
  define st1 where "st1 = fold (\<lambda>s st. st\<lparr>secs := (secs st)(s := init (secs st s))\<rparr>) ?ids st"
  define st2 where "st2 = fold (\<lambda>(f, k). pushAnchors f k) ?fks st1"
  have eq: "initSymbolAnchors outs files st = fold (\<lambda>s st. st\<lparr>secs := (secs st)(s := sort' (secs st s))\<rparr>) ?ids st2"
    unfolding initSymbolAnchors_def Let_def st2_def st1_def init_def sort'_def fold_files ..
  have 1: "secs st1 s = init (secs st s)" "syms st1 = syms st"
    using fold_update_sec [of init ?ids st s, OF ii] assms(1) unfolding st1_def by simp_all
  have 2: "secs st2 s = (init (secs st s))\<lparr>relaxAux := Some ((emptyAux (secs st s))
      \<lparr>anchors := concat (map (new_anchors (syms st) s) ?fks)\<rparr>)\<rparr>" "syms st2 = syms st"
    using fold_pushAnchors [of st1 s "emptyAux (secs st s)" ?fks] assms(2) 1
    by (simp_all add: st2_def init_def emptyAux_def)
  have 3: "secs (initSymbolAnchors outs files st) s = sort' (secs st2 s)" "syms (initSymbolAnchors outs files st) = syms st"
    using fold_update_sec [of sort' ?ids st2 s, OF ss] assms(1) 2(2) unfolding eq by simp_all
  have "mset (concat (map (new_anchors (syms st) s) ?fks)) = (\<Sum>(f, ks) \<leftarrow> files. \<Sum>k \<leftarrow> ks. mset (new_anchors (syms st) s (f, k)))"
    by (induction files) (auto simp: mset_concat comp_def)
  then show ?thesis
    by (simp add: 3 2 sort'_def init_def emptyAux_def)
qed

section \<open>A section at work\<close>

text \<open>A call at offset 0, an alignment to 8 at offset 8, and a symbol over the instruction after it, in a
  section at address \<open>0x1000\<close>; and an access to a thread-local symbol.\<close>

definition ex_config :: config where
  "ex_config = \<lparr>is64 = True, cfg_relax = True, cfg_eflags = 1, writeAddends = False\<rparr>"

definition ex_layout :: layout where
  "ex_layout = \<lparr>secVA = (\<lambda>_. 0x1000), symVA = (\<lambda>sy k a. (case sy k of None \<Rightarrow> 0x1100 | Some d \<Rightarrow> 0x1000 + d_value d) + a), pltVA = (\<lambda>_. 0), gpVA = None\<rparr>"

definition ex_state :: link_state where
  "ex_state = \<lparr>secs = (\<lambda>_. \<lparr>execinstr = True,
       content = [0x97, 0, 0, 0, 0xe7, 0x80, 0, 0, 0x13, 0, 0, 0, 1, 0, 0x82, 0x80], sec_size = 16, bytesDropped = 0,
       relocs = [\<lparr>r_expr = R_PC, r_type = R_RISCV_CALL, r_offset = 0, r_addend = 0, r_sym = 1\<rparr>,
         \<lparr>r_expr = R_NONE, r_type = R_RISCV_RELAX, r_offset = 0, r_addend = 0, r_sym = 0\<rparr>,
         \<lparr>r_expr = R_RELAX_HINT, r_type = R_RISCV_ALIGN, r_offset = 8, r_addend = 6, r_sym = 0\<rparr>],
       relaxAux = Some \<lparr>anchors = [\<lparr>a_offset = 14, a_sym = 1, a_end = False\<rparr>, \<lparr>a_offset = 16, a_sym = 1, a_end = True\<rparr>],
         relocDeltas = [0, 0, 0], relocTypes = [], writes = []\<rparr>\<rparr>),
     syms = [1 \<mapsto> \<lparr>d_file = 0, scriptDefined = False, d_section = Some 0, d_value = 14, d_size = 2\<rparr>]\<rparr>"

definition ex_relaxed :: link_state where
  "ex_relaxed = snd (projr (relax ex_config ex_layout 0 ex_state))"

definition ex_final :: InputSection where
  "ex_final = projr (finalize_section (secs ex_relaxed 0))"

lemma ex_relax: "relax ex_config ex_layout 0 ex_state = Inr (True, ex_relaxed)"
proof -
  have "\<not> isl (relax ex_config ex_layout 0 ex_state)" "fst (projr (relax ex_config ex_layout 0 ex_state)) = True"
    by code_simp+
  then show ?thesis
    unfolding ex_relaxed_def by (metis prod.collapse sum.collapse(2))
qed

lemma ex_finalize: "finalize_section (secs ex_relaxed 0) = Inr ex_final"
proof -
  have "\<not> isl (finalize_section (secs ex_relaxed 0))" by code_simp
  then show ?thesis unfolding ex_final_def by simp
qed

lemma ex_lengths: "length (relocs (secs ex_state 0)) = 3" "length (relocDeltas (aux_of ex_state 0)) = 3"
  by (simp_all add: ex_state_def aux_of_def)

lemma ex_deltas: "relocDeltas (aux_of ex_relaxed 0) = [4, 4, 6]" "relocTypes (aux_of ex_relaxed 0) = [R_RISCV_JAL, R_RISCV_NONE, R_RISCV_NONE]"
  by code_simp+

lemma ex_wf: "wf_section ex_layout 0 ex_state"
  by (simp add: wf_section_def ex_layout_def ex_state_def aux_of_def code_size_def wf_align_def)

lemma relax_deltas_witness: "sorted [4, 4, 6 :: u32] \<and> bytesDropped (secs ex_relaxed 0) = 6"
  using relax_deltas [OF ex_relax] by (simp add: ex_lengths ex_deltas) (simp add: ex_state_def)

lemma relax_align_witness: "8 dvd unat (secVA ex_layout 0 + 8 + 6 - 6)"
proof -
  have *: "relocs (secs ex_state 0) ! 2 = \<lparr>r_expr = R_RELAX_HINT, r_type = R_RISCV_ALIGN, r_offset = 8, r_addend = 6, r_sym = 0\<rparr>"
    by (simp add: ex_state_def)
  have "PowerOf2Ceil 8 = 8" by code_simp
  then show ?thesis
    using relax_align [OF ex_relax _ _ _ refl _ _ refl, of 2] * by (simp add: ex_lengths ex_deltas)
qed

lemma relax_symbols_witness:
  "\<exists>d'. syms ex_relaxed 1 = Some d' \<and> d_value d' = 8 \<and> d_value d' + d_size d' = 10"
proof -
  have *: "anchors (aux_of ex_state 0) = [\<lparr>a_offset = 14, a_sym = 1, a_end = False\<rparr>, \<lparr>a_offset = 16, a_sym = 1, a_end = True\<rparr>]"
    "\<exists>d. syms ex_state 1 = Some d"
    by (simp_all add: ex_state_def aux_of_def)
  then obtain d where d: "syms ex_state 1 = Some d" by blast
  have "delta_before (relocs (secs ex_state 0)) [4, 4, 6] 14 = 6" "delta_before (relocs (secs ex_state 0)) [4, 4, 6] 16 = 6"
    by (simp_all add: ex_state_def delta_before_def before_def)
  then show ?thesis
    using relax_symbols [OF ex_relax _ _ _ d _ _ _ _ refl, of 14 2] *
    by (auto simp: ex_lengths ex_deltas anchor_key_def)
qed

text \<open>The pass is run again: it changes nothing, and the range check is on the final address of the
  target, which the first pass has moved from offset 14 to offset 8.\<close>

definition ex_again :: link_state where
  "ex_again = snd (projr (relax ex_config ex_layout 0 ex_relaxed))"

lemma ex_relax_again: "relax ex_config ex_layout 0 ex_relaxed = Inr (False, ex_again)"
proof -
  have "\<not> isl (relax ex_config ex_layout 0 ex_relaxed)" "fst (projr (relax ex_config ex_layout 0 ex_relaxed)) = False"
    by code_simp+
  then show ?thesis
    unfolding ex_again_def by (metis prod.collapse sum.collapse(2))
qed

lemma ex_anchors: "anchors (aux_of ex_state 0) = [\<lparr>a_offset = 14, a_sym = 1, a_end = False\<rparr>, \<lparr>a_offset = 16, a_sym = 1, a_end = True\<rparr>]"
  by (simp add: ex_state_def aux_of_def)

lemma ex_again: "relocDeltas (aux_of ex_again 0) = [4, 4, 6]" "relocTypes (aux_of ex_again 0) = [R_RISCV_JAL, R_RISCV_NONE, R_RISCV_NONE]"
  "anchors (aux_of ex_relaxed 0) = anchors (aux_of ex_state 0)"
  "length (relocs (secs ex_relaxed 0)) = 3" "r_offset (relocs (secs ex_relaxed 0) ! 0) = 0"
  "r_expr (relocs (secs ex_relaxed 0) ! 0) = R_PC" "r_sym (relocs (secs ex_relaxed 0) ! 0) = 1"
  "r_addend (relocs (secs ex_relaxed 0) ! 0) = 0"
  "map_option d_value (syms ex_again 1) = Some 8"
  by code_simp+

lemma relax_settled_witness: "settled 0 ex_relaxed"
proof (rule relax_settled [OF ex_relax])
  show "paired (anchors (aux_of ex_state 0))"
    unfolding paired_def ex_anchors
  proof (intro ballI)
    fix k assume "k \<in> a_sym ` set [\<lparr>a_offset = 14, a_sym = 1, a_end = False\<rparr>, \<lparr>a_offset = 16, a_sym = 1, a_end = True\<rparr>]"
    then have "k = 1" by simp
    then show "\<exists>off sz. off \<le> off + sz \<and>
      {a \<in> set [\<lparr>a_offset = 14, a_sym = 1, a_end = False\<rparr>, \<lparr>a_offset = 16, a_sym = 1, a_end = True\<rparr>]. a_sym a = k} =
      {\<lparr>a_offset = off, a_sym = k, a_end = False\<rparr>, \<lparr>a_offset = off + sz, a_sym = k, a_end = True\<rparr>}"
      by (intro exI [of _ 14] exI [of _ 2]) auto
  qed
qed (simp_all add: ex_lengths ex_anchors anchor_key_def)

lemma relax_call_in_range_witness:
  "isInt 21 (symVA ex_layout (syms ex_again) 1 0 - secVA ex_layout 0) \<and> symVA ex_layout (syms ex_again) 1 0 = 0x1008"
proof -
  have final: "symVA ex_layout (syms ex_again) 1 0 = 0x1008"
    using ex_again(9) by (auto simp: ex_layout_def)
  define sy where "sy = moved_symbols (relocs (secs ex_relaxed 0)) (relocDeltas (aux_of ex_again 0))
    (anchors (aux_of ex_relaxed 0)) (syms ex_relaxed) 0"
  have "isInt 21 (symVA ex_layout sy 1 0 - secVA ex_layout 0) \<and> (settled 0 ex_relaxed \<longrightarrow> sy = syms ex_again)"
    using relax_call_in_range [OF ex_relax_again _ _ _ _ refl refl _ refl sy_def refl]
    by (simp add: ex_deltas ex_again ex_anchors anchor_key_def prev_delta_def jump_width_def)
  then have "isInt 21 (symVA ex_layout sy 1 0 - secVA ex_layout 0)" and sy: "sy = syms ex_again"
    using relax_settled_witness by blast+
  then show ?thesis using final by (simp only: sy)
qed

lemma finalize_succeeds_witness: "length (content ex_final) = 10"
proof -
  have "relocs (secs ex_state 0) \<noteq> []" "length (content (secs ex_state 0)) = 16" by (simp_all add: ex_state_def)
  moreover have "bytesDropped (secs ex_relaxed 0) = 6" by code_simp
  ultimately show ?thesis
    using finalize_succeeds [OF ex_relax ex_wf] ex_finalize by auto
qed

lemma finalize_keeps_witness: "content ex_final ! (14 - 6) = 0x82"
proof -
  have *: "relocs (secs ex_state 0) \<noteq> []" "kept (relocs (secs ex_state 0)) 14" "content (secs ex_state 0) ! 14 = 0x82"
    "length (content (secs ex_state 0)) = 16" "delta_before (relocs (secs ex_state 0)) [4, 4, 6] 14 = 6"
    by (simp_all add: ex_state_def kept_def code_size_def delta_before_def before_def)
  have "14 < length (content (secs ex_state 0))" using *(4) by simp
  with conjunct1 [OF finalize_keeps [OF ex_relax ex_wf *(1) ex_finalize refl, unfolded ex_deltas]] *(2)
  have "content ex_final ! (14 - delta_before (relocs (secs ex_state 0)) [4, 4, 6] 14) = content (secs ex_state 0) ! 14"
    by blast
  then show ?thesis by (simp only: *(3,5))
qed

lemma finalize_places_jal_witness: "read32le (content ex_final) = 0xef"
proof -
  have *: "relocs (secs ex_state 0) ! 0 = \<lparr>r_expr = R_PC, r_type = R_RISCV_CALL, r_offset = 0, r_addend = 0, r_sym = 1\<rparr>"
    by (simp add: ex_state_def)
  have "0x6f OR push_bit 7 (extractBits (read64le (content (secs ex_state 0))) 43 39) = 0xef" by code_simp
  then show ?thesis
    using finalize_places_jal [OF ex_relax ex_wf _ ex_finalize refl _ refl refl, of 0] *
    by (simp add: ex_lengths ex_deltas prev_delta_def)
qed

lemma relaxTlsLe_sound_witness: "dec_i 0x10020513 = 0x100"
proof -
  let ?r = "\<lparr>r_expr = R_TPREL, r_type = R_RISCV_TPREL_LO12_I, r_offset = 0, r_addend = 0x100 - 0x1100, r_sym = 0\<rparr>"
  have "relaxTlsLe ex_layout Map.empty [0x13, 5, 5, 0] ?r = (R_RISCV_32, [0x10020513], 0)" "isInt 32 0x100"
    by code_simp+
  then show ?thesis
    using relaxTlsLe_sound [of ?r "0x100" ex_layout Map.empty "[0x13, 5, 5, 0]" "0x10020513"]
    by (simp add: ex_layout_def)
qed

lemma relaxTlsLe_wide_offset_witness:
  "relaxTlsLe ex_layout Map.empty [0x13, 5, 5, 0]
      \<lparr>r_expr = R_TPREL, r_type = R_RISCV_TPREL_HI20, r_offset = 0, r_addend = 0x100000010 - 0x1100, r_sym = 0\<rparr> =
     (R_RISCV_RELAX, [], 4) \<and>
   relaxTlsLe ex_layout Map.empty [0x13, 5, 5, 0]
      \<lparr>r_expr = R_TPREL, r_type = R_RISCV_TPREL_LO12_I, r_offset = 0, r_addend = 0x100000010 - 0x1100, r_sym = 0\<rparr> =
     (R_RISCV_32, [0x01020513], 0) \<and> dec_i 0x01020513 = 0x10"
proof -
  have *: "hi20 (ucast (0x100000010 :: u64)) = 0" "\<not> isInt 32 0x100000010" "is64 ex_config"
    "setLO12_I ((read32le [0x13, 5, 5, 0] AND NOT (push_bit 15 31)) OR push_bit 15 X_TP) (ucast (0x100000010 :: u64)) = 0x01020513"
    "SignExtend64 0x100000010 12 = 0x10"
    by code_simp+
  show ?thesis
    using relaxTlsLe_wide_offset [OF _ *(1-3) refl, where lay = ex_layout and sy = Map.empty and dat = "[0x13, 5, 5, 0]"
        and r = "\<lparr>r_expr = R_TPREL, r_type = R_RISCV_TPREL_HI20, r_offset = 0, r_addend = 0x100000010 - 0x1100, r_sym = 0\<rparr>"] *(4,5)
    by (simp add: ex_layout_def)
qed

lemma initSymbolAnchors_spec_witness:
  "\<exists>aux. relaxAux (secs (initSymbolAnchors [\<lparr>os_exec = True, commands = [InputSectionDescription [0]]\<rparr>] [(0, [1])] ex_state) 0) = Some aux \<and>
    sorted (map anchor_key (anchors aux))"
  using initSymbolAnchors_spec [of 0 "[\<lparr>os_exec = True, commands = [InputSectionDescription [0]]\<rparr>]" ex_state "[(0, [1])]"]
  by (auto simp: execSections_def getInputSections_def ex_state_def)

end
