(* ===== verification/RVGP.thy ===== *)
theory RVGP
  imports RVRelax
begin

text \<open>
  \<open>lld/ELF/RISCVGP.cpp\<close>: where to put \<open>__global_pointer$\<close>. A data section is a candidate by name;
  the references that a \<open>gp\<close>-relative access could serve are collected, sorted, and covered by a
  sliding window of 4 KiB. The placement is used by the layout loop of \<open>Writer.cpp\<close>.

  An output section is named by its index in \<open>outputSections\<close>. The address of a symbol and the
  output section that holds an input section are functions of the layout.
\<close>

section \<open>Data\<close>

record DataSection =
  ds_name :: string
  ds_addr :: u64
  ds_size :: u64

record RISCVGPPlacement =
  gp_section :: "nat option"
  gp_value :: u64
  gp_score :: u64

definition defaultPlacement :: RISCVGPPlacement where
  "defaultPlacement = \<lparr>gp_section = None, gp_value = 0x800, gp_score = 0\<rparr>"

text \<open>An element of \<open>ctx.inputSections\<close>: whether it is an \<open>InputSection\<close>, whether it is live, and
  its relocations.\<close>

record InputSectionBase =
  isInputSection :: bool
  isLive :: bool
  relocations :: "Relocation list"

definition isRISCVGPDataSection :: "DataSection \<Rightarrow> bool" where
  "isRISCVGPDataSection sec \<longleftrightarrow>
    ds_name sec = ''.data'' \<or> ds_name sec = ''.sdata'' \<or> ds_name sec = ''.sbss'' \<or> ds_name sec = ''.bss''"

section \<open>Scoring\<close>

fun countCoveredRefs_loop :: "u64 list \<Rightarrow> u64 \<Rightarrow> u64 \<Rightarrow> u64" where
  "countCoveredRefs_loop [] gp covered = covered"
| "countCoveredRefs_loop (addr # addrs) gp covered =
    countCoveredRefs_loop addrs gp (if isInt 12 (addr - gp) then covered + 1 else covered)"

definition countCoveredRefs :: "u64 list \<Rightarrow> u64 \<Rightarrow> u64" where
  "countCoveredRefs addrs gp = countCoveredRefs_loop addrs gp 0"

text \<open>The default section and the data sections, from index \<open>i\<close> on.\<close>

fun findDataSections :: "DataSection list \<Rightarrow> nat \<Rightarrow> nat option \<Rightarrow> nat list \<Rightarrow> nat option \<times> nat list" where
  "findDataSections [] i defaultSec dataSections = (defaultSec, dataSections)"
| "findDataSections (sec # rest) i defaultSec dataSections =
    (if \<not> isRISCVGPDataSection sec then findDataSections rest (Suc i) defaultSec dataSections
     else findDataSections rest (Suc i)
       (if defaultSec = None \<or> ds_name sec = ''.sdata'' then Some i else defaultSec) (dataSections @ [i]))"

text \<open>The addresses the relocations of one section refer to.\<close>

definition relocAddr :: "symtab \<Rightarrow> (symtab \<Rightarrow> nat \<Rightarrow> u64 \<Rightarrow> u64) \<Rightarrow> (nat \<Rightarrow> nat option) \<Rightarrow> nat list \<Rightarrow> Relocation \<Rightarrow> u64 list" where
  "relocAddr sy getVA outputOf dataSections reloc =
    (if r_type reloc \<noteq> R_RISCV_HI20 \<and> r_type reloc \<noteq> R_RISCV_LO12_I \<and> r_type reloc \<noteq> R_RISCV_LO12_S then []
     else case sy (r_sym reloc) of
         None \<Rightarrow> []
       | Some d \<Rightarrow>
           (case d_section d of
              None \<Rightarrow> []
            | Some s \<Rightarrow>
                (case outputOf s of
                   None \<Rightarrow> []
                 | Some targetSec \<Rightarrow>
                     if targetSec \<notin> set dataSections then [] else [getVA sy (r_sym reloc) (r_addend reloc)])))"

definition collectRefs :: "symtab \<Rightarrow> (symtab \<Rightarrow> nat \<Rightarrow> u64 \<Rightarrow> u64) \<Rightarrow> (nat \<Rightarrow> nat option) \<Rightarrow> nat list \<Rightarrow> InputSectionBase list \<Rightarrow> u64 list" where
  "collectRefs sy getVA outputOf dataSections inputs =
    concat (map (\<lambda>base. if \<not> isInputSection base \<or> \<not> isLive base then []
       else concat (map (relocAddr sy getVA outputOf dataSections) (relocations base))) inputs)"

section \<open>The sliding window\<close>

function advanceL :: "u64 list \<Rightarrow> nat \<Rightarrow> nat \<Rightarrow> nat" where
  "advanceL addrs r l = (if l < length addrs \<and> addrs ! r - addrs ! l > 0xfff then advanceL addrs r (Suc l) else l)"
  by pat_completeness auto
termination
  by (relation "measure (\<lambda>(addrs, r, l). length addrs - l)") auto

declare advanceL.simps [simp del]

text \<open>The loop over \<open>r\<close>: \<open>n\<close> iterations are left.\<close>

fun windowLoop :: "u64 list \<Rightarrow> nat \<Rightarrow> nat \<Rightarrow> nat \<Rightarrow> nat \<Rightarrow> nat \<Rightarrow> nat \<times> nat" where
  "windowLoop addrs 0 r l bestL bestCount = (bestL, bestCount)"
| "windowLoop addrs (Suc n) r l bestL bestCount =
    (let l' = advanceL addrs r l;
         count = r - l' + 1
     in if count > bestCount then windowLoop addrs n (Suc r) l' l' count
        else windowLoop addrs n (Suc r) l' bestL bestCount)"

fun findPlacement :: "DataSection list \<Rightarrow> nat \<Rightarrow> u64 \<Rightarrow> nat option" where
  "findPlacement [] i bestGpVA = None"
| "findPlacement (sec # rest) i bestGpVA =
    (if \<not> isRISCVGPDataSection sec \<or> bestGpVA < ds_addr sec \<or> bestGpVA \<ge> ds_addr sec + ds_size sec
     then findPlacement rest (Suc i) bestGpVA else Some i)"

definition choosePlacement :: "DataSection list \<Rightarrow> nat \<Rightarrow> u64 list \<Rightarrow> RISCVGPPlacement" where
  "choosePlacement outputSections defaultSec refs =
    (let result = \<lparr>gp_section = Some defaultSec, gp_value = 0x800, gp_score = 0\<rparr>;
         defaultGpVA = ds_addr (outputSections ! defaultSec) + 0x800
     in if refs = [] then result
        else
          let addrs = sort refs;
              defaultScore = countCoveredRefs addrs defaultGpVA;
              (bestL, bestCount) = windowLoop addrs (length addrs) 0 0 0 0
          in if of_nat bestCount \<le> defaultScore then result\<lparr>gp_score := defaultScore\<rparr>
             else
               let bestGpVA = addrs ! bestL + 0x800
               in case findPlacement outputSections 0 bestGpVA of
                    None \<Rightarrow> result\<lparr>gp_score := defaultScore\<rparr>
                  | Some i \<Rightarrow> \<lparr>gp_section = Some i, gp_value = bestGpVA - ds_addr (outputSections ! i), gp_score = of_nat bestCount\<rparr>)"

definition calculateRISCVGP :: "DataSection list \<Rightarrow> symtab \<Rightarrow> (symtab \<Rightarrow> nat \<Rightarrow> u64 \<Rightarrow> u64) \<Rightarrow> (nat \<Rightarrow> nat option)
    \<Rightarrow> InputSectionBase list \<Rightarrow> RISCVGPPlacement" where
  "calculateRISCVGP outputSections sy getVA outputOf inputs =
    (case findDataSections outputSections 0 None [] of
       (None, _) \<Rightarrow> defaultPlacement
     | (Some defaultSec, dataSections) \<Rightarrow>
         choosePlacement outputSections defaultSec (collectRefs sy getVA outputOf dataSections inputs))"

end
