(* ===== verification/RVGPSound.thy ===== *)
theory RVGPSound
  imports RVGP
begin

text \<open>
  Properties of the global-pointer placement: the sliding window finds the largest number of
  references one placement can serve, the score of a placement is what it serves, and the result
  is never worse than the default.
\<close>

section \<open>Counting\<close>

definition cnt :: "u64 list \<Rightarrow> u64 \<Rightarrow> nat" where
  "cnt addrs g = length (filter (\<lambda>a. isInt 12 (a - g)) addrs)"

lemma countCoveredRefs_loop: "countCoveredRefs_loop addrs g c = c + of_nat (cnt addrs g)"
  by (induction addrs arbitrary: c) (simp_all add: cnt_def)

lemma countCoveredRefs_cnt: "countCoveredRefs addrs g = of_nat (cnt addrs g)"
  by (simp add: countCoveredRefs_def countCoveredRefs_loop)

lemma word_sub_mono:
  fixes l l' r :: "'a::len word"
  assumes "l \<le> l'" "l' \<le> r"
  shows "r - l' \<le> r - l"
  using assms order_trans [OF assms] by (simp add: word_le_nat_alt unat_sub diff_le_mono2)

lemma sorted_diff_mono:
  fixes addrs :: "u64 list"
  assumes "sorted addrs" "l \<le> l'" "l' \<le> r" "r < length addrs"
  shows "addrs ! r - addrs ! l' \<le> addrs ! r - addrs ! (l :: nat)"
proof -
  have "addrs ! l \<le> addrs ! l'" "addrs ! l' \<le> addrs ! r" using assms by (auto intro: sorted_nth_mono)
  then show ?thesis by (rule word_sub_mono)
qed

lemma advanceL_spec:
  assumes "sorted addrs" "r < length addrs" "l \<le> r"
  shows "l \<le> advanceL addrs r l \<and> advanceL addrs r l \<le> r \<and> addrs ! r - addrs ! (advanceL addrs r l) \<le> 0xfff \<and>
    (\<forall>k. l \<le> k \<longrightarrow> k < advanceL addrs r l \<longrightarrow> addrs ! r - addrs ! k > 0xfff)"
  using assms
proof (induction addrs r l rule: advanceL.induct)
  case (1 addrs r l)
  show ?case
  proof (cases "addrs ! r - addrs ! l > 0xfff")
    case True
    then have "l \<noteq> r" by auto
    then have l: "Suc l \<le> r" "l < length addrs" using "1.prems" by auto
    have e: "advanceL addrs r l = advanceL addrs r (Suc l)" using True l by (subst advanceL.simps) simp
    have "\<forall>k. l \<le> k \<longrightarrow> k < advanceL addrs r (Suc l) \<longrightarrow> addrs ! r - addrs ! k > 0xfff"
      using "1.IH" [OF _ "1.prems"(1,2) l(1)] l True by (metis le_antisym not_less_eq_eq)
    then show ?thesis using "1.IH" [OF _ "1.prems"(1,2) l(1)] l True unfolding e by auto
  next
    case False
    have e: "advanceL addrs r l = l" using False by (subst advanceL.simps) simp
    show ?thesis unfolding e using False "1.prems" by auto
  qed
qed

text \<open>What the window search has established before iteration \<open>r\<close>: the best window so far is one, and
  no window that ends earlier is larger.\<close>

definition window_inv :: "u64 list \<Rightarrow> nat \<Rightarrow> nat \<Rightarrow> nat \<Rightarrow> bool" where
  "window_inv addrs r bestL bestCount \<longleftrightarrow>
    (bestCount = 0 \<or> (bestL + bestCount \<le> r \<and> addrs ! (bestL + bestCount - 1) - addrs ! bestL \<le> 0xfff)) \<and>
    (\<forall>r'<r. \<forall>l\<le>r'. addrs ! r' - addrs ! l \<le> 0xfff \<longrightarrow> r' - l + 1 \<le> bestCount)"

lemma windowLoop_inv:
  assumes "sorted addrs" "r + n = length addrs" "l \<le> r" "\<forall>k<l. r < length addrs \<longrightarrow> addrs ! r - addrs ! k > 0xfff"
    "window_inv addrs r bestL bestCount" "windowLoop addrs n r l bestL bestCount = (L, C)"
  shows "window_inv addrs (length addrs) L C"
  using assms
proof (induction n arbitrary: r l bestL bestCount)
  case (Suc n)
  let ?l = "advanceL addrs r l"
  have r: "r < length addrs" using Suc.prems(2) by simp
  have adv: "l \<le> ?l" "?l \<le> r" "addrs ! r - addrs ! ?l \<le> 0xfff" "\<And>k. l \<le> k \<Longrightarrow> k < ?l \<Longrightarrow> addrs ! r - addrs ! k > 0xfff"
    using advanceL_spec [OF Suc.prems(1) r Suc.prems(3)] by auto
  have far: "addrs ! r - addrs ! k > 0xfff" if "k < ?l" for k
    using adv(4) [of k] Suc.prems(4) r that by (cases "k < l") auto
  have far': "\<forall>k<?l. Suc r < length addrs \<longrightarrow> addrs ! Suc r - addrs ! k > 0xfff"
  proof (intro allI impI)
    fix k assume k: "k < ?l" "Suc r < length addrs"
    have "addrs ! k \<le> addrs ! r" "addrs ! r \<le> addrs ! Suc r"
      using k adv(2) Suc.prems(1) by (auto intro: sorted_nth_mono)
    then have "addrs ! r - addrs ! k \<le> addrs ! Suc r - addrs ! k"
      by (simp add: word_le_nat_alt unat_sub)
    then show "addrs ! Suc r - addrs ! k > 0xfff" using far [OF k(1)] by simp
  qed
  have new: "r' - l' + 1 \<le> max bestCount (r - ?l + 1)" if "r' < Suc r" "l' \<le> r'" "addrs ! r' - addrs ! l' \<le> 0xfff" for r' l'
  proof (cases "r' = r")
    case True
    have "\<not> l' < ?l"
    proof
      assume "l' < ?l"
      then show False using far [of l'] that(3) True by simp
    qed
    then show ?thesis using True by auto
  next
    case False
    then have "r' < r" using that(1) by simp
    then have "r' - l' + 1 \<le> bestCount" using Suc.prems(5) that by (auto simp: window_inv_def)
    then show ?thesis by simp
  qed
  show ?case
  proof (cases "r - ?l + 1 > bestCount")
    case True
    have "window_inv addrs (Suc r) ?l (r - ?l + 1)"
      using new True adv(2,3) by (auto simp: window_inv_def max_def)
    then show ?thesis
      using Suc.IH [OF Suc.prems(1) _ _ far'] Suc.prems(2,6) True adv(2) by (simp add: Let_def)
  next
    case False
    have "window_inv addrs (Suc r) bestL bestCount"
      using new False Suc.prems(5) by (auto simp: window_inv_def max_def)
    then show ?thesis
      using Suc.IH [OF Suc.prems(1) _ _ far'] Suc.prems(2,6) False adv(2) by (simp add: Let_def)
  qed
qed simp

text \<open>Two covered addresses are at most \<open>0xfff\<close> apart, unless the window wraps around.\<close>

lemma covered_close:
  fixes a b g :: u64
  assumes "isInt 12 (a - g)" "isInt 12 (b - g)" "a \<le> b" "unat b < 2 ^ 64 - 0x1000"
  shows "b - a \<le> 0xfff"
proof -
  let ?x = "sint (a - g)" and ?y = "sint (b - g)"
  have xy: "- 2048 \<le> ?x" "?x < 2048" "- 2048 \<le> ?y" "?y < 2048"
    using assms(1,2) by (simp_all add: isInt_iff_aux)
  have eq: "b - a = word_of_int (?y - ?x)" by simp
  have "unat (b - a) \<le> unat b" using assms(3) by (simp add: unat_sub word_le_nat_alt)
  then have "int (unat (b - a)) < int (2 ^ 64 - 0x1000)"
    using assms(4) by (simp only: of_nat_less_iff)
  then have small: "uint (b - a) < 2 ^ 64 - 0x1000" by simp
  have "?x \<le> ?y"
  proof (rule ccontr)
    assume "\<not> ?x \<le> ?y"
    then have "uint (b - a) = ?y - ?x + 2 ^ 64"
      using xy mod_pos_pos_trivial [of "?y - ?x + 2 ^ 64" "2 ^ 64"]
      by (simp only: eq uint_word_of_int mod_add_self2) simp
    then show False using small xy by simp
  qed
  then have "uint (b - a) = ?y - ?x"
    using xy by (simp only: eq uint_word_of_int) (simp add: mod_pos_pos_trivial)
  then show ?thesis using xy by (simp add: word_le_def)
qed

lemma close_covered:
  fixes a b :: u64
  assumes "b - a \<le> 0xfff"
  shows "isInt 12 (b - (a + 0x800))"
proof -
  have "uint (b - a) \<le> 0xfff" using assms by (simp add: word_le_def)
  then have "sint (word_of_int (uint (b - a) - 0x800) :: u64) = uint (b - a) - 0x800"
    by (intro sint_word_of_int_64) simp_all
  moreover have "word_of_int (uint (b - a) - 0x800) = b - (a + 0x800)" by simp
  ultimately show ?thesis
    using \<open>uint (b - a) \<le> 0xfff\<close> by (simp only: isInt_iff_aux) simp
qed

lemma cnt_sort: "cnt (sort refs) g = cnt refs g"
  by (simp add: cnt_def filter_sort)

lemma cnt_le_length: "cnt refs g \<le> length refs"
  by (simp add: cnt_def)

lemma cnt_card: "cnt addrs g = card {i. i < length addrs \<and> isInt 12 (addrs ! i - g)}"
  by (simp add: cnt_def length_filter_conv_card)

text \<open>No placement serves more references than the best window, and the placement at the best window
  serves that many.\<close>

lemma cnt_le_window:
  assumes "sorted addrs" "window_inv addrs (length addrs) L C" "\<forall>a\<in>set addrs. unat a < 2 ^ 64 - 0x1000"
  shows "cnt addrs g \<le> C"
proof -
  let ?I = "{i. i < length addrs \<and> isInt 12 (addrs ! i - g)}"
  show ?thesis
  proof (cases "?I = {}")
    case False
    have fin: "finite ?I" by simp
    have mn: "Min ?I \<in> ?I" and mx: "Max ?I \<in> ?I" using Min_in [OF fin False] Max_in [OF fin False] by blast+
    have le: "Min ?I \<le> Max ?I" using Max_ge [OF fin mn] .
    have "addrs ! Max ?I - addrs ! Min ?I \<le> 0xfff"
      using mn mx le assms(1,3) by (intro covered_close [of _ g]) (auto intro: sorted_nth_mono)
    then have "Max ?I - Min ?I + 1 \<le> C"
      using assms(2) mx le by (auto simp: window_inv_def)
    moreover have "?I \<subseteq> {Min ?I..Max ?I}" using fin by auto
    then have "card ?I \<le> Max ?I + 1 - Min ?I" using card_mono [of "{Min ?I..Max ?I}" ?I] by simp
    ultimately show ?thesis using le by (simp add: cnt_card)
  next
    case True
    then show ?thesis unfolding cnt_card by (simp only: card.empty)
  qed
qed

lemma window_le_cnt:
  assumes "sorted addrs" "window_inv addrs (length addrs) L C"
  shows "C \<le> cnt addrs (addrs ! L + 0x800)"
proof (cases "C = 0")
  case False
  then have LC: "L + C \<le> length addrs" "addrs ! (L + C - 1) - addrs ! L \<le> 0xfff"
    using assms(2) by (auto simp: window_inv_def)
  have "isInt 12 (addrs ! i - (addrs ! L + 0x800))" if "i \<in> {L..<L + C}" for i
  proof -
    have "addrs ! L \<le> addrs ! i" "addrs ! i \<le> addrs ! (L + C - 1)"
      using that LC(1) assms(1) by (auto intro: sorted_nth_mono)
    then have "addrs ! i - addrs ! L \<le> addrs ! (L + C - 1) - addrs ! L"
      by (simp add: word_le_nat_alt unat_sub)
    then show ?thesis using LC(2) by (intro close_covered) simp
  qed
  then have "{L..<L + C} \<subseteq> {i. i < length addrs \<and> isInt 12 (addrs ! i - (addrs ! L + 0x800))}"
    using LC(1) by auto
  then have "card {L..<L + C} \<le> cnt addrs (addrs ! L + 0x800)"
    unfolding cnt_card by (intro card_mono) auto
  then show ?thesis by simp
qed simp

lemma findPlacement_Some:
  "findPlacement xs k g = Some i \<Longrightarrow> k \<le> i \<and> i - k < length xs \<and> isRISCVGPDataSection (xs ! (i - k)) \<and>
    ds_addr (xs ! (i - k)) \<le> g \<and> g < ds_addr (xs ! (i - k)) + ds_size (xs ! (i - k))"
  by (induction xs k g rule: findPlacement.induct)
    (auto split: if_splits simp: not_less not_le nth_Cons' Suc_diff_le le_Suc_eq)

lemma findDataSections_Some:
  "findDataSections xs k d ds = (Some i, ds') \<Longrightarrow> d = Some i \<or> (k \<le> i \<and> i - k < length xs \<and> isRISCVGPDataSection (xs ! (i - k)))"
proof (induction xs k d ds rule: findDataSections.induct)
  case (2 sec xs k d ds)
  then show ?case
    by (auto split: if_splits simp: nth_Cons' Suc_diff_le le_Suc_eq)
qed simp

section \<open>Properties\<close>

definition gp_address :: "DataSection list \<Rightarrow> RISCVGPPlacement \<Rightarrow> u64" where
  "gp_address outs P = ds_addr (outs ! the (gp_section P)) + gp_value P"

text \<open>The reported score is the number of references the placement serves; it is at least the
  default's; and a placement other than the default serves as many references as any address
  could and lies inside a data section.\<close>

lemma choosePlacement_best:
  assumes "list_all (\<lambda>a. unat a < 2 ^ 64 - 0x1000) refs" "length refs < 2 ^ 64"
    "P = choosePlacement outs d refs" "deflt = ds_addr (outs ! d) + 0x800"
  shows "gp_score P = countCoveredRefs refs (gp_address outs P) \<and>
    countCoveredRefs refs deflt \<le> gp_score P \<and>
    (gp_address outs P \<noteq> deflt \<longrightarrow>
      (\<forall>g. countCoveredRefs refs g \<le> gp_score P) \<and>
      (\<exists>i<length outs. gp_section P = Some i \<and> isRISCVGPDataSection (outs ! i) \<and>
        ds_addr (outs ! i) \<le> gp_address outs P \<and> gp_address outs P < ds_addr (outs ! i) + ds_size (outs ! i)))"
proof -
  let ?addrs = "sort refs"
  obtain L C where LC: "windowLoop ?addrs (length ?addrs) 0 0 0 0 = (L, C)" by fastforce
  have inv: "window_inv ?addrs (length ?addrs) L C"
    using windowLoop_inv [of ?addrs 0 "length ?addrs" 0 0 0 L C] LC by (simp add: window_inv_def)
  have le: "cnt refs g \<le> C" for g
    using cnt_le_window [OF _ inv, of g] assms(1) by (simp add: cnt_sort list_all_iff)
  have best: "cnt refs (?addrs ! L + 0x800) = C"
    using window_le_cnt [OF _ inv] le by (simp add: cnt_sort le_antisym)
  have C: "C < 2 ^ 64" using best cnt_le_length assms(2) by (metis le_less_trans)
  have cov: "countCoveredRefs refs g = of_nat (cnt refs g)" "countCoveredRefs ?addrs g = of_nat (cnt refs g)" for g
    by (simp_all add: countCoveredRefs_cnt cnt_sort)
  have mono: "(of_nat (cnt refs g) :: u64) \<le> of_nat C" for g
    using le [of g] C by (simp add: word_le_nat_alt unat_of_nat64)
  show ?thesis
  proof (cases "refs = [] \<or> of_nat C \<le> countCoveredRefs ?addrs deflt \<or> findPlacement outs 0 (?addrs ! L + 0x800) = None")
    case True
    then have "P = \<lparr>gp_section = Some d, gp_value = 0x800, gp_score = countCoveredRefs refs deflt\<rparr>"
      using LC by (auto simp: assms(3,4) choosePlacement_def Let_def cov cnt_def)
    then show ?thesis by (simp add: gp_address_def assms(4))
  next
    case False
    then obtain i where i: "findPlacement outs 0 (?addrs ! L + 0x800) = Some i" by auto
    have P: "P = \<lparr>gp_section = Some i, gp_value = ?addrs ! L + 0x800 - ds_addr (outs ! i), gp_score = of_nat C\<rparr>"
      using False LC i by (simp add: assms(3,4) choosePlacement_def Let_def)
    have "gp_address outs P = ?addrs ! L + 0x800" by (simp add: P gp_address_def)
    then show ?thesis
      using findPlacement_Some [OF i] best mono by (auto simp: P cov)
  qed
qed

lemma findDataSections_sdata:
  "findDataSections xs k d ds = (Some i, ds') \<Longrightarrow> \<exists>s\<in>set xs. ds_name s = ''.sdata'' \<Longrightarrow>
    k \<le> i \<and> i - k < length xs \<and> ds_name (xs ! (i - k)) = ''.sdata''"
proof (induction xs k d ds rule: findDataSections.induct)
  case (2 sec xs k d ds)
  show ?case
  proof (cases "\<exists>s\<in>set xs. ds_name s = ''.sdata''")
    case True
    then have "Suc k \<le> i \<and> i - Suc k < length xs \<and> ds_name (xs ! (i - Suc k)) = ''.sdata''"
      using 2 by (auto split: if_splits)
    then show ?thesis by (auto simp: nth_Cons' Suc_diff_le)
  next
    case False
    have keep: "findDataSections ys j (Some i') es = (Some i, es') \<Longrightarrow> \<forall>s\<in>set ys. ds_name s \<noteq> ''.sdata'' \<Longrightarrow> i = i'"
      for ys j i' es es'
      by (induction ys arbitrary: j es) (auto split: if_splits)
    from False 2(4) have "ds_name sec = ''.sdata''" by auto
    then have "findDataSections xs (Suc k) (Some k) (ds @ [k]) = (Some i, ds')"
      using 2(3) by (simp add: isRISCVGPDataSection_def)
    then have "i = k" using keep False by blast
    then show ?thesis using \<open>ds_name sec = ''.sdata''\<close> by simp
  qed
qed simp

text \<open>C34: the reported score is the number of references the chosen \<open>gp\<close> serves and at least that of the
  default, which lies in \<open>.sdata\<close> when there is one; and a placement other than the default serves
  as many references as any address could and lies inside a data section.\<close>

theorem calculateRISCVGP_best:
  assumes "findDataSections outs 0 None [] = (Some d, dss)" "refs = collectRefs sy getVA outputOf dss inputs"
    "list_all (\<lambda>a. unat a < 2 ^ 64 - 0x1000) refs" "length refs < 2 ^ 64"
    "P = calculateRISCVGP outs sy getVA outputOf inputs" "deflt = ds_addr (outs ! d) + 0x800"
  shows "gp_score P = countCoveredRefs refs (gp_address outs P) \<and>
    countCoveredRefs refs deflt \<le> gp_score P \<and>
    isRISCVGPDataSection (outs ! d) \<and> ((\<exists>s\<in>set outs. ds_name s = ''.sdata'') \<longrightarrow> ds_name (outs ! d) = ''.sdata'') \<and>
    (gp_address outs P \<noteq> deflt \<longrightarrow>
      (\<forall>g. countCoveredRefs refs g \<le> gp_score P) \<and>
      (\<exists>i<length outs. gp_section P = Some i \<and> isRISCVGPDataSection (outs ! i) \<and>
        ds_addr (outs ! i) \<le> gp_address outs P \<and> gp_address outs P < ds_addr (outs ! i) + ds_size (outs ! i)))"
proof -
  have "P = choosePlacement outs d refs"
    using assms(1,2,5) by (simp add: calculateRISCVGP_def)
  moreover have "isRISCVGPDataSection (outs ! d)"
    using findDataSections_Some [OF assms(1)] by simp
  moreover have "(\<exists>s\<in>set outs. ds_name s = ''.sdata'') \<longrightarrow> ds_name (outs ! d) = ''.sdata''"
    using findDataSections_sdata [OF assms(1)] by simp
  ultimately show ?thesis
    using choosePlacement_best [OF assms(3,4) _ assms(6), of P] by blast
qed

text \<open>Two references close together and far from the default decide the placement.\<close>

definition ex_sections :: "DataSection list" where
  "ex_sections = [\<lparr>ds_name = ''.text'', ds_addr = 0x1000, ds_size = 0x1000\<rparr>, \<lparr>ds_name = ''.data'', ds_addr = 0x10000, ds_size = 0x9000\<rparr>]"

definition ex_inputs :: "InputSectionBase list" where
  "ex_inputs = [\<lparr>isInputSection = True, isLive = True, relocations = map (\<lambda>a.
     \<lparr>r_expr = R_ABS, r_type = R_RISCV_HI20, r_offset = 0, r_addend = a, r_sym = 1\<rparr>) [0x10000, 0x15000, 0x15800]\<rparr>]"

definition ex_syms :: symtab where
  "ex_syms = [1 \<mapsto> \<lparr>d_file = 0, scriptDefined = False, d_section = Some 0, d_value = 0, d_size = 0\<rparr>]"

lemma calculateRISCVGP_best_witness:
  "gp_score (calculateRISCVGP ex_sections ex_syms (\<lambda>_ _ a. a) (\<lambda>_. Some 1) ex_inputs) = 2 \<and>
    countCoveredRefs [0x10000, 0x15000, 0x15800] 0x3000 \<le> 2"
proof -
  have a: "findDataSections ex_sections 0 None [] = (Some 1, [1])"
    "[0x10000, 0x15000, 0x15800] = collectRefs ex_syms (\<lambda>_ _ a. a) (\<lambda>_. Some 1) [1] ex_inputs"
    by code_simp+
  have l: "list_all (\<lambda>a. unat a < 2 ^ 64 - 0x1000) [0x10000, 0x15000, 0x15800 :: u64]"
    "length [0x10000, 0x15000, 0x15800 :: u64] < 2 ^ 64"
    by simp_all
  have b: "gp_score (calculateRISCVGP ex_sections ex_syms (\<lambda>_ _ a. a) (\<lambda>_. Some 1) ex_inputs) = 2"
    "gp_address ex_sections (calculateRISCVGP ex_sections ex_syms (\<lambda>_ _ a. a) (\<lambda>_. Some 1) ex_inputs) \<noteq> ds_addr (ex_sections ! 1) + 0x800"
    by code_simp+
  show ?thesis
  proof
    have "\<forall>g. countCoveredRefs [0x10000, 0x15000, 0x15800] g \<le> gp_score (calculateRISCVGP ex_sections ex_syms (\<lambda>_ _ a. a) (\<lambda>_. Some 1) ex_inputs)"
      using calculateRISCVGP_best [OF a l refl refl] b(2) by blast
    then show "countCoveredRefs [0x10000, 0x15000, 0x15800] 0x3000 \<le> 2"
      unfolding b(1) by blast
  qed (rule b(1))
qed

end
