(* ===== verification/Strings.thy ===== *)
theory Strings
  imports Prelude "HOL-Library.List_Lexorder" "HOL-Library.Char_ord"
begin

text \<open>
  The string helpers the ISA parser uses: \<open>llvm/lib/Support/StringRef.cpp\<close> (integers, splitting),
  the prefix and suffix operations of \<open>llvm/ADT/StringRef.h\<close>, and the decimal output of
  \<open>llvm/lib/Support/NativeFormatting.cpp\<close>. A \<open>StringRef\<close> is a list of characters; an operation that
  shortens its argument returns the rest.
\<close>

section \<open>Prefixes, suffixes, splitting\<close>

definition starts_with :: "string \<Rightarrow> string \<Rightarrow> bool" where
  "starts_with s p \<longleftrightarrow> take (length p) s = p"

definition ends_with :: "string \<Rightarrow> string \<Rightarrow> bool" where
  "ends_with s p \<longleftrightarrow> length p \<le> length s \<and> drop (length s - length p) s = p"

definition consume_front :: "string \<Rightarrow> string \<Rightarrow> bool \<times> string" where
  "consume_front s p = (if starts_with s p then (True, drop (length p) s) else (False, s))"

definition consume_back :: "string \<Rightarrow> string \<Rightarrow> bool \<times> string" where
  "consume_back s p = (if ends_with s p then (True, take (length s - length p) s) else (False, s))"

fun split_on :: "char \<Rightarrow> string \<Rightarrow> string list" where
  "split_on c [] = [[]]"
| "split_on c (x # xs) =
    (if x = c then [] # split_on c xs
     else case split_on c xs of [] \<Rightarrow> [[x]] | w # ws \<Rightarrow> (x # w) # ws)"

text \<open>\<open>rfind\<close>: the last index of a character.\<close>

fun rfind_from :: "char \<Rightarrow> string \<Rightarrow> nat \<Rightarrow> nat option \<Rightarrow> nat option" where
  "rfind_from c [] i found = found"
| "rfind_from c (x # xs) i found = rfind_from c xs (Suc i) (if x = c then Some i else found)"

definition rsplit :: "string \<Rightarrow> char \<Rightarrow> string \<times> string" where
  "rsplit s c = (case rfind_from c s 0 None of None \<Rightarrow> (s, []) | Some Idx \<Rightarrow> (take Idx s, drop (Idx + 1) s))"

section \<open>Reading integers\<close>

definition isDigit :: "char \<Rightarrow> bool" where
  "isDigit c \<longleftrightarrow> CHR ''0'' \<le> c \<and> c \<le> CHR ''9''"

definition char_code :: "char \<Rightarrow> nat" where
  "char_code c = of_char c"

definition char_val :: "char \<Rightarrow> nat option" where
  "char_val c =
    (if CHR ''0'' \<le> c \<and> c \<le> CHR ''9'' then Some (char_code c - char_code (CHR ''0''))
     else if CHR ''a'' \<le> c \<and> c \<le> CHR ''z'' then Some (char_code c - char_code (CHR ''a'') + 10)
     else if CHR ''A'' \<le> c \<and> c \<le> CHR ''Z'' then Some (char_code c - char_code (CHR ''A'') + 10)
     else None)"

text \<open>The loop of \<open>consumeUnsignedInteger\<close>: \<open>None\<close> is an overflow; otherwise the value and the rest.\<close>

fun consume_digits :: "u64 \<Rightarrow> string \<Rightarrow> u64 \<Rightarrow> (u64 \<times> string) option" where
  "consume_digits Radix [] Result = Some (Result, [])"
| "consume_digits Radix (c # Str2) Result =
    (case char_val c of
       None \<Rightarrow> Some (Result, c # Str2)
     | Some CharVal \<Rightarrow>
         if of_nat CharVal \<ge> Radix then Some (Result, c # Str2)
         else
           let PrevResult = Result; Result' = Result * Radix + of_nat CharVal
           in if Result' div Radix < PrevResult then None else consume_digits Radix Str2 Result')"

definition GetAutoSenseRadix :: "string \<Rightarrow> u64 \<times> string" where
  "GetAutoSenseRadix Str =
    (if Str = [] then (10, Str)
     else if starts_with Str ''0x'' \<or> starts_with Str ''0X'' then (16, drop 2 Str)
     else if starts_with Str ''0b'' \<or> starts_with Str ''0B'' then (2, drop 2 Str)
     else if starts_with Str ''0o'' then (8, drop 2 Str)
     else if hd Str = CHR ''0'' \<and> length Str > 1 \<and> isDigit (Str ! 1) then (8, drop 1 Str)
     else (10, Str))"

definition consumeUnsignedInteger :: "string \<Rightarrow> u64 \<Rightarrow> (u64 \<times> string) option" where
  "consumeUnsignedInteger Str Radix =
    (let (Radix', Str') = (if Radix = 0 then GetAutoSenseRadix Str else (Radix, Str))
     in if Str' = [] then None
        else case consume_digits Radix' Str' 0 of
            None \<Rightarrow> None
          | Some (Result, Str2) \<Rightarrow> if length Str' = length Str2 then None else Some (Result, Str2))"

definition getAsUnsignedInteger :: "string \<Rightarrow> u64 \<Rightarrow> u64 option" where
  "getAsUnsignedInteger Str Radix =
    (case consumeUnsignedInteger Str Radix of
       None \<Rightarrow> None
     | Some (Result, Rest) \<Rightarrow> if Rest \<noteq> [] then None else Some Result)"

text \<open>\<open>getAsInteger\<close> into an \<open>unsigned\<close>.\<close>

definition getAsInteger :: "string \<Rightarrow> u64 \<Rightarrow> u32 option" where
  "getAsInteger Str Radix =
    (case getAsUnsignedInteger Str Radix of
       None \<Rightarrow> None
     | Some ULLVal \<Rightarrow> if ucast (ucast ULLVal :: u32) \<noteq> ULLVal then None else Some (ucast ULLVal))"

section \<open>Writing integers\<close>

text \<open>\<open>format_to_buffer\<close>: the digits written so far are \<open>buf\<close>.\<close>

function format_to_buffer :: "nat \<Rightarrow> string \<Rightarrow> string" where
  "format_to_buffer Value buf =
    (let buf' = char_of (48 + Value mod 10) # buf; Value' = Value div 10
     in if Value' = 0 then buf' else format_to_buffer Value' buf')"
  by pat_completeness auto
termination
  by (relation "measure fst") auto

declare format_to_buffer.simps [simp del]

definition show_unsigned :: "u32 \<Rightarrow> string" where
  "show_unsigned N = format_to_buffer (unat N) []"

section \<open>Facts\<close>

lemma char_le_code: "c \<le> d \<longleftrightarrow> (of_char c :: nat) \<le> of_char d"
  by (simp add: less_eq_char_def)

text \<open>The number a string of digits spells.\<close>

definition digit_value :: "char \<Rightarrow> nat" where
  "digit_value c = char_code c - 48"

definition digits_value :: "string \<Rightarrow> nat" where
  "digits_value s = foldl (\<lambda>v c. 10 * v + digit_value c) 0 s"

lemma isDigit_code: "isDigit c \<longleftrightarrow> 48 \<le> char_code c \<and> char_code c \<le> 57"
  by (simp add: isDigit_def char_le_code char_code_def)

lemma char_val_digit: "isDigit c \<Longrightarrow> char_val c = Some (digit_value c) \<and> digit_value c < 10"
  by (auto simp: isDigit_def char_val_def digit_value_def char_code_def char_le_code)

lemma digits_value_snoc: "digits_value (s @ [c]) = 10 * digits_value s + digit_value c"
  by (simp add: digits_value_def)

lemma format_to_buffer_step:
  "format_to_buffer n buf =
    (if n div 10 = 0 then char_of (48 + n mod 10) # buf
     else format_to_buffer (n div 10) (char_of (48 + n mod 10) # buf))"
  by (subst format_to_buffer.simps) (simp only: Let_def)

lemma format_to_buffer_acc: "format_to_buffer n buf = format_to_buffer n [] @ buf"
proof (induction n arbitrary: buf rule: less_induct)
  case (less n)
  let ?d = "char_of (48 + n mod 10) :: char"
  show ?case
  proof (cases "n div 10 = 0")
    case True
    then show ?thesis
      using format_to_buffer_step [of n buf] format_to_buffer_step [of n "[]"] by simp
  next
    case False
    then have lt: "n div 10 < n" by simp
    have "format_to_buffer n b = format_to_buffer (n div 10) (?d # b)" for b
      using False format_to_buffer_step [of n b] by simp
    then show ?thesis
      using less [OF lt, of "?d # buf"] less [OF lt, of "[?d]"] by simp
  qed
qed

lemma digit_char:
  assumes "d < 10"
  shows "isDigit (char_of (48 + d))" "digit_value (char_of (48 + d :: nat)) = d"
proof -
  have "char_code (char_of (48 + d :: nat)) = 48 + d"
    using assms by (simp add: char_code_def)
  then show "isDigit (char_of (48 + d))" "digit_value (char_of (48 + d :: nat)) = d"
    using assms by (simp_all add: isDigit_code digit_value_def)
qed

lemma format_to_buffer_digits:
  "list_all isDigit (format_to_buffer n []) \<and> format_to_buffer n [] \<noteq> [] \<and> digits_value (format_to_buffer n []) = n"
proof (induction n rule: less_induct)
  case (less n)
  have d: "isDigit (char_of (48 + n mod 10))" "digit_value (char_of (48 + n mod 10)) = n mod 10"
    using digit_char [of "n mod 10"] by simp_all
  show ?case
  proof (cases "n div 10 = 0")
    case True
    then have "n mod 10 = n" "format_to_buffer n [] = [char_of (48 + n mod 10)]"
      using format_to_buffer_step [of n "[]"] by simp_all
    then show ?thesis using d by (simp add: digits_value_def del: of_nat_add)
  next
    case False
    then have "format_to_buffer n [] = format_to_buffer (n div 10) [] @ [char_of (48 + n mod 10)]"
      using format_to_buffer_step [of n "[]"] format_to_buffer_acc [of "n div 10" "[char_of (48 + n mod 10)]"] by simp
    then show ?thesis using less.IH [of "n div 10"] False d by (simp add: digits_value_snoc)
  qed
qed

lemma consume_digits_value:
  assumes "list_all isDigit s" "foldl (\<lambda>v c. 10 * v + digit_value c) v s < 2 ^ 63"
  shows "consume_digits 10 s (of_nat v) = Some (of_nat (foldl (\<lambda>v c. 10 * v + digit_value c) v s), [])"
  using assms
proof (induction s arbitrary: v)
  case (Cons c s)
  let ?f = "\<lambda>v c. 10 * v + digit_value c"
  have c: "char_val c = Some (digit_value c)" "digit_value c < 10"
    using char_val_digit [of c] Cons.prems(1) by simp_all
  have mono: "w \<le> foldl ?f w s" for w
    by (induction s rule: rev_induct) auto
  let ?w = "10 * v + digit_value c"
  have w: "?w < 2 ^ 63" using mono [of ?w] Cons.prems(2) by simp
  have val: "of_nat v * 10 + of_nat (digit_value c) = (of_nat ?w :: u64)" by simp
  have dv: "unat (of_nat (digit_value c) :: u64) = digit_value c" using c(2) by (intro unat_of_nat64) simp
  have "unat ((of_nat ?w :: u64) div 10) = ?w div 10"
    using w unat_of_nat64 [of ?w] by (simp add: unat_div)
  moreover have "v \<le> ?w div 10" by simp
  ultimately have "\<not> (of_nat ?w :: u64) div 10 < of_nat v"
    using unat_of_nat64 [of v] w by (simp add: word_less_nat_alt)
  then show ?case
    using Cons.IH [of ?w] Cons.prems c dv by (simp add: Let_def val word_le_nat_alt del: of_nat_add of_nat_mult)
qed simp

lemma getAsInteger_digits:
  assumes "list_all isDigit s" "s \<noteq> []" "digits_value s < 2 ^ 32"
  shows "getAsInteger s 10 = Some (of_nat (digits_value s))"
proof -
  have "digits_value s < 2 ^ 63" using assms(3) by simp
  then have "consume_digits 10 s (of_nat 0) = Some (of_nat (digits_value s), [])"
    using consume_digits_value [OF assms(1), of 0] by (simp add: digits_value_def)
  then show ?thesis
    using assms(2) ucast_of_nat_32 [OF assms(3)] ucast_of_nat_64 [OF assms(3)]
    by (simp add: getAsInteger_def getAsUnsignedInteger_def consumeUnsignedInteger_def)
qed

lemma show_unsigned_digits: "list_all isDigit (show_unsigned n)" "show_unsigned n \<noteq> []"
  using format_to_buffer_digits by (simp_all add: show_unsigned_def)

lemma getAsInteger_show: "getAsInteger (show_unsigned n) 10 = Some n"
proof -
  have "digits_value (show_unsigned n) = unat n"
    using format_to_buffer_digits by (simp add: show_unsigned_def)
  moreover have "unat n < 2 ^ 32" using unsigned_less [of n] by simp
  ultimately show ?thesis
    using getAsInteger_digits [OF show_unsigned_digits] by simp
qed

lemma split_on_no: "c \<notin> set s \<Longrightarrow> split_on c s = [s]"
  by (induction s) auto

lemma split_on_append: "c \<notin> set s \<Longrightarrow> split_on c (s @ c # t) = s # split_on c t"
  by (induction s) auto

lemma rfind_from_append: "rfind_from c (s @ t) i f = rfind_from c t (i + length s) (rfind_from c s i f)"
  by (induction s arbitrary: i f) auto

lemma rfind_from_no: "c \<notin> set s \<Longrightarrow> rfind_from c s i f = f"
  by (induction s arbitrary: i f) auto

lemma rsplit_last: "c \<notin> set t \<Longrightarrow> rsplit (s @ c # t) c = (s, t)"
  by (simp add: rsplit_def rfind_from_append rfind_from_no)

end
