(* ===== verification/ISATables.thy ===== *)
theory ISATables
  imports Strings
begin

text \<open>
  \<open>llvm/lib/Support/RISCVISAInfo.cpp\<close>: the tables of extensions, the binary searches over them
  and the canonical order of extension names, which orders the map of an ISA description.

  Strings compare byte by byte (\<open>List_Lexorder\<close> over \<open>Char_ord\<close>). A search is stated once, for any
  table sorted by name, and used for the three tables of the file.
\<close>

section \<open>Tables\<close>

type_synonym version = "u32 \<times> u32"

definition AllStdExts :: string where
  "AllStdExts = ''mafdqlcbkjtpvnh''"

definition RISCVGImplications :: "string list" where
  "RISCVGImplications = [''i'', ''m'', ''a'', ''f'', ''d'', ''zicsr'', ''zifencei'']"

definition SupportedExtensions :: "(string \<times> version) list" where
  "SupportedExtensions = [
    (''a'', (2, 1)), (''c'', (2, 0)), (''d'', (2, 2)),
    (''e'', (2, 0)), (''f'', (2, 2)), (''h'', (1, 0)),
    (''i'', (2, 1)), (''m'', (2, 0)), (''svinval'', (1, 0)),
    (''svnapot'', (1, 0)), (''svpbmt'', (1, 0)), (''v'', (1, 0)),
    (''xcvbitmanip'', (1, 0)), (''xcvmac'', (1, 0)), (''xsfcie'', (1, 0)),
    (''xsfvcp'', (1, 0)), (''xtheadba'', (1, 0)), (''xtheadbb'', (1, 0)),
    (''xtheadbs'', (1, 0)), (''xtheadcmo'', (1, 0)), (''xtheadcondmov'', (1, 0)),
    (''xtheadfmemidx'', (1, 0)), (''xtheadmac'', (1, 0)), (''xtheadmemidx'', (1, 0)),
    (''xtheadmempair'', (1, 0)), (''xtheadsync'', (1, 0)), (''xtheadvdot'', (1, 0)),
    (''xventanacondops'', (1, 0)), (''zawrs'', (1, 0)), (''zba'', (1, 0)),
    (''zbb'', (1, 0)), (''zbc'', (1, 0)), (''zbkb'', (1, 0)),
    (''zbkc'', (1, 0)), (''zbkx'', (1, 0)), (''zbs'', (1, 0)),
    (''zca'', (1, 0)), (''zcb'', (1, 0)), (''zcd'', (1, 0)),
    (''zce'', (1, 0)), (''zcf'', (1, 0)), (''zcmp'', (1, 0)),
    (''zcmt'', (1, 0)), (''zdinx'', (1, 0)), (''zfh'', (1, 0)),
    (''zfhmin'', (1, 0)), (''zfinx'', (1, 0)), (''zhinx'', (1, 0)),
    (''zhinxmin'', (1, 0)), (''zicbom'', (1, 0)), (''zicbop'', (1, 0)),
    (''zicboz'', (1, 0)), (''zicntr'', (1, 0)), (''zicond'', (1, 0)),
    (''zicsr'', (2, 0)), (''zifencei'', (2, 0)), (''zihintpause'', (2, 0)),
    (''zihpm'', (1, 0)), (''zk'', (1, 0)), (''zkn'', (1, 0)),
    (''zknd'', (1, 0)), (''zkne'', (1, 0)), (''zknh'', (1, 0)),
    (''zkr'', (1, 0)), (''zks'', (1, 0)), (''zksed'', (1, 0)),
    (''zksh'', (1, 0)), (''zkt'', (1, 0)), (''zmmul'', (1, 0)),
    (''zve32f'', (1, 0)), (''zve32x'', (1, 0)), (''zve64d'', (1, 0)),
    (''zve64f'', (1, 0)), (''zve64x'', (1, 0)), (''zvfh'', (1, 0)),
    (''zvl1024b'', (1, 0)), (''zvl128b'', (1, 0)), (''zvl16384b'', (1, 0)),
    (''zvl2048b'', (1, 0)), (''zvl256b'', (1, 0)), (''zvl32768b'', (1, 0)),
    (''zvl32b'', (1, 0)), (''zvl4096b'', (1, 0)), (''zvl512b'', (1, 0)),
    (''zvl64b'', (1, 0)), (''zvl65536b'', (1, 0)), (''zvl8192b'', (1, 0))]"

definition SupportedExperimentalExtensions :: "(string \<times> version) list" where
  "SupportedExperimentalExtensions = [
    (''smaia'', (1, 0)), (''ssaia'', (1, 0)), (''zacas'', (1, 0)),
    (''zfa'', (0, 2)), (''zfbfmin'', (0, 6)), (''zihintntl'', (0, 2)),
    (''ztso'', (0, 1)), (''zvbb'', (1, 0)), (''zvbc'', (1, 0)),
    (''zvfbfmin'', (0, 6)), (''zvfbfwma'', (0, 6)), (''zvkg'', (1, 0)),
    (''zvkn'', (1, 0)), (''zvknc'', (1, 0)), (''zvkned'', (1, 0)),
    (''zvkng'', (1, 0)), (''zvknha'', (1, 0)), (''zvknhb'', (1, 0)),
    (''zvks'', (1, 0)), (''zvksc'', (1, 0)), (''zvksed'', (1, 0)),
    (''zvksg'', (1, 0)), (''zvksh'', (1, 0)), (''zvkt'', (1, 0))]"

definition ImpliedExtsD :: "string list" where "ImpliedExtsD = [''f'']"
definition ImpliedExtsF :: "string list" where "ImpliedExtsF = [''zicsr'']"
definition ImpliedExtsV :: "string list" where "ImpliedExtsV = [''zvl128b'', ''zve64d'']"
definition ImpliedExtsXTHeadVdot :: "string list" where "ImpliedExtsXTHeadVdot = [''v'']"
definition ImpliedExtsXsfvcp :: "string list" where "ImpliedExtsXsfvcp = [''zve32x'']"
definition ImpliedExtsZacas :: "string list" where "ImpliedExtsZacas = [''a'']"
definition ImpliedExtsZcb :: "string list" where "ImpliedExtsZcb = [''zca'']"
definition ImpliedExtsZcd :: "string list" where "ImpliedExtsZcd = [''zca'']"
definition ImpliedExtsZce :: "string list" where "ImpliedExtsZce = [''zcb'', ''zcmp'', ''zcmt'']"
definition ImpliedExtsZcf :: "string list" where "ImpliedExtsZcf = [''zca'']"
definition ImpliedExtsZcmp :: "string list" where "ImpliedExtsZcmp = [''zca'']"
definition ImpliedExtsZcmt :: "string list" where "ImpliedExtsZcmt = [''zca'']"
definition ImpliedExtsZdinx :: "string list" where "ImpliedExtsZdinx = [''zfinx'']"
definition ImpliedExtsZfa :: "string list" where "ImpliedExtsZfa = [''f'']"
definition ImpliedExtsZfbfmin :: "string list" where "ImpliedExtsZfbfmin = [''f'']"
definition ImpliedExtsZfh :: "string list" where "ImpliedExtsZfh = [''f'']"
definition ImpliedExtsZfhmin :: "string list" where "ImpliedExtsZfhmin = [''f'']"
definition ImpliedExtsZfinx :: "string list" where "ImpliedExtsZfinx = [''zicsr'']"
definition ImpliedExtsZhinx :: "string list" where "ImpliedExtsZhinx = [''zfinx'']"
definition ImpliedExtsZhinxmin :: "string list" where "ImpliedExtsZhinxmin = [''zfinx'']"
definition ImpliedExtsZicntr :: "string list" where "ImpliedExtsZicntr = [''zicsr'']"
definition ImpliedExtsZihpm :: "string list" where "ImpliedExtsZihpm = [''zicsr'']"
definition ImpliedExtsZk :: "string list" where "ImpliedExtsZk = [''zkn'', ''zkt'', ''zkr'']"
definition ImpliedExtsZkn :: "string list" where "ImpliedExtsZkn = [''zbkb'', ''zbkc'', ''zbkx'', ''zkne'', ''zknd'', ''zknh'']"
definition ImpliedExtsZks :: "string list" where "ImpliedExtsZks = [''zbkb'', ''zbkc'', ''zbkx'', ''zksed'', ''zksh'']"
definition ImpliedExtsZve32f :: "string list" where "ImpliedExtsZve32f = [''zve32x'', ''f'']"
definition ImpliedExtsZve32x :: "string list" where "ImpliedExtsZve32x = [''zvl32b'', ''zicsr'']"
definition ImpliedExtsZve64d :: "string list" where "ImpliedExtsZve64d = [''zve64f'', ''d'']"
definition ImpliedExtsZve64f :: "string list" where "ImpliedExtsZve64f = [''zve64x'', ''zve32f'']"
definition ImpliedExtsZve64x :: "string list" where "ImpliedExtsZve64x = [''zve32x'', ''zvl64b'']"
definition ImpliedExtsZvfbfmin :: "string list" where "ImpliedExtsZvfbfmin = [''zve32f'']"
definition ImpliedExtsZvfbfwma :: "string list" where "ImpliedExtsZvfbfwma = [''zve32f'']"
definition ImpliedExtsZvfh :: "string list" where "ImpliedExtsZvfh = [''zve32f'', ''zfhmin'']"
definition ImpliedExtsZvkn :: "string list" where "ImpliedExtsZvkn = [''zvbb'', ''zvkned'', ''zvknhb'', ''zvkt'']"
definition ImpliedExtsZvknc :: "string list" where "ImpliedExtsZvknc = [''zvbc'', ''zvkn'']"
definition ImpliedExtsZvkng :: "string list" where "ImpliedExtsZvkng = [''zvkg'', ''zvkn'']"
definition ImpliedExtsZvknhb :: "string list" where "ImpliedExtsZvknhb = [''zvknha'']"
definition ImpliedExtsZvks :: "string list" where "ImpliedExtsZvks = [''zvbb'', ''zvksed'', ''zvksh'', ''zvkt'']"
definition ImpliedExtsZvksc :: "string list" where "ImpliedExtsZvksc = [''zvbc'', ''zvks'']"
definition ImpliedExtsZvksg :: "string list" where "ImpliedExtsZvksg = [''zvkg'', ''zvks'']"
definition ImpliedExtsZvl1024b :: "string list" where "ImpliedExtsZvl1024b = [''zvl512b'']"
definition ImpliedExtsZvl128b :: "string list" where "ImpliedExtsZvl128b = [''zvl64b'']"
definition ImpliedExtsZvl16384b :: "string list" where "ImpliedExtsZvl16384b = [''zvl8192b'']"
definition ImpliedExtsZvl2048b :: "string list" where "ImpliedExtsZvl2048b = [''zvl1024b'']"
definition ImpliedExtsZvl256b :: "string list" where "ImpliedExtsZvl256b = [''zvl128b'']"
definition ImpliedExtsZvl32768b :: "string list" where "ImpliedExtsZvl32768b = [''zvl16384b'']"
definition ImpliedExtsZvl4096b :: "string list" where "ImpliedExtsZvl4096b = [''zvl2048b'']"
definition ImpliedExtsZvl512b :: "string list" where "ImpliedExtsZvl512b = [''zvl256b'']"
definition ImpliedExtsZvl64b :: "string list" where "ImpliedExtsZvl64b = [''zvl32b'']"
definition ImpliedExtsZvl65536b :: "string list" where "ImpliedExtsZvl65536b = [''zvl32768b'']"
definition ImpliedExtsZvl8192b :: "string list" where "ImpliedExtsZvl8192b = [''zvl4096b'']"

definition ImpliedExts :: "(string \<times> string list) list" where
  "ImpliedExts = [
    (''d'', ImpliedExtsD), (''f'', ImpliedExtsF), (''v'', ImpliedExtsV),
    (''xsfvcp'', ImpliedExtsXsfvcp), (''xtheadvdot'', ImpliedExtsXTHeadVdot), (''zacas'', ImpliedExtsZacas),
    (''zcb'', ImpliedExtsZcb), (''zcd'', ImpliedExtsZcd), (''zce'', ImpliedExtsZce),
    (''zcf'', ImpliedExtsZcf), (''zcmp'', ImpliedExtsZcmp), (''zcmt'', ImpliedExtsZcmt),
    (''zdinx'', ImpliedExtsZdinx), (''zfa'', ImpliedExtsZfa), (''zfbfmin'', ImpliedExtsZfbfmin),
    (''zfh'', ImpliedExtsZfh), (''zfhmin'', ImpliedExtsZfhmin), (''zfinx'', ImpliedExtsZfinx),
    (''zhinx'', ImpliedExtsZhinx), (''zhinxmin'', ImpliedExtsZhinxmin), (''zicntr'', ImpliedExtsZicntr),
    (''zihpm'', ImpliedExtsZihpm), (''zk'', ImpliedExtsZk), (''zkn'', ImpliedExtsZkn),
    (''zks'', ImpliedExtsZks), (''zve32f'', ImpliedExtsZve32f), (''zve32x'', ImpliedExtsZve32x),
    (''zve64d'', ImpliedExtsZve64d), (''zve64f'', ImpliedExtsZve64f), (''zve64x'', ImpliedExtsZve64x),
    (''zvfbfmin'', ImpliedExtsZvfbfmin), (''zvfbfwma'', ImpliedExtsZvfbfwma), (''zvfh'', ImpliedExtsZvfh),
    (''zvkn'', ImpliedExtsZvkn), (''zvknc'', ImpliedExtsZvknc), (''zvkng'', ImpliedExtsZvkng),
    (''zvknhb'', ImpliedExtsZvknhb), (''zvks'', ImpliedExtsZvks), (''zvksc'', ImpliedExtsZvksc),
    (''zvksg'', ImpliedExtsZvksg), (''zvl1024b'', ImpliedExtsZvl1024b), (''zvl128b'', ImpliedExtsZvl128b),
    (''zvl16384b'', ImpliedExtsZvl16384b), (''zvl2048b'', ImpliedExtsZvl2048b), (''zvl256b'', ImpliedExtsZvl256b),
    (''zvl32768b'', ImpliedExtsZvl32768b), (''zvl4096b'', ImpliedExtsZvl4096b), (''zvl512b'', ImpliedExtsZvl512b),
    (''zvl64b'', ImpliedExtsZvl64b), (''zvl65536b'', ImpliedExtsZvl65536b), (''zvl8192b'', ImpliedExtsZvl8192b)]"

definition CombineIntoExts :: "(string \<times> string list) list" where
  "CombineIntoExts = [
    (''zk'', ImpliedExtsZk), (''zkn'', ImpliedExtsZkn), (''zks'', ImpliedExtsZks),
    (''zvkn'', ImpliedExtsZvkn), (''zvknc'', ImpliedExtsZvknc), (''zvkng'', ImpliedExtsZvkng),
    (''zvks'', ImpliedExtsZvks), (''zvksc'', ImpliedExtsZvksc), (''zvksg'', ImpliedExtsZvksg)]"

lemmas Implied_defs =
  ImpliedExtsD_def ImpliedExtsF_def ImpliedExtsV_def ImpliedExtsXTHeadVdot_def
  ImpliedExtsXsfvcp_def ImpliedExtsZacas_def ImpliedExtsZcb_def ImpliedExtsZcd_def
  ImpliedExtsZce_def ImpliedExtsZcf_def ImpliedExtsZcmp_def ImpliedExtsZcmt_def
  ImpliedExtsZdinx_def ImpliedExtsZfa_def ImpliedExtsZfbfmin_def ImpliedExtsZfh_def
  ImpliedExtsZfhmin_def ImpliedExtsZfinx_def ImpliedExtsZhinx_def ImpliedExtsZhinxmin_def
  ImpliedExtsZicntr_def ImpliedExtsZihpm_def ImpliedExtsZk_def ImpliedExtsZkn_def
  ImpliedExtsZks_def ImpliedExtsZve32f_def ImpliedExtsZve32x_def ImpliedExtsZve64d_def
  ImpliedExtsZve64f_def ImpliedExtsZve64x_def ImpliedExtsZvfbfmin_def ImpliedExtsZvfbfwma_def
  ImpliedExtsZvfh_def ImpliedExtsZvkn_def ImpliedExtsZvknc_def ImpliedExtsZvkng_def
  ImpliedExtsZvknhb_def ImpliedExtsZvks_def ImpliedExtsZvksc_def ImpliedExtsZvksg_def
  ImpliedExtsZvl1024b_def ImpliedExtsZvl128b_def ImpliedExtsZvl16384b_def ImpliedExtsZvl2048b_def
  ImpliedExtsZvl256b_def ImpliedExtsZvl32768b_def ImpliedExtsZvl4096b_def ImpliedExtsZvl512b_def
  ImpliedExtsZvl64b_def ImpliedExtsZvl65536b_def ImpliedExtsZvl8192b_def

section \<open>Binary search\<close>

text \<open>\<open>std::lower_bound\<close> and \<open>std::upper_bound\<close> over the names of a table: \<open>count\<close> entries are left
  from index \<open>first\<close> on.\<close>

function lower_bound_from :: "(string \<times> 'a) list \<Rightarrow> string \<Rightarrow> nat \<Rightarrow> nat \<Rightarrow> nat" where
  "lower_bound_from xs k first count =
    (if count = 0 then first
     else
       let step = count div 2; it = first + step
       in if fst (xs ! it) < k then lower_bound_from xs k (it + 1) (count - (step + 1))
          else lower_bound_from xs k first step)"
  by pat_completeness auto
termination
  by (relation "measure (\<lambda>(xs, k, first, count). count)") auto

function upper_bound_from :: "(string \<times> 'a) list \<Rightarrow> string \<Rightarrow> nat \<Rightarrow> nat \<Rightarrow> nat" where
  "upper_bound_from xs k first count =
    (if count = 0 then first
     else
       let step = count div 2; it = first + step
       in if \<not> k < fst (xs ! it) then upper_bound_from xs k (it + 1) (count - (step + 1))
          else upper_bound_from xs k first step)"
  by pat_completeness auto
termination
  by (relation "measure (\<lambda>(xs, k, first, count). count)") auto

declare lower_bound_from.simps [simp del] upper_bound_from.simps [simp del]

definition lower_bound :: "(string \<times> 'a) list \<Rightarrow> string \<Rightarrow> nat" where
  "lower_bound xs k = lower_bound_from xs k 0 (length xs)"

text \<open>The lookup every user of \<open>lower_bound\<close> writes out: the entry found, if it has the name.\<close>

definition find_entry :: "(string \<times> 'a) list \<Rightarrow> string \<Rightarrow> 'a option" where
  "find_entry xs k =
    (let I = lower_bound xs k in if I = length xs \<or> fst (xs ! I) \<noteq> k then None else Some (snd (xs ! I)))"

definition equal_range :: "(string \<times> 'a) list \<Rightarrow> string \<Rightarrow> (string \<times> 'a) list" where
  "equal_range xs k =
    (let f = lower_bound xs k; e = upper_bound_from xs k 0 (length xs) in take (e - f) (drop f xs))"

section \<open>Sorted tables\<close>

text \<open>A table sorted by name, as the comments on the tables ask.\<close>

fun ascending :: "'a::linorder list \<Rightarrow> bool" where
  "ascending (x # y # xs) \<longleftrightarrow> x < y \<and> ascending (y # xs)"
| "ascending _ \<longleftrightarrow> True"

lemma ascending_sorted: "ascending xs \<Longrightarrow> sorted_wrt (<) xs"
  by (induction xs rule: ascending.induct) (auto intro: less_trans)


locale sorted_table =
  fixes table :: "(string \<times> 'a) list"
  assumes ascending: "ascending (map fst table)"
begin

lemma sorted: "sorted_wrt (<) (map fst table)"
  using ascending by (rule ascending_sorted)

lemma name_mono: "i < j \<Longrightarrow> j < length table \<Longrightarrow> fst (table ! i) < fst (table ! j)"
  using sorted_wrt_nth_less [OF sorted, of i j] by simp

lemma lower_bound_from:
  assumes "first + count \<le> length table" "\<forall>i<first. fst (table ! i) < k" "\<forall>i<length table. first + count \<le> i \<longrightarrow> \<not> fst (table ! i) < k"
  shows "lower_bound_from table k first count \<le> length table \<and> (\<forall>i<lower_bound_from table k first count. fst (table ! i) < k) \<and>
    (\<forall>i<length table. lower_bound_from table k first count \<le> i \<longrightarrow> \<not> fst (table ! i) < k)"
  using assms
proof (induction count arbitrary: first rule: less_induct)
  case (less count)
  let ?s = "count div 2"
  let ?it = "first + ?s"
  consider "count = 0" | "count \<noteq> 0" "fst (table ! ?it) < k" | "count \<noteq> 0" "\<not> fst (table ! ?it) < k" by blast
  then show ?case
  proof cases
    case 1
    then have "lower_bound_from table k first count = first" by (simp add: lower_bound_from.simps)
    then show ?thesis using less.prems 1 by simp
  next
    case 2
    then have e: "lower_bound_from table k first count = lower_bound_from table k (?it + 1) (count - (?s + 1))"
      by (subst lower_bound_from.simps) (simp add: Let_def)
    have it: "?it < length table" "?s < count" using less.prems(1) 2(1) by auto
    have "fst (table ! i) < k" if "i < ?it + 1" for i
      using name_mono [of i ?it] it(1) 2(2) that by (cases "i = ?it") auto
    then show ?thesis
      unfolding e using less.prems(1,3) it by (intro less.IH) auto
  next
    case 3
    then have e: "lower_bound_from table k first count = lower_bound_from table k first ?s"
      by (subst lower_bound_from.simps) (simp add: Let_def)
    have it: "?it < length table" "?s < count" using less.prems(1) 3(1) by auto
    have "\<not> fst (table ! i) < k" if "i < length table" "?it \<le> i" for i
      using name_mono [of ?it i] that 3(2) by (cases "i = ?it") auto
    then show ?thesis
      unfolding e using less.prems(1,2) it by (intro less.IH) auto
  qed
qed

lemma upper_bound_from:
  assumes "first + count \<le> length table" "\<forall>i<first. \<not> k < fst (table ! i)" "\<forall>i<length table. first + count \<le> i \<longrightarrow> k < fst (table ! i)"
  shows "upper_bound_from table k first count \<le> length table \<and> (\<forall>i<upper_bound_from table k first count. \<not> k < fst (table ! i)) \<and>
    (\<forall>i<length table. upper_bound_from table k first count \<le> i \<longrightarrow> k < fst (table ! i))"
  using assms
proof (induction count arbitrary: first rule: less_induct)
  case (less count)
  let ?s = "count div 2"
  let ?it = "first + ?s"
  consider "count = 0" | "count \<noteq> 0" "\<not> k < fst (table ! ?it)" | "count \<noteq> 0" "k < fst (table ! ?it)" by blast
  then show ?case
  proof cases
    case 1
    then have "upper_bound_from table k first count = first" by (simp add: upper_bound_from.simps)
    then show ?thesis using less.prems 1 by simp
  next
    case 2
    then have e: "upper_bound_from table k first count = upper_bound_from table k (?it + 1) (count - (?s + 1))"
      by (subst upper_bound_from.simps) (simp add: Let_def)
    have it: "?it < length table" "?s < count" using less.prems(1) 2(1) by auto
    have "\<not> k < fst (table ! i)" if "i < ?it + 1" for i
      using name_mono [of i ?it] it(1) 2(2) that by (cases "i = ?it") auto
    then show ?thesis
      unfolding e using less.prems(1,3) it by (intro less.IH) auto
  next
    case 3
    then have e: "upper_bound_from table k first count = upper_bound_from table k first ?s"
      by (subst upper_bound_from.simps) (simp add: Let_def)
    have it: "?it < length table" "?s < count" using less.prems(1) 3(1) by auto
    have "k < fst (table ! i)" if "i < length table" "?it \<le> i" for i
      using name_mono [of ?it i] that 3(2) by (cases "i = ?it") auto
    then show ?thesis
      unfolding e using less.prems(1,2) it by (intro less.IH) auto
  qed
qed

lemma lower_bound:
  "lower_bound table k \<le> length table" "i < lower_bound table k \<Longrightarrow> fst (table ! i) < k"
  "i < length table \<Longrightarrow> lower_bound table k \<le> i \<Longrightarrow> k \<le> fst (table ! i)"
  using lower_bound_from [of 0 "length table" k] by (auto simp: lower_bound_def not_less)

lemma distinct_names: "distinct (map fst table)"
  using sorted strict_sorted_iff by blast

text \<open>The binary search finds what a linear search finds.\<close>

lemma find_entry_map_of: "find_entry table k = map_of table k"
proof (cases "lower_bound table k < length table \<and> fst (table ! lower_bound table k) = k")
  case True
  then have "(k, snd (table ! lower_bound table k)) \<in> set table"
    by (metis nth_mem prod.collapse)
  then show ?thesis
    using True distinct_names by (simp add: find_entry_def Let_def)
next
  case False
  have "k \<notin> fst ` set table"
  proof
    assume "k \<in> fst ` set table"
    then obtain i where i: "i < length table" "fst (table ! i) = k" by (auto simp: in_set_conv_nth)
    let ?l = "lower_bound table k"
    have "?l \<le> i" using lower_bound(2) [of i k] i by (metis less_irrefl not_le)
    moreover have "k \<le> fst (table ! ?l)" using lower_bound(3) [of ?l k] \<open>?l \<le> i\<close> i(1) by simp
    moreover have "fst (table ! ?l) \<noteq> k" using False \<open>?l \<le> i\<close> i(1) by auto
    ultimately show False using name_mono [of ?l i] i by (cases "?l = i") auto
  qed
  then have "map_of table k = None" by (simp add: map_of_eq_None_iff)
  then show ?thesis
    using False lower_bound(1) [of k] by (auto simp: find_entry_def Let_def)
qed

lemma set_equal_range: "set (equal_range table k) = {e \<in> set table. fst e = k}"
proof -
  let ?l = "lower_bound table k" and ?u = "upper_bound_from table k 0 (length table)"
  have u: "?u \<le> length table" "\<And>i. i < ?u \<Longrightarrow> fst (table ! i) \<le> k" "\<And>i. i < length table \<Longrightarrow> ?u \<le> i \<Longrightarrow> k < fst (table ! i)"
    using upper_bound_from [of 0 "length table" k] by (auto simp: not_less)
  have "set (equal_range table k) = {table ! i |i. ?l \<le> i \<and> i < ?u}"
  proof -
    have "take (?u - ?l) (drop ?l table) = map ((!) table) [?l..<?u]"
      using u(1) by (intro nth_equalityI) auto
    then show ?thesis by (auto simp: equal_range_def Let_def)
  qed
  also have "\<dots> = {e \<in> set table. fst e = k}"
  proof -
    have "?l \<le> i \<and> i < ?u \<longleftrightarrow> fst (table ! i) = k" if "i < length table" for i
      using that u(2) [of i] u(3) [of i] lower_bound(2) [of i k] lower_bound(3) [of i k] by fastforce
    moreover have "{e \<in> set table. fst e = k} = {table ! i |i. i < length table \<and> fst (table ! i) = k}"
      by (auto simp: in_set_conv_nth) (metis fst_conv)+
    moreover have "{table ! i |i. ?l \<le> i \<and> i < ?u} = {table ! i |i. i < length table \<and> fst (table ! i) = k}"
      using calculation(1) u(1) by (intro Collect_cong) (metis less_le_trans)
    ultimately show ?thesis by simp
  qed
  finally show ?thesis .
qed

end

interpretation sup: sorted_table SupportedExtensions
  by unfold_locales code_simp

interpretation exper: sorted_table SupportedExperimentalExtensions
  by unfold_locales code_simp

interpretation impl: sorted_table ImpliedExts
  by unfold_locales code_simp

section \<open>Lookups\<close>

definition stripExperimentalPrefix :: "string \<Rightarrow> bool \<times> string" where
  "stripExperimentalPrefix Ext = consume_front Ext ''experimental-''"

definition findDefaultVersion :: "string \<Rightarrow> version option" where
  "findDefaultVersion ExtName =
    (case find_entry SupportedExtensions ExtName of
       Some v \<Rightarrow> Some v
     | None \<Rightarrow> find_entry SupportedExperimentalExtensions ExtName)"

definition isExperimentalExtension :: "string \<Rightarrow> version option" where
  "isExperimentalExtension Ext = find_entry SupportedExperimentalExtensions Ext"

definition isSupportedExtensionFeature :: "string \<Rightarrow> bool" where
  "isSupportedExtensionFeature Ext =
    (let (IsExperimental, Ext') = stripExperimentalPrefix Ext;
         ExtInfo = (if IsExperimental then SupportedExperimentalExtensions else SupportedExtensions)
     in find_entry ExtInfo Ext' \<noteq> None)"

definition isSupportedExtension :: "string \<Rightarrow> bool" where
  "isSupportedExtension Ext \<longleftrightarrow>
    find_entry SupportedExtensions Ext \<noteq> None \<or> find_entry SupportedExperimentalExtensions Ext \<noteq> None"

definition isSupportedExtensionVersion :: "string \<Rightarrow> u32 \<Rightarrow> u32 \<Rightarrow> bool" where
  "isSupportedExtensionVersion Ext MajorVersion MinorVersion \<longleftrightarrow>
    list_ex (\<lambda>ExtInfo. list_ex (\<lambda>I. fst (snd I) = MajorVersion \<and> snd (snd I) = MinorVersion) (equal_range ExtInfo Ext))
      [SupportedExtensions, SupportedExperimentalExtensions]"

definition getExtensionTypeDesc :: "string \<Rightarrow> string" where
  "getExtensionTypeDesc Ext =
    (if starts_with Ext ''s'' then ''standard supervisor-level extension''
     else if starts_with Ext ''x'' then ''non-standard user-level extension''
     else if starts_with Ext ''z'' then ''standard user-level extension'' else [])"

definition getExtensionType :: "string \<Rightarrow> string" where
  "getExtensionType Ext =
    (if starts_with Ext ''s'' then ''s'' else if starts_with Ext ''x'' then ''x''
     else if starts_with Ext ''z'' then ''z'' else [])"

text \<open>What the lookups amount to, also used to evaluate them.\<close>

lemma findDefaultVersion_map [code]:
  "findDefaultVersion e =
    (case map_of SupportedExtensions e of Some v \<Rightarrow> Some v | None \<Rightarrow> map_of SupportedExperimentalExtensions e)"
  unfolding findDefaultVersion_def sup.find_entry_map_of exper.find_entry_map_of ..

lemma isSupportedExtension_map [code]:
  "isSupportedExtension e \<longleftrightarrow>
    map_of SupportedExtensions e \<noteq> None \<or> map_of SupportedExperimentalExtensions e \<noteq> None"
  unfolding isSupportedExtension_def sup.find_entry_map_of exper.find_entry_map_of ..

lemma isExperimentalExtension_map [code]:
  "isExperimentalExtension e = map_of SupportedExperimentalExtensions e"
  unfolding isExperimentalExtension_def exper.find_entry_map_of ..

section \<open>The canonical order\<close>

definition RF_Z_EXTENSION :: u32 where "RF_Z_EXTENSION = push_bit 6 1"
definition RF_S_EXTENSION :: u32 where "RF_S_EXTENSION = push_bit 7 1"
definition RF_X_EXTENSION :: u32 where "RF_X_EXTENSION = push_bit 8 1"

fun find_char :: "char \<Rightarrow> string \<Rightarrow> nat \<Rightarrow> nat option" where
  "find_char c [] i = None"
| "find_char c (x # xs) i = (if x = c then Some i else find_char c xs (Suc i))"

definition singleLetterExtensionRank :: "char \<Rightarrow> u32" where
  "singleLetterExtensionRank Ext =
    (if Ext = CHR ''i'' then 0
     else if Ext = CHR ''e'' then 1
     else case find_char Ext AllStdExts 0 of
         Some Pos \<Rightarrow> of_nat Pos + 2
       | None \<Rightarrow> 2 + of_nat (length AllStdExts) + (of_char Ext - of_char (CHR ''a'')))"

text \<open>The character at an index of a \<open>std::string\<close>, which is zero at its length.\<close>

definition char_at :: "string \<Rightarrow> nat \<Rightarrow> char" where
  "char_at s i = (if i < length s then s ! i else CHR 0x00)"

definition getExtensionRank :: "string \<Rightarrow> u32" where
  "getExtensionRank ExtName =
    (if char_at ExtName 0 = CHR ''s'' then RF_S_EXTENSION
     else if char_at ExtName 0 = CHR ''z'' then RF_Z_EXTENSION OR singleLetterExtensionRank (char_at ExtName 1)
     else if char_at ExtName 0 = CHR ''x'' then RF_X_EXTENSION
     else singleLetterExtensionRank (char_at ExtName 0))"

text \<open>The assertions of the two rank functions.\<close>

definition rankable :: "string \<Rightarrow> bool" where
  "rankable ExtName \<longleftrightarrow>
    (let letter = (\<lambda>c. CHR ''a'' \<le> c \<and> c \<le> CHR ''z'') in
     ExtName \<noteq> [] \<and>
     (if hd ExtName = CHR ''s'' \<or> hd ExtName = CHR ''x'' then True
      else if hd ExtName = CHR ''z'' then 2 \<le> length ExtName \<and> letter (ExtName ! 1)
      else length ExtName = 1 \<and> letter (hd ExtName)))"

definition compareExtension :: "string \<Rightarrow> string \<Rightarrow> bool" where
  "compareExtension LHS RHS =
    (let LHSRank = getExtensionRank LHS; RHSRank = getExtensionRank RHS
     in if LHSRank \<noteq> RHSRank then LHSRank < RHSRank else LHS < RHS)"

text \<open>The key type of the map of extensions: names under the canonical order.\<close>

datatype ext_name = ExtName (ext_str: string)

instantiation ext_name :: linorder
begin

definition less_ext_name :: "ext_name \<Rightarrow> ext_name \<Rightarrow> bool" where
  "less_ext_name a b \<longleftrightarrow> compareExtension (ext_str a) (ext_str b)"

definition less_eq_ext_name :: "ext_name \<Rightarrow> ext_name \<Rightarrow> bool" where
  "less_eq_ext_name a b \<longleftrightarrow> \<not> compareExtension (ext_str b) (ext_str a)"

instance
proof
  fix a b c :: ext_name
  show "a < b \<longleftrightarrow> a \<le> b \<and> \<not> b \<le> a" "a \<le> a" "a \<le> b \<or> b \<le> a"
    by (auto simp: less_ext_name_def less_eq_ext_name_def compareExtension_def Let_def)
  show "a \<le> b \<Longrightarrow> b \<le> c \<Longrightarrow> a \<le> c"
    by (auto simp: less_eq_ext_name_def compareExtension_def Let_def not_less split: if_splits)
  show "a \<le> b \<Longrightarrow> b \<le> a \<Longrightarrow> a = b"
    by (auto simp: less_eq_ext_name_def compareExtension_def Let_def not_less ext_name.expand split: if_splits)
qed

end

end
