(* ===== verification/ISAInfo.thy ===== *)
theory ISAInfo
  imports ISATables
begin

text \<open>
  \<open>llvm/lib/Support/RISCVISAInfo.cpp\<close>: the ISA description, how it is parsed from an architecture
  string or a list of features, completed (implications, combinations, lengths), checked and printed.

  The map of extensions is a list of entries in the order of its keys. \<open>Undefined\<close> is the outcome of
  a run that reads an empty \<open>optional\<close> or an uninitialised variable; assertions are those of a build
  without them. A \<open>u32\<close> is an \<open>unsigned\<close>; lengths of strings are natural numbers.
\<close>

section \<open>State\<close>

record RISCVISAInfo =
  XLen :: u32
  FLen :: u32
  MinVLen :: u32
  MaxELen :: u32
  MaxELenFp :: u32
  Exts :: "(ext_name \<times> version) list"

definition new_info :: "u32 \<Rightarrow> RISCVISAInfo" where
  "new_info xlen = \<lparr>XLen = xlen, FLen = 0, MinVLen = 0, MaxELen = 0, MaxELenFp = 0, Exts = []\<rparr>"

datatype isa_error =
    NotLowercase | BadBase | BadFirstLetter | VersionForG | NameMissing
  | MinorMissing string | MajorInvalid string | MinorInvalid string | SeparatorMissing
  | RequiresExperimental string | ExplicitVersion string
  | UnsupportedVersion string string string "(u32 \<times> u32) option"
  | NotCanonical char | InvalidLetter char | UnsupportedLetter char
  | BadPrefix string | PrefixOnly string string | Duplicated string string | UnsupportedExt string string
  | LacksVersion | NormMinorInvalid | NormMajorInvalid
  | FWithZfinx | ZvlNeedsVector | ZvbbNeedsVector | ZvbcNeedsVector | ZvkNeedsVector | ZvknhbNeedsVector
  | ZcIncompatible string string | ZcfNeedsRV32

datatype 'a outcome = Success 'a | Failure isa_error | Undefined

definition of_defined :: "'a option \<Rightarrow> ('a \<Rightarrow> 'b outcome) \<Rightarrow> 'b outcome" where
  "of_defined r f = (case r of None \<Rightarrow> Undefined | Some x \<Rightarrow> f x)"

section \<open>The map of extensions\<close>

text \<open>\<open>operator[]\<close> of the map, with an assignment: the entry is replaced or placed in order.\<close>

fun ext_put :: "'k::linorder \<Rightarrow> 'v \<Rightarrow> ('k \<times> 'v) list \<Rightarrow> ('k \<times> 'v) list" where
  "ext_put k v [] = [(k, v)]"
| "ext_put k v ((k', v') # m) =
    (if k' < k then (k', v') # ext_put k v m
     else if k < k' then (k, v) # (k', v') # m
     else (k', v) # m)"

fun ext_erase :: "'k::linorder \<Rightarrow> ('k \<times> 'v) list \<Rightarrow> ('k \<times> 'v) list" where
  "ext_erase k [] = []"
| "ext_erase k ((k', v') # m) =
    (if k' < k then (k', v') # ext_erase k m else if k < k' then (k', v') # m else m)"

fun ext_count :: "'k::linorder \<Rightarrow> ('k \<times> 'v) list \<Rightarrow> bool" where
  "ext_count k [] = False"
| "ext_count k ((k', v') # m) = (if k' < k then ext_count k m else \<not> k < k')"

definition has_ext :: "RISCVISAInfo \<Rightarrow> string \<Rightarrow> bool" where
  "has_ext info e = ext_count (ExtName e) (Exts info)"

definition addExtension :: "RISCVISAInfo \<Rightarrow> string \<Rightarrow> u32 \<Rightarrow> u32 \<Rightarrow> RISCVISAInfo" where
  "addExtension info e MajorVersion MinorVersion =
    info\<lparr>Exts := ext_put (ExtName e) (MajorVersion, MinorVersion) (Exts info)\<rparr>"

text \<open>Adding an extension at the version \<open>findDefaultVersion\<close> has for it.\<close>

definition addDefault :: "RISCVISAInfo \<Rightarrow> string \<Rightarrow> RISCVISAInfo option" where
  "addDefault info e =
    (case findDefaultVersion e of None \<Rightarrow> None | Some (Major, Minor) \<Rightarrow> Some (addExtension info e Major Minor))"

definition hasExtension :: "RISCVISAInfo \<Rightarrow> string \<Rightarrow> bool" where
  "hasExtension info Ext =
    (let (_, Ext') = stripExperimentalPrefix Ext
     in if \<not> isSupportedExtension Ext' then False else has_ext info Ext')"

section \<open>Completion\<close>

text \<open>The work list of \<open>updateImplication\<close> is a vector without duplicates, used at its end.\<close>

definition set_insert :: "string list \<Rightarrow> string \<Rightarrow> string list" where
  "set_insert WorkList e = (if e \<in> set WorkList then WorkList else WorkList @ [e])"

fun imply_exts :: "string list \<Rightarrow> string list \<Rightarrow> RISCVISAInfo \<Rightarrow> (string list \<times> RISCVISAInfo) option" where
  "imply_exts [] WorkList info = Some (WorkList, info)"
| "imply_exts (ImpliedExt # es) WorkList info =
    (if ImpliedExt \<in> set WorkList then imply_exts es WorkList info
     else if has_ext info ImpliedExt then imply_exts es WorkList info
     else case addDefault info ImpliedExt of
         None \<Rightarrow> None
       | Some info' \<Rightarrow> imply_exts es (set_insert WorkList ImpliedExt) info')"

text \<open>The extensions of the tables the description does not have yet: the bound on the loops.\<close>

definition missing :: "RISCVISAInfo \<Rightarrow> nat" where
  "missing info =
    length (filter (\<lambda>e. \<not> has_ext info e) (map fst SupportedExtensions @ map fst SupportedExperimentalExtensions))"

lemma ext_count_put: "ext_count j (ext_put k v m) \<longleftrightarrow> j = k \<or> ext_count j m"
  by (induction m rule: ext_put.induct) (auto dest: less_imp_not_less)

lemma has_ext_addExtension [simp]: "has_ext (addExtension info e a b) j \<longleftrightarrow> j = e \<or> has_ext info j"
  by (auto simp: has_ext_def addExtension_def ext_count_put)

lemma findDefaultVersion_name:
  "findDefaultVersion e = Some v \<Longrightarrow>
   e \<in> set (map fst SupportedExtensions @ map fst SupportedExperimentalExtensions)"
  by (auto simp: findDefaultVersion_def sup.find_entry_map_of exper.find_entry_map_of
      dest!: map_of_SomeD split: option.splits intro: rev_image_eqI)

lemma length_filter_less:
  assumes "\<forall>x\<in>set xs. P x \<longrightarrow> Q x" "y \<in> set xs" "Q y" "\<not> P y"
  shows "length (filter P xs) < length (filter Q xs)"
  using assms
proof (induction xs)
  case (Cons x xs)
  have "length (filter P xs) \<le> length (filter Q xs)"
    using Cons.prems(1) by (induction xs) auto
  then show ?case using Cons by (cases "x = y") auto
qed simp

lemma addDefault_missing:
  assumes "addDefault info e = Some info'" "\<not> has_ext info e"
  shows "missing info' < missing info"
proof -
  obtain v where v: "findDefaultVersion e = Some v" "info' = addExtension info e (fst v) (snd v)"
    using assms(1) by (auto simp: addDefault_def split: option.splits)
  show ?thesis
    unfolding missing_def v(2)
    by (rule length_filter_less [of _ _ _ e]) (use findDefaultVersion_name [OF v(1)] assms(2) in auto)
qed

lemma imply_exts_measure:
  "imply_exts es WL info = Some (WL', info') \<Longrightarrow> length WL' + missing info' \<le> length WL + missing info"
proof (induction es WL info rule: imply_exts.induct)
  case (2 e es WL info)
  show ?case
  proof (cases "e \<in> set WL \<or> has_ext info e")
    case True
    then show ?thesis using 2 by (auto split: if_splits)
  next
    case False
    then obtain info1 where i: "addDefault info e = Some info1"
      "imply_exts es (set_insert WL e) info1 = Some (WL', info')"
      using "2.prems" by (auto split: option.splits)
    moreover have "missing info1 < missing info" using addDefault_missing i(1) False by blast
    moreover have "length WL' + missing info' \<le> length (set_insert WL e) + missing info1"
      using "2.IH"(3) False i by simp
    moreover have "length (set_insert WL e) \<le> length WL + 1" by (simp add: set_insert_def)
    ultimately show ?thesis by linarith
  qed
qed auto

text \<open>Each round takes one extension off the work list.\<close>

function imply_loop :: "string list \<Rightarrow> RISCVISAInfo \<Rightarrow> RISCVISAInfo option" where
  "imply_loop WorkList info =
    (if WorkList = [] then Some info
     else case find_entry ImpliedExts (last WorkList) of
         None \<Rightarrow> imply_loop (butlast WorkList) info
       | Some es \<Rightarrow>
           (case imply_exts es (butlast WorkList) info of
              None \<Rightarrow> None
            | Some (WorkList', info') \<Rightarrow> imply_loop WorkList' info'))"
  by pat_completeness auto
termination
proof (relation "measure (\<lambda>(WL, info). length WL + missing info)")
  fix WL :: "string list" and info es r WL' info'
  assume "WL \<noteq> []" "imply_exts es (butlast WL) info = Some r" "(WL', info') = r"
  moreover from this have "length WL' + missing info' \<le> length (butlast WL) + missing info"
    using imply_exts_measure [of es "butlast WL" info WL' info'] by simp
  moreover obtain k where "length WL = Suc k" using \<open>WL \<noteq> []\<close> by (cases WL) auto
  ultimately show "((WL', info'), WL, info) \<in> measure (\<lambda>(WL, info). length WL + missing info)"
    by auto
qed auto

declare imply_loop.simps [simp del]

definition updateImplication :: "RISCVISAInfo \<Rightarrow> RISCVISAInfo option" where
  "updateImplication info =
    (let HasE = has_ext info ''e''; HasI = has_ext info ''i''
     in case (if \<not> HasE \<and> \<not> HasI then addDefault info ''i'' else Some info) of
         None \<Rightarrow> None
       | Some info1 \<Rightarrow>
           (case imply_loop (foldl set_insert [] (map (ext_str \<circ> fst) (Exts info1))) info1 of
              None \<Rightarrow> None
            | Some info2 \<Rightarrow>
                if XLen info2 = 32 \<and> has_ext info2 ''zce'' \<and> has_ext info2 ''f'' \<and> \<not> has_ext info2 ''zcf''
                then addDefault info2 ''zcf'' else Some info2))"

text \<open>One pass of \<open>updateCombination\<close> over the table: whether something was added, and the result.\<close>

fun combine_pass :: "(string \<times> string list) list \<Rightarrow> bool \<Rightarrow> RISCVISAInfo \<Rightarrow> (bool \<times> RISCVISAInfo) option" where
  "combine_pass [] IsNewCombine info = Some (IsNewCombine, info)"
| "combine_pass ((CombineExt, RequiredExts) # rest) IsNewCombine info =
    (if hasExtension info CombineExt then combine_pass rest IsNewCombine info
     else if list_all (hasExtension info) RequiredExts then
       (case addDefault info CombineExt of
          None \<Rightarrow> None
        | Some info' \<Rightarrow> combine_pass rest True info')
     else combine_pass rest IsNewCombine info)"

lemma supported_not_experimental_prefix:
  "list_all (\<lambda>e. \<not> starts_with e ''experimental-'')
     (map fst SupportedExtensions @ map fst SupportedExperimentalExtensions)"
  by code_simp

lemma addDefault_hasExtension:
  assumes "addDefault info e = Some info'" "has_ext info e"
  shows "hasExtension info e"
proof -
  obtain v where v: "findDefaultVersion e = Some v"
    using assms(1) by (auto simp: addDefault_def split: option.splits)
  then have "\<not> starts_with e ''experimental-''"
    using findDefaultVersion_name supported_not_experimental_prefix by (auto simp: list_all_iff)
  moreover have "isSupportedExtension e"
    using v by (auto simp: findDefaultVersion_def isSupportedExtension_def split: option.splits)
  ultimately show ?thesis
    using assms(2) by (simp add: hasExtension_def stripExperimentalPrefix_def consume_front_def)
qed

lemma combine_pass_missing:
  "combine_pass es new info = Some (new', info') \<Longrightarrow>
   missing info' \<le> missing info \<and> (new' \<longrightarrow> new \<or> missing info' < missing info)"
proof (induction es new info rule: combine_pass.induct)
  case (2 c req rest new info)
  show ?case
  proof (cases "hasExtension info c \<or> \<not> list_all (hasExtension info) req")
    case True
    then show ?thesis using 2 by (auto split: if_splits)
  next
    case False
    then obtain info1 where i: "addDefault info c = Some info1" "combine_pass rest True info1 = Some (new', info')"
      using "2.prems" by (auto split: option.splits)
    have "\<not> has_ext info c" using addDefault_hasExtension [OF i(1)] False by blast
    then have "missing info1 < missing info" using addDefault_missing i(1) by blast
    moreover have "missing info' \<le> missing info1" using "2.IH"(2) False i by blast
    ultimately show ?thesis by simp
  qed
qed auto

function combine_loop :: "RISCVISAInfo \<Rightarrow> RISCVISAInfo option" where
  "combine_loop info =
    (case combine_pass CombineIntoExts False info of
       None \<Rightarrow> None
     | Some (IsNewCombine, info') \<Rightarrow> if IsNewCombine then combine_loop info' else Some info')"
  by pat_completeness auto
termination
  by (relation "measure missing") (auto dest: combine_pass_missing)

declare combine_loop.simps [simp del]

definition updateCombination :: "RISCVISAInfo \<Rightarrow> RISCVISAInfo option" where
  "updateCombination info = combine_loop info"

definition updateFLen :: "RISCVISAInfo \<Rightarrow> RISCVISAInfo" where
  "updateFLen info =
    info\<lparr>FLen := if has_ext info ''d'' then 64 else if has_ext info ''f'' then 32 else 0\<rparr>"

text \<open>The number in a name \<open>zvl<n>b\<close>.\<close>

definition zvl_length :: "string \<Rightarrow> u32 option" where
  "zvl_length Name =
    (let (front, s) = consume_front Name ''zvl''; (back, s') = (if front then consume_back s ''b'' else (False, s))
     in if front \<and> back then getAsInteger s' 10 else None)"

definition updateMinVLen :: "RISCVISAInfo \<Rightarrow> RISCVISAInfo" where
  "updateMinVLen info =
    info\<lparr>MinVLen :=
      foldl (\<lambda>len Ext. case zvl_length (ext_str (fst Ext)) of None \<Rightarrow> len | Some ZvlLen \<Rightarrow> max len ZvlLen)
        (MinVLen info) (Exts info)\<rparr>"

text \<open>One extension in \<open>updateMaxELen\<close>: \<open>back\<close> of an empty name, or a \<open>ZveELen\<close> that
  \<open>getAsInteger\<close> did not write, is undefined.\<close>

definition maxELen_step :: "string \<Rightarrow> u32 \<times> u32 \<Rightarrow> (u32 \<times> u32) option" where
  "maxELen_step Name lens =
    (let (ELen, ELenFp) = lens; (IsZveExt, s) = consume_front Name ''zve''
     in if \<not> IsZveExt then Some (ELen, ELenFp)
        else if s = [] then None
        else
          let ELenFp1 = (if last s = CHR ''f'' then max ELenFp 32 else ELenFp);
              ELenFp2 = (if last s = CHR ''d'' then max ELenFp1 64 else ELenFp1)
          in case getAsInteger (butlast s) 10 of
              None \<Rightarrow> None
            | Some ZveELen \<Rightarrow> Some (max ELen ZveELen, ELenFp2))"

fun maxELen_loop :: "string list \<Rightarrow> u32 \<times> u32 \<Rightarrow> (u32 \<times> u32) option" where
  "maxELen_loop [] lens = Some lens"
| "maxELen_loop (Name # Names) lens =
    (case maxELen_step Name lens of None \<Rightarrow> None | Some lens' \<Rightarrow> maxELen_loop Names lens')"

definition updateMaxELen :: "RISCVISAInfo \<Rightarrow> RISCVISAInfo option" where
  "updateMaxELen info =
    (case maxELen_loop (map (ext_str \<circ> fst) (Exts info)) (MaxELen info, MaxELenFp info) of
       None \<Rightarrow> None
     | Some (ELen, ELenFp) \<Rightarrow> Some (info\<lparr>MaxELen := ELen, MaxELenFp := ELenFp\<rparr>))"

section \<open>Checks\<close>

definition checkDependency :: "RISCVISAInfo \<Rightarrow> isa_error option" where
  "checkDependency info =
    (let HasC = has_ext info ''c''; HasF = has_ext info ''f''; HasZfinx = has_ext info ''zfinx'';
         HasVector = has_ext info ''zve32x''; HasZvl = MinVLen info \<noteq> 0; HasZcmt = has_ext info ''zcmt''
     in if HasF \<and> HasZfinx then Some FWithZfinx
        else if HasZvl \<and> \<not> HasVector then Some ZvlNeedsVector
        else if has_ext info ''zvbb'' \<and> \<not> HasVector then Some ZvbbNeedsVector
        else if has_ext info ''zvbc'' \<and> \<not> has_ext info ''zve64x'' then Some ZvbcNeedsVector
        else if (has_ext info ''zvkg'' \<or> has_ext info ''zvkned'' \<or> has_ext info ''zvknha'' \<or>
                 has_ext info ''zvksed'' \<or> has_ext info ''zvksh'') \<and> \<not> HasVector then Some ZvkNeedsVector
        else if has_ext info ''zvknhb'' \<and> \<not> has_ext info ''zve64x'' then Some ZvknhbNeedsVector
        else if (HasZcmt \<or> has_ext info ''zcmp'') \<and> has_ext info ''d'' \<and> (HasC \<or> has_ext info ''zcd'')
        then Some (ZcIncompatible (if HasZcmt then ''zcmt'' else ''zcmp'') (if HasC then ''c'' else ''zcd''))
        else if XLen info \<noteq> 32 \<and> has_ext info ''zcf'' then Some ZcfNeedsRV32
        else None)"

definition postProcessAndChecking :: "RISCVISAInfo \<Rightarrow> RISCVISAInfo outcome" where
  "postProcessAndChecking info =
    of_defined (updateImplication info) (\<lambda>info1.
    of_defined (updateCombination info1) (\<lambda>info2.
    of_defined (updateMaxELen (updateMinVLen (updateFLen info2))) (\<lambda>info3.
    case checkDependency info3 of Some e \<Rightarrow> Failure e | None \<Rightarrow> Success info3)))"

section \<open>Parsing\<close>

fun skip_digits :: "string \<Rightarrow> nat \<Rightarrow> nat" where
  "skip_digits Ext 0 = 0"
| "skip_digits Ext (Suc Pos) = (if isDigit (Ext ! Suc Pos) then skip_digits Ext Pos else Suc Pos)"

definition findLastNonVersionCharacter :: "string \<Rightarrow> nat" where
  "findLastNonVersionCharacter Ext =
    (let Pos = skip_digits Ext (length Ext - 1)
     in if 0 < Pos \<and> Ext ! Pos = CHR ''p'' \<and> isDigit (Ext ! (Pos - 1)) then skip_digits Ext (Pos - 1) else Pos)"

text \<open>\<open>getExtensionVersion\<close> with its three output parameters, which are set on errors too.\<close>

definition getExtensionVersion ::
  "string \<Rightarrow> string \<Rightarrow> bool \<Rightarrow> bool \<Rightarrow> isa_error option \<times> u32 \<times> u32 \<times> nat" where
  "getExtensionVersion Ext In EnableExperimentalExtension ExperimentalExtensionVersionCheck =
    (let MajorStr = takeWhile isDigit In;
         In1 = drop (length MajorStr) In;
         (HasP, In2) = (if MajorStr \<noteq> [] then consume_front In1 ''p'' else (False, In1));
         MinorStr = (if HasP then takeWhile isDigit In2 else []);
         In3 = (if HasP then drop (length MajorStr + length MinorStr - 1) In2 else In2)
     in if HasP \<and> MinorStr = [] then (Some (MinorMissing Ext), 0, 0, 0)
        else case (if MajorStr \<noteq> [] then getAsInteger MajorStr 10 else Some 0) of
            None \<Rightarrow> (Some (MajorInvalid Ext), 0, 0, 0)
          | Some Major \<Rightarrow>
        case (if MinorStr \<noteq> [] then getAsInteger MinorStr 10 else Some 0) of
            None \<Rightarrow> (Some (MinorInvalid Ext), Major, 0, 0)
          | Some Minor \<Rightarrow>
        let ConsumeLength = length MajorStr + (if MinorStr \<noteq> [] then length MinorStr + 1 else 0)
        in if length Ext > 1 \<and> In3 \<noteq> [] then (Some SeparatorMissing, Major, Minor, ConsumeLength)
           else case isExperimentalExtension Ext of
               Some SupportedVers \<Rightarrow>
                 (if \<not> EnableExperimentalExtension then Some (RequiresExperimental Ext)
                  else if ExperimentalExtensionVersionCheck \<and> MajorStr = [] \<and> MinorStr = [] then Some (ExplicitVersion Ext)
                  else if ExperimentalExtensionVersionCheck \<and> (Major \<noteq> fst SupportedVers \<or> Minor \<noteq> snd SupportedVers)
                  then Some (UnsupportedVersion Ext MajorStr MinorStr (Some SupportedVers))
                  else None, Major, Minor, ConsumeLength)
             | None \<Rightarrow>
                 if Ext = ''g'' then (None, Major, Minor, ConsumeLength)
                 else if MajorStr = [] \<and> MinorStr = [] then
                   (case findDefaultVersion Ext of
                      Some (DMajor, DMinor) \<Rightarrow> (None, DMajor, DMinor, ConsumeLength)
                    | None \<Rightarrow> (None, Major, Minor, ConsumeLength))
                 else if isSupportedExtensionVersion Ext Major Minor then (None, Major, Minor, ConsumeLength)
                 else (Some (UnsupportedVersion Ext MajorStr MinorStr None), Major, Minor, ConsumeLength))"

definition isupper :: "char \<Rightarrow> bool" where
  "isupper c \<longleftrightarrow> CHR ''A'' \<le> c \<and> c \<le> CHR ''Z''"

text \<open>\<open>parseFeatures\<close>: a feature is a sign and a name.\<close>

definition feature_step :: "RISCVISAInfo \<Rightarrow> string \<Rightarrow> RISCVISAInfo" where
  "feature_step info Feature =
    (let Add = (char_at Feature 0 = CHR ''+'');
         (Experimental, Name) = stripExperimentalPrefix (drop 1 Feature);
         ExtensionInfos = (if Experimental then SupportedExperimentalExtensions else SupportedExtensions)
     in case find_entry ExtensionInfos Name of
         None \<Rightarrow> info
       | Some (Major, Minor) \<Rightarrow>
           if Add then addExtension info Name Major Minor
           else info\<lparr>Exts := ext_erase (ExtName Name) (Exts info)\<rparr>)"

definition parseFeatures :: "u32 \<Rightarrow> string list \<Rightarrow> RISCVISAInfo outcome" where
  "parseFeatures xlen Features = postProcessAndChecking (foldl feature_step (new_info xlen) Features)"

text \<open>\<open>parseNormalizedArchString\<close>: each part is a name, a major and a minor version.\<close>

definition normalized_ext :: "string \<Rightarrow> isa_error + string \<times> u32 \<times> u32" where
  "normalized_ext Ext =
    (let (Prefix, MinorVersionStr) = rsplit Ext (CHR ''p'')
     in if MinorVersionStr = [] then Inl LacksVersion
        else case getAsInteger MinorVersionStr 10 of
            None \<Rightarrow> Inl NormMinorInvalid
          | Some MinorVersion \<Rightarrow>
        let MajorVersionStr = rev (takeWhile isDigit (rev Prefix));
            Name = take (length Prefix - length MajorVersionStr) Prefix
        in if MajorVersionStr = [] then Inl LacksVersion
           else case getAsInteger MajorVersionStr 10 of
               None \<Rightarrow> Inl NormMajorInvalid
             | Some MajorVersion \<Rightarrow> Inr (Name, MajorVersion, MinorVersion))"

fun normalized_exts :: "string list \<Rightarrow> RISCVISAInfo \<Rightarrow> isa_error + RISCVISAInfo" where
  "normalized_exts [] info = Inr info"
| "normalized_exts (Ext # Split) info =
    (case normalized_ext Ext of
       Inl e \<Rightarrow> Inl e
     | Inr (Name, Major, Minor) \<Rightarrow> normalized_exts Split (addExtension info Name Major Minor))"

definition normalized_xlen :: "string \<Rightarrow> u32 option" where
  "normalized_xlen Arch =
    (if starts_with Arch ''rv32i'' \<or> starts_with Arch ''rv32e'' then Some 32
     else if starts_with Arch ''rv64i'' \<or> starts_with Arch ''rv64e'' then Some 64 else None)"

definition parseNormalizedArchString :: "string \<Rightarrow> RISCVISAInfo outcome" where
  "parseNormalizedArchString Arch =
    (if list_ex isupper Arch then Failure NotLowercase
     else case normalized_xlen Arch of
         None \<Rightarrow> Failure BadBase
       | Some xlen \<Rightarrow>
           (case normalized_exts (split_on (CHR ''_'') (drop 4 Arch)) (new_info xlen) of
              Inl e \<Rightarrow> Failure e
            | Inr info \<Rightarrow> of_defined (updateMaxELen (updateMinVLen (updateFLen info))) Success))"

text \<open>\<open>parseArchString\<close>: the flags, the loop over single letters and the loop over the longer names.\<close>

record parse_flags =
  EnableExperimentalExtension :: bool
  ExperimentalExtensionVersionCheck :: bool
  IgnoreUnknown :: bool

definition GoToNextExt :: "string \<Rightarrow> nat \<Rightarrow> string" where
  "GoToNextExt I ConsumeLength =
    (let I' = drop (1 + ConsumeLength) I in if I' \<noteq> [] \<and> hd I' = CHR ''_'' then tl I' else I')"

lemma length_GoToNextExt: "I \<noteq> [] \<Longrightarrow> length (GoToNextExt I n) < length I"
  by (cases I) (auto simp: GoToNextExt_def Let_def)

function parse_std ::
  "parse_flags \<Rightarrow> string \<Rightarrow> string \<Rightarrow> string \<Rightarrow> RISCVISAInfo \<Rightarrow> isa_error + RISCVISAInfo" where
  "parse_std flags StdExts StdExtsItr I info =
    (if I = [] then Inr info
     else
       let C = hd I; Itr = dropWhile (\<lambda>x. x \<noteq> C) StdExtsItr
       in if Itr = [] then Inl (if C \<in> set StdExts then NotCanonical C else InvalidLetter C)
          else
            let (E, Major, Minor, ConsumeLength) =
                  getExtensionVersion [C] (tl I) (EnableExperimentalExtension flags)
                    (ExperimentalExtensionVersionCheck flags)
            in case E of
                Some e \<Rightarrow>
                  if IgnoreUnknown flags then parse_std flags StdExts (tl Itr) (GoToNextExt I ConsumeLength) info
                  else Inl e
              | None \<Rightarrow>
                  if \<not> isSupportedExtension [C] then
                    if IgnoreUnknown flags then parse_std flags StdExts (tl Itr) (GoToNextExt I ConsumeLength) info
                    else Inl (UnsupportedLetter C)
                  else parse_std flags StdExts (tl Itr) (GoToNextExt I ConsumeLength)
                         (addExtension info [C] Major Minor))"
  by pat_completeness auto
termination
  by (relation "measure (\<lambda>(flags, StdExts, Itr, I, info). length I)") (auto intro: length_GoToNextExt)

declare parse_std.simps [simp del]

fun parse_multi ::
  "parse_flags \<Rightarrow> string list \<Rightarrow> string list \<Rightarrow> RISCVISAInfo \<Rightarrow> isa_error + string list \<times> RISCVISAInfo" where
  "parse_multi flags [] AllExts info = Inr (AllExts, info)"
| "parse_multi flags (Ext # Split) AllExts info =
    (if Ext = [] then Inl NameMissing
     else
       let Type = getExtensionType Ext; Desc = getExtensionTypeDesc Ext;
           Pos = findLastNonVersionCharacter Ext + 1; Name = take Pos Ext; Vers = drop Pos Ext
       in if Type = [] then
            if IgnoreUnknown flags then parse_multi flags Split AllExts info else Inl (BadPrefix Ext)
          else if \<not> IgnoreUnknown flags \<and> length Name = length Type then Inl (PrefixOnly Desc Type)
          else
            let (E, Major, Minor, ConsumeLength) =
                  getExtensionVersion Name Vers (EnableExperimentalExtension flags)
                    (ExperimentalExtensionVersionCheck flags)
            in case E of
                Some e \<Rightarrow> if IgnoreUnknown flags then parse_multi flags Split AllExts info else Inl e
              | None \<Rightarrow>
                  if \<not> IgnoreUnknown flags \<and> Name \<in> set AllExts then Inl (Duplicated Desc Name)
                  else if IgnoreUnknown flags \<and> \<not> isSupportedExtension Name then parse_multi flags Split AllExts info
                  else parse_multi flags Split (AllExts @ [Name]) (addExtension info Name Major Minor))"

text \<open>The base: \<open>g\<close> stands for its implications, \<open>i\<close> and \<open>e\<close> may have a version.\<close>

fun add_defaults :: "string list \<Rightarrow> RISCVISAInfo \<Rightarrow> RISCVISAInfo option" where
  "add_defaults [] info = Some info"
| "add_defaults (Ext # es) info =
    (case addDefault info Ext of None \<Rightarrow> None | Some info' \<Rightarrow> add_defaults es info')"

definition parse_base ::
  "parse_flags \<Rightarrow> char \<Rightarrow> string \<Rightarrow> RISCVISAInfo \<Rightarrow> (RISCVISAInfo \<times> nat) outcome" where
  "parse_base flags Baseline Rest info =
    (if Baseline = CHR ''g'' then
       of_defined (add_defaults RISCVGImplications info) (\<lambda>info'. Success (info', 0))
     else
       let (E, Major, Minor, ConsumeLength) =
             getExtensionVersion [Baseline] Rest (EnableExperimentalExtension flags)
               (ExperimentalExtensionVersionCheck flags)
       in case E of
           Some e \<Rightarrow>
             if \<not> IgnoreUnknown flags then Failure e
             else of_defined (addDefault info [Baseline]) (\<lambda>info'. Success (info', ConsumeLength))
         | None \<Rightarrow> Success (addExtension info [Baseline] Major Minor, ConsumeLength))"

definition parseArchString :: "parse_flags \<Rightarrow> string \<Rightarrow> RISCVISAInfo outcome" where
  "parseArchString flags Arch =
    (if list_ex isupper Arch then Failure NotLowercase
     else
       let HasRV64 = starts_with Arch ''rv64''
       in if \<not> (starts_with Arch ''rv32'' \<or> HasRV64) \<or> length Arch < 5 then Failure BadBase
       else
         let Baseline = Arch ! 4
         in if Baseline \<notin> {CHR ''e'', CHR ''i'', CHR ''g''} then Failure BadFirstLetter
         else if Baseline = CHR ''g'' \<and> length Arch > 5 \<and> isDigit (Arch ! 5) then Failure VersionForG
         else if last Arch = CHR ''_'' then Failure NameMissing
         else
           let StdExts = (if Baseline = CHR ''g'' then drop 4 AllStdExts else AllStdExts);
               single = (\<lambda>c. c \<notin> set ''zsx'');
               Rest = takeWhile single (drop 5 Arch);
               OtherExts = dropWhile single (drop 5 Arch)
           in case parse_base flags Baseline Rest (new_info (if HasRV64 then 64 else 32)) of
               Undefined \<Rightarrow> Undefined
             | Failure e \<Rightarrow> Failure e
             | Success (info1, ConsumeLength) \<Rightarrow>
           (case parse_std flags StdExts StdExts (snd (consume_front (drop ConsumeLength Rest) ''_'')) info1 of
              Inl e \<Rightarrow> Failure e
            | Inr info2 \<Rightarrow>
           (case (if OtherExts \<noteq> [] then parse_multi flags (split_on (CHR ''_'') OtherExts) [] info2
                  else Inr ([], info2)) of
              Inl e \<Rightarrow> Failure e
            | Inr (AllExts, info3) \<Rightarrow>
           (case find (\<lambda>Ext. \<not> isSupportedExtension Ext) AllExts of
              Some Ext \<Rightarrow> Failure (UnsupportedExt (getExtensionTypeDesc (getExtensionType Ext)) Ext)
            | None \<Rightarrow> postProcessAndChecking info3))))"

section \<open>Printing\<close>

text \<open>Each entry is printed after the separator, which is empty the first time.\<close>

definition show_ext :: "ext_name \<times> version \<Rightarrow> string" where
  "show_ext Ext =
    ext_str (fst Ext) @ show_unsigned (fst (snd Ext)) @ ''p'' @ show_unsigned (snd (snd Ext))"

fun show_exts :: "string \<Rightarrow> (ext_name \<times> version) list \<Rightarrow> string" where
  "show_exts LS [] = []"
| "show_exts LS (Ext # es) = LS @ show_ext Ext @ show_exts ''_'' es"

definition toString :: "RISCVISAInfo \<Rightarrow> string" where
  "toString info = ''rv'' @ show_unsigned (XLen info) @ show_exts [] (Exts info)"

definition toFeatureVector :: "RISCVISAInfo \<Rightarrow> string list" where
  "toFeatureVector info =
    map (\<lambda>e. if isExperimentalExtension e \<noteq> None then ''+experimental-'' @ e else ''+'' @ e)
      (filter (\<lambda>e. e \<noteq> ''i'' \<and> isSupportedExtension e) (map (ext_str \<circ> fst) (Exts info)))"

definition toFeatures :: "RISCVISAInfo \<Rightarrow> string list \<Rightarrow> bool \<Rightarrow> string list" where
  "toFeatures info Features AddAllExtensions =
    Features
    @ map (\<lambda>e. if isExperimentalExtension e \<noteq> None then ''+experimental-'' @ e else ''+'' @ e)
        (filter (\<lambda>e. e \<noteq> ''i'') (map (ext_str \<circ> fst) (Exts info)))
    @ (if AddAllExtensions then
         map (\<lambda>e. ''-'' @ fst e) (filter (\<lambda>e. \<not> has_ext info (fst e)) SupportedExtensions)
         @ map (\<lambda>e. ''-experimental-'' @ fst e)
             (filter (\<lambda>e. \<not> has_ext info (fst e)) SupportedExperimentalExtensions)
       else [])"

text \<open>\<open>None\<close>: the unreachable end, for any other width.\<close>

definition computeDefaultABI :: "RISCVISAInfo \<Rightarrow> string option" where
  "computeDefaultABI info =
    (if XLen info = 32 then
       Some (if hasExtension info ''d'' then ''ilp32d'' else if hasExtension info ''e'' then ''ilp32e'' else ''ilp32'')
     else if XLen info = 64 then
       Some (if hasExtension info ''d'' then ''lp64d'' else if hasExtension info ''e'' then ''lp64e'' else ''lp64'')
     else None)"

end
