(* ===== verification/ISAInfoSound.thy ===== *)
theory ISAInfoSound
  imports ISAInfo
begin

text \<open>
  What the ISA description promises. The abstract view of a description is a map from names to
  versions; completing a description is closing that map under rules, whatever the order in which
  the work list and the passes apply them; parsing only ever yields closed, supported descriptions,
  and printing one and reading it back gives it again.
\<close>

declare not_None_eq [simp del]

section \<open>The map\<close>

definition ext_map :: "RISCVISAInfo \<Rightarrow> string \<Rightarrow> version option" where
  "ext_map info e = map_of (Exts info) (ExtName e)"

definition ordered :: "RISCVISAInfo \<Rightarrow> bool" where
  "ordered info \<longleftrightarrow> sorted_wrt (<) (map fst (Exts info))"

lemma map_of_above: "\<forall>x\<in>fst ` set m. k < x \<Longrightarrow> map_of m (k :: 'k::linorder) = None"
  by (auto simp: map_of_eq_None_iff)

lemma ext_put_map:
  "sorted_wrt (<) (map fst m) \<Longrightarrow>
   map_of (ext_put k v m) = (map_of m)(k \<mapsto> v) \<and> sorted_wrt (<) (map fst (ext_put k v m)) \<and>
   fst ` set (ext_put k v m) = insert k (fst ` set m)"
proof (induction k v m rule: ext_put.induct)
  case (2 k v k' v' m)
  consider "k' < k" | "k < k'" | "k = k'" by fastforce
  then show ?case
  proof cases
    case 1
    then show ?thesis using 2 by (auto simp: fun_eq_iff)
  next
    case 2
    then show ?thesis using "2.prems" by (auto simp: fun_eq_iff dest: less_trans)
  qed (use "2.prems" in \<open>auto simp: fun_eq_iff\<close>)
qed (auto simp: fun_eq_iff)

lemma ext_erase_map:
  "sorted_wrt (<) (map fst m) \<Longrightarrow>
   map_of (ext_erase k m) = (map_of m)(k := None) \<and> sorted_wrt (<) (map fst (ext_erase k m)) \<and>
   fst ` set (ext_erase k m) \<subseteq> fst ` set m"
proof (induction k m rule: ext_erase.induct)
  case (2 k k' v' m)
  consider "k' < k" | "k < k'" | "k = k'" by fastforce
  then show ?case
  proof cases
    case 1
    then have IH: "map_of (ext_erase k m) = (map_of m)(k := None)" "sorted_wrt (<) (map fst (ext_erase k m))"
      "fst ` set (ext_erase k m) \<subseteq> fst ` set m"
      using 2 by (simp_all only: list.map fst_conv sorted_wrt.simps simp_thms if_True)
    have "\<forall>x\<in>fst ` set (ext_erase k m). k' < x" using IH(3) "2.prems" by fastforce
    then show ?thesis using 1 IH by (auto simp: fun_eq_iff)
  next
    case 2
    then have "map_of m k = None" using "2.prems" by (intro map_of_above) auto
    then show ?thesis using "2.prems" 2 by (auto simp: fun_eq_iff)
  next
    case 3
    then have "map_of m k = None" using "2.prems" by (intro map_of_above) auto
    then show ?thesis using "2.prems" 3 by (auto simp: fun_eq_iff)
  qed
qed (auto simp: fun_eq_iff)

lemma ext_count_map: "sorted_wrt (<) (map fst m) \<Longrightarrow> ext_count k m \<longleftrightarrow> map_of m k \<noteq> None"
proof (induction k m rule: ext_count.induct)
  case (2 k k' v' m)
  consider "k' < k" | "k < k'" | "k = k'" by fastforce
  then show ?case
  proof cases
    case 2
    then have "map_of m k = None" using "2.prems" by (intro map_of_above) auto
    then show ?thesis using 2 by auto
  qed (use 2 in auto)
qed auto

text \<open>Two ordered lists with the same map are equal.\<close>

lemma ordered_map_eq:
  assumes "sorted_wrt (<) (map fst xs)" "sorted_wrt (<) (map fst ys)" "map_of xs = map_of (ys :: ('k::linorder \<times> 'v) list)"
  shows "xs = ys"
proof -
  have d: "distinct (map fst xs)" "distinct (map fst ys)" "sorted (map fst xs)" "sorted (map fst ys)"
    using assms(1,2) strict_sorted_iff by blast+
  then have "set xs = set ys" using assms(3) map_of_inject_set by blast
  then show ?thesis using d map_sorted_distinct_set_unique [of fst xs ys] by (metis distinct_map set_map inj_on_Un sup.idem)
qed

lemma has_ext_map: "ordered info \<Longrightarrow> has_ext info e \<longleftrightarrow> ext_map info e \<noteq> None"
  by (simp add: has_ext_def ext_map_def ordered_def ext_count_map)

lemma addExtension_map:
  assumes "ordered info"
  shows "ordered (addExtension info e a b)" "ext_map (addExtension info e a b) = (ext_map info)(e \<mapsto> (a, b))"
  using ext_put_map [of "Exts info" "ExtName e" "(a, b)"] assms
  by (auto simp: ordered_def ext_map_def addExtension_def fun_eq_iff)

lemma ordered_new [simp]: "ordered (new_info xlen)" "ext_map (new_info xlen) = Map.empty"
  by (auto simp: ordered_def new_info_def ext_map_def fun_eq_iff)

text \<open>The fields the completion of the map leaves alone.\<close>

definition same_lengths :: "RISCVISAInfo \<Rightarrow> RISCVISAInfo \<Rightarrow> bool" where
  "same_lengths info info' \<longleftrightarrow> info' = info\<lparr>Exts := Exts info'\<rparr>"

lemma same_lengths_refl [simp]: "same_lengths info info"
  by (simp add: same_lengths_def)

lemma same_lengths_trans: "same_lengths a b \<Longrightarrow> same_lengths b c \<Longrightarrow> same_lengths a c"
  by (auto simp: same_lengths_def) (metis RISCVISAInfo.update_convs(6) RISCVISAInfo.surjective)

lemma same_lengths_add [simp]: "same_lengths info (addExtension info e a b)"
  by (simp add: same_lengths_def addExtension_def)

section \<open>Closing a map under rules\<close>

type_synonym rules = "(string list \<times> string) set"

inductive derivable :: "rules \<Rightarrow> (string \<Rightarrow> version option) \<Rightarrow> string \<Rightarrow> bool" for R m where
  given: "m e \<noteq> None \<Longrightarrow> derivable R m e"
| rule: "(ps, e) \<in> R \<Longrightarrow> (\<And>p. p \<in> set ps \<Longrightarrow> derivable R m p) \<Longrightarrow> derivable R m e"

definition saturate :: "rules \<Rightarrow> (string \<Rightarrow> version option) \<Rightarrow> string \<Rightarrow> version option" where
  "saturate R m e =
    (if m e \<noteq> None then m e else if derivable R m e then findDefaultVersion e else None)"

text \<open>A map between \<open>m\<close> and its closure, with default versions for what was added.\<close>

definition partial_closure :: "rules \<Rightarrow> (string \<Rightarrow> version option) \<Rightarrow> (string \<Rightarrow> version option) \<Rightarrow> bool" where
  "partial_closure R m m' \<longleftrightarrow>
    (\<forall>e. (m e \<noteq> None \<longrightarrow> m' e = m e) \<and>
         (m e = None \<and> m' e \<noteq> None \<longrightarrow> m' e = findDefaultVersion e \<and> derivable R m e))"

definition closed_under :: "rules \<Rightarrow> (string \<Rightarrow> version option) \<Rightarrow> bool" where
  "closed_under R m \<longleftrightarrow> (\<forall>(ps, e) \<in> R. (\<forall>p\<in>set ps. m p \<noteq> None) \<longrightarrow> m e \<noteq> None)"

lemma partial_closure_refl: "partial_closure R m m"
  unfolding partial_closure_def by blast

lemma partial_closure_derivable: "partial_closure R m m' \<Longrightarrow> m' e \<noteq> None \<Longrightarrow> derivable R m e"
  by (metis partial_closure_def derivable.given)

lemma partial_closure_step:
  assumes "partial_closure R m m'" "(ps, e) \<in> R" "\<And>p. p \<in> set ps \<Longrightarrow> m' p \<noteq> None"
    "m' e = None" "findDefaultVersion e = Some v"
  shows "partial_closure R m (m'(e \<mapsto> v))"
proof -
  have "derivable R m e"
    using assms(2,3) partial_closure_derivable [OF assms(1)] by (auto intro: derivable.rule)
  then show ?thesis
    using assms(1,4,5) by (auto simp: partial_closure_def)
qed

lemma partial_closure_closed:
  assumes "partial_closure R m m'" "closed_under R m'"
  shows "m' = saturate R m"
proof
  fix e
  have "m' e \<noteq> None" if "derivable R m e"
    using that
  proof induction
    case (given e)
    then show ?case using assms(1) by (simp add: partial_closure_def)
  next
    case (rule ps e)
    then show ?case using assms(2) by (fastforce simp: closed_under_def)
  qed
  then have d: "m' e \<noteq> None \<longleftrightarrow> derivable R m e"
    using partial_closure_derivable [OF assms(1)] by blast
  show "m' e = saturate R m e"
  proof (cases "m e = None")
    case True
    then show ?thesis
      using assms(1) d unfolding saturate_def partial_closure_def
      by (cases "derivable R m e") (simp_all del: split_paired_Ex split_paired_All not_None_eq)
  next
    case False
    then show ?thesis using assms(1) by (simp add: saturate_def partial_closure_def)
  qed
qed

section \<open>Implications\<close>

definition implication_rules :: rules where
  "implication_rules = {([e], x) |e es x. (e, es) \<in> set ImpliedExts \<and> x \<in> set es}"

text \<open>Every name an implication mentions has a default version.\<close>

definition table_names :: "string list" where
  "table_names = map fst SupportedExtensions @ map fst SupportedExperimentalExtensions"

lemmas table_defs = table_names_def SupportedExtensions_def SupportedExperimentalExtensions_def

lemma map_of_name: "map_of xs e \<noteq> None \<longleftrightarrow> e \<in> set (map fst xs)"
  by (simp add: map_of_eq_None_iff)

lemma findDefaultVersion_iff: "findDefaultVersion e \<noteq> None \<longleftrightarrow> e \<in> set table_names"
  using map_of_name [of SupportedExtensions e] map_of_name [of SupportedExperimentalExtensions e]
  unfolding findDefaultVersion_def sup.find_entry_map_of exper.find_entry_map_of table_names_def
  by (cases "map_of SupportedExtensions e") auto

lemma isSupportedExtension_iff: "isSupportedExtension e \<longleftrightarrow> e \<in> set table_names"
  using map_of_name [of SupportedExtensions e] map_of_name [of SupportedExperimentalExtensions e]
  by (auto simp: isSupportedExtension_def sup.find_entry_map_of exper.find_entry_map_of table_names_def)

lemma implied_have_versions: "set (concat (map snd ImpliedExts)) \<subseteq> set table_names"
  by (simp add: ImpliedExts_def Implied_defs table_defs)

lemma find_implied:
  "find_entry ImpliedExts e = Some es \<longleftrightarrow> (e, es) \<in> set ImpliedExts"
  by (simp add: impl.find_entry_map_of impl.distinct_names)

lemma addDefault_map:
  assumes "ordered info" "findDefaultVersion e = Some v"
  shows "\<exists>info'. addDefault info e = Some info' \<and> ordered info' \<and> ext_map info' = (ext_map info)(e \<mapsto> v) \<and>
    same_lengths info info'"
  using addExtension_map [OF assms(1), of e "fst v" "snd v"] assms(2)
  by (cases v) (simp add: addDefault_def)

text \<open>The work list holds names of the map; the names not on it have been handled.\<close>

definition implied_by :: "string \<Rightarrow> string list" where
  "implied_by e = (case find_entry ImpliedExts e of None \<Rightarrow> [] | Some es \<Rightarrow> es)"

definition imply_inv :: "(string \<Rightarrow> version option) \<Rightarrow> string set \<Rightarrow> (string \<Rightarrow> version option) \<Rightarrow> bool" where
  "imply_inv m W m' \<longleftrightarrow>
    partial_closure implication_rules m m' \<and> (\<forall>e\<in>W. m' e \<noteq> None) \<and>
    (\<forall>e. m' e \<noteq> None \<and> e \<notin> W \<longrightarrow> (\<forall>x\<in>set (implied_by e). m' x \<noteq> None))"

lemma set_set_insert [simp]: "set (set_insert WL e) = insert e (set WL)"
  by (auto simp: set_insert_def)

lemma imply_exts_ok:
  assumes "ordered info" "\<And>x. x \<in> set es \<Longrightarrow> findDefaultVersion x \<noteq> None"
    "\<And>x. x \<in> set es \<Longrightarrow> ([e], x) \<in> implication_rules" "ext_map info e \<noteq> None"
    "imply_inv m (insert e (set WL)) (ext_map info)" 
  shows "\<exists>WL' info'. imply_exts es WL info = Some (WL', info') \<and> ordered info' \<and> same_lengths info info' \<and>
    imply_inv m (insert e (set WL')) (ext_map info') \<and> (\<forall>x\<in>set es. ext_map info' x \<noteq> None) \<and>
    (\<forall>x. ext_map info x \<noteq> None \<longrightarrow> ext_map info' x \<noteq> None)"
  using assms
proof (induction es WL info rule: imply_exts.induct)
  case (2 x es WL info)
  note prems = "2.prems"
  show ?case
  proof (cases "ext_map info x = None")
    case False
    have "x \<in> set WL \<or> has_ext info x" using has_ext_map [OF prems(1)] False by blast
    then have e: "imply_exts (x # es) WL info = imply_exts es WL info" by auto
    have p: "\<And>y. y \<in> set es \<Longrightarrow> findDefaultVersion y \<noteq> None" "\<And>y. y \<in> set es \<Longrightarrow> ([e], y) \<in> implication_rules"
      using prems(2,3) by auto
    have "\<exists>WL' info'. imply_exts es WL info = Some (WL', info') \<and> ordered info' \<and> same_lengths info info' \<and>
      imply_inv m (insert e (set WL')) (ext_map info') \<and> (\<forall>y\<in>set es. ext_map info' y \<noteq> None) \<and>
      (\<forall>y. ext_map info y \<noteq> None \<longrightarrow> ext_map info' y \<noteq> None)"
    proof (cases "x \<in> set WL")
      case T: True
      show ?thesis by (rule "2.IH"(1) [OF T prems(1) p prems(4,5)])
    next
      case F: False
      have h: "has_ext info x" using F \<open>x \<in> set WL \<or> has_ext info x\<close> by blast
      show ?thesis by (rule "2.IH"(2) [OF F h prems(1) p prems(4,5)])
    qed
    then obtain WL' info' where r: "imply_exts es WL info = Some (WL', info')" "ordered info'" "same_lengths info info'"
      "imply_inv m (insert e (set WL')) (ext_map info')" "\<forall>y\<in>set es. ext_map info' y \<noteq> None"
      "\<forall>y. ext_map info y \<noteq> None \<longrightarrow> ext_map info' y \<noteq> None"
      by (elim exE conjE)
    have "\<forall>y\<in>set (x # es). ext_map info' y \<noteq> None" using r(5,6) False by simp
    then show ?thesis unfolding e using r(1-4,6) by blast
  next
    case True
    have x: "x \<notin> set WL" "\<not> has_ext info x"
      using True prems(5) has_ext_map [OF prems(1)] by (auto simp: imply_inv_def)
    obtain v where v: "findDefaultVersion x = Some v" using prems(2) [of x] by auto
    obtain info1 where i: "addDefault info x = Some info1" "ordered info1"
      "ext_map info1 = (ext_map info)(x \<mapsto> v)" "same_lengths info info1"
      using addDefault_map [OF prems(1) v] by blast
    have e: "imply_exts (x # es) WL info = imply_exts es (set_insert WL x) info1"
      using x i(1) by simp
    have pc: "partial_closure implication_rules m (ext_map info1)"
      unfolding i(3) using prems(3) [of x] prems(4,5) True v
      by (intro partial_closure_step [of _ _ _ "[e]"]) (simp_all add: imply_inv_def)
    have inv: "imply_inv m (insert e (set (set_insert WL x))) (ext_map info1)"
      using prems(5) pc by (auto simp: imply_inv_def i(3))
    have e1: "ext_map info1 e \<noteq> None" using prems(4) i(3) by simp
    have p: "\<And>y. y \<in> set es \<Longrightarrow> findDefaultVersion y \<noteq> None" "\<And>y. y \<in> set es \<Longrightarrow> ([e], y) \<in> implication_rules"
      using prems(2,3) by auto
    have "\<exists>WL' info'. imply_exts es (set_insert WL x) info1 = Some (WL', info') \<and> ordered info' \<and>
      same_lengths info1 info' \<and> imply_inv m (insert e (set WL')) (ext_map info') \<and>
      (\<forall>y\<in>set es. ext_map info' y \<noteq> None) \<and> (\<forall>y. ext_map info1 y \<noteq> None \<longrightarrow> ext_map info' y \<noteq> None)"
      by (rule "2.IH"(3) [OF x i(1) i(2) p e1 inv])
    then obtain WL' info' where r: "imply_exts es (set_insert WL x) info1 = Some (WL', info')" "ordered info'"
      "same_lengths info1 info'" "imply_inv m (insert e (set WL')) (ext_map info')"
      "\<forall>y\<in>set es. ext_map info' y \<noteq> None" "\<forall>y. ext_map info1 y \<noteq> None \<longrightarrow> ext_map info' y \<noteq> None"
      by (elim exE conjE)
    have "\<forall>y. ext_map info y \<noteq> None \<longrightarrow> ext_map info' y \<noteq> None" "\<forall>y\<in>set (x # es). ext_map info' y \<noteq> None"
      using r(5,6) i(3) by auto
    then show ?thesis
      unfolding e using r(1,2,4) same_lengths_trans [OF i(4) r(3)] by blast
  qed
next
  case (1 WL info)
  then show ?case by simp
qed

lemma implied_by_rules:
  assumes "find_entry ImpliedExts e = Some es" "x \<in> set es"
  shows "findDefaultVersion x \<noteq> None" "([e], x) \<in> implication_rules"
proof -
  have m: "(e, es) \<in> set ImpliedExts" using assms(1) find_implied by blast
  then have "x \<in> set (concat (map snd ImpliedExts))" using assms(2) by force
  then show "findDefaultVersion x \<noteq> None" using implied_have_versions findDefaultVersion_iff by blast
  show "([e], x) \<in> implication_rules" using m assms(2) by (auto simp: implication_rules_def)
qed

lemma imply_loop_ok:
  assumes "ordered info" "imply_inv m (set WL) (ext_map info)"
  shows "\<exists>info'. imply_loop WL info = Some info' \<and> ordered info' \<and> same_lengths info info' \<and>
    imply_inv m {} (ext_map info')"
  using assms
proof (induction WL info rule: imply_loop.induct)
  case (1 WL info)
  let ?e = "last WL" and ?WL = "butlast WL"
  show ?case
  proof (cases "WL = []")
    case True
    then show ?thesis using "1.prems" by (simp add: imply_loop.simps)
  next
    case False
    have W: "set WL = insert ?e (set ?WL)" using False append_butlast_last_id [OF False] by (metis rotate1.simps(2) set_rotate1 list.simps(15))
    have he: "ext_map info ?e \<noteq> None" using "1.prems"(2) W by (auto simp: imply_inv_def)
    show ?thesis
    proof (cases "find_entry ImpliedExts ?e")
      case None
      then have "implied_by ?e = []" by (simp add: implied_by_def)
      then have "imply_inv m (set ?WL) (ext_map info)"
        using "1.prems"(2) unfolding imply_inv_def W by fastforce
      then show ?thesis
        using "1.IH"(1) [OF False None "1.prems"(1)] None False by (subst imply_loop.simps) simp
    next
      case (Some es)
      have inv: "imply_inv m (insert ?e (set ?WL)) (ext_map info)" using "1.prems"(2) W by simp
      obtain WL' info' where r: "imply_exts es ?WL info = Some (WL', info')" "ordered info'" "same_lengths info info'"
        "imply_inv m (insert ?e (set WL')) (ext_map info')" "\<forall>x\<in>set es. ext_map info' x \<noteq> None"
        using imply_exts_ok [OF "1.prems"(1) _ _ he inv, of es] implied_by_rules [OF Some] by blast
      have "implied_by ?e = es" using Some by (simp add: implied_by_def)
      then have "imply_inv m (set WL') (ext_map info')"
        using r(4,5) unfolding imply_inv_def by fastforce
      then obtain info2 where s: "imply_loop WL' info' = Some info2" "ordered info2" "same_lengths info' info2"
        "imply_inv m {} (ext_map info2)"
        using "1.IH"(2) [OF False Some r(1) refl r(2)] by blast
      have "imply_loop WL info = imply_loop WL' info'"
        using False Some r(1) by (subst imply_loop.simps) simp
      then show ?thesis using s same_lengths_trans [OF r(3) s(3)] by auto
    qed
  qed
qed

definition add_base :: "(string \<Rightarrow> version option) \<Rightarrow> string \<Rightarrow> version option" where
  "add_base m = (if m ''e'' = None \<and> m ''i'' = None then m(''i'' := findDefaultVersion ''i'') else m)"

definition add_zcf :: "u32 \<Rightarrow> (string \<Rightarrow> version option) \<Rightarrow> string \<Rightarrow> version option" where
  "add_zcf xlen m =
    (if xlen = 32 \<and> m ''zce'' \<noteq> None \<and> m ''f'' \<noteq> None \<and> m ''zcf'' = None
     then m(''zcf'' := findDefaultVersion ''zcf'') else m)"

lemma default_i: "findDefaultVersion ''i'' = Some (2, 1)"
  by code_simp

lemma default_zcf: "findDefaultVersion ''zcf'' = Some (1, 0)"
  by code_simp

lemma imply_inv_closed:
  assumes "imply_inv m {} m'"
  shows "m' = saturate implication_rules m" "closed_under implication_rules m'"
proof -
  show c: "closed_under implication_rules m'"
    unfolding closed_under_def
  proof (intro ballI, simp only: split_paired_all prod.case, intro impI)
    fix ps x
    assume r: "(ps, x) \<in> implication_rules" and p: "\<forall>p\<in>set ps. m' p \<noteq> None"
    then obtain e es where e: "ps = [e]" "(e, es) \<in> set ImpliedExts" "x \<in> set es"
      using r by (auto simp: implication_rules_def)
    then have "x \<in> set (implied_by e)" using find_implied [THEN iffD2, OF e(2)] by (simp add: implied_by_def)
    then show "m' x \<noteq> None" using assms p e(1) by (auto simp: imply_inv_def)
  qed
  show "m' = saturate implication_rules m"
    using assms c by (intro partial_closure_closed) (simp_all add: imply_inv_def)
qed

lemma set_foldl_insert: "set (foldl set_insert WL xs) = set WL \<union> set xs"
  by (induction xs arbitrary: WL) auto

lemma ext_map_names: "ext_map info e \<noteq> None \<longleftrightarrow> e \<in> set (map (ext_str \<circ> fst) (Exts info))"
proof -
  have "ext_map info e \<noteq> None \<longleftrightarrow> ExtName e \<in> fst ` set (Exts info)"
    by (simp add: ext_map_def map_of_eq_None_iff)
  also have "\<dots> \<longleftrightarrow> e \<in> ext_str ` fst ` set (Exts info)"
  proof
    assume "ExtName e \<in> fst ` set (Exts info)"
    then show "e \<in> ext_str ` fst ` set (Exts info)" by (rule rev_image_eqI) simp
  next
    assume "e \<in> ext_str ` fst ` set (Exts info)"
    then show "ExtName e \<in> fst ` set (Exts info)" by (auto intro: rev_image_eqI)
  qed
  finally show ?thesis by (simp add: image_comp)
qed

lemma updateImplication_spec:
  assumes "ordered info"
  shows "\<exists>info'. updateImplication info = Some info' \<and> ordered info' \<and> same_lengths info info' \<and>
    ext_map info' = add_zcf (XLen info) (saturate implication_rules (add_base (ext_map info))) \<and>
    closed_under implication_rules (saturate implication_rules (add_base (ext_map info)))"
proof -
  obtain info1 where 1: "(if \<not> has_ext info ''e'' \<and> \<not> has_ext info ''i'' then addDefault info ''i'' else Some info) = Some info1"
    "ordered info1" "ext_map info1 = add_base (ext_map info)" "same_lengths info info1"
    using addDefault_map [OF assms default_i] assms
    by (cases "ext_map info ''e'' = None \<and> ext_map info ''i'' = None")
      (auto simp: add_base_def has_ext_map default_i)
  let ?WL = "foldl set_insert [] (map (ext_str \<circ> fst) (Exts info1))"
  have "imply_inv (ext_map info1) (set ?WL) (ext_map info1)"
    using ext_map_names [of info1] partial_closure_refl by (auto simp: imply_inv_def set_foldl_insert)
  then obtain info2 where 2: "imply_loop ?WL info1 = Some info2" "ordered info2" "same_lengths info1 info2"
    "imply_inv (ext_map info1) {} (ext_map info2)"
    using imply_loop_ok [OF 1(2)] by blast
  note sat = imply_inv_closed [OF 2(4)]
  have len: "same_lengths info info2" using 1(4) 2(3) same_lengths_trans by blast
  have xlen: "XLen info2 = XLen info" using len by (metis same_lengths_def RISCVISAInfo.select_convs(1) RISCVISAInfo.surjective RISCVISAInfo.update_convs(6))
  have u: "updateImplication info =
    (if XLen info2 = 32 \<and> has_ext info2 ''zce'' \<and> has_ext info2 ''f'' \<and> \<not> has_ext info2 ''zcf''
     then addDefault info2 ''zcf'' else Some info2)"
    unfolding updateImplication_def Let_def 1(1) by (simp add: 2(1))
  show ?thesis
  proof (cases "XLen info2 = 32 \<and> has_ext info2 ''zce'' \<and> has_ext info2 ''f'' \<and> \<not> has_ext info2 ''zcf''")
    case True
    obtain info3 where 3: "addDefault info2 ''zcf'' = Some info3" "ordered info3"
      "ext_map info3 = (ext_map info2)(''zcf'' \<mapsto> (1, 0))" "same_lengths info2 info3"
      using addDefault_map [OF 2(2) default_zcf] by blast
    then show ?thesis
      using u True sat 1(3) xlen same_lengths_trans [OF len 3(4)]
      by (simp add: add_zcf_def default_zcf has_ext_map [OF 2(2)])
  next
    case False
    then show ?thesis
      using u sat 1(3) xlen len 2(2) by (auto simp: add_zcf_def has_ext_map [OF 2(2)])
  qed
qed

section \<open>Combinations\<close>

definition combination_rules :: rules where
  "combination_rules = {(req, c) |c req. (c, req) \<in> set CombineIntoExts}"

lemma combined_names:
  "set (concat (map (\<lambda>(c, req). c # req) CombineIntoExts)) \<subseteq> set table_names"
  by (simp add: CombineIntoExts_def Implied_defs table_defs)

lemma hasExtension_iff: "e \<in> set table_names \<Longrightarrow> hasExtension info e \<longleftrightarrow> has_ext info e"
  using supported_not_experimental_prefix isSupportedExtension_iff [of e]
  by (simp add: hasExtension_def stripExperimentalPrefix_def consume_front_def table_names_def list_all_iff)

lemma combined_name: "(c, req) \<in> set CombineIntoExts \<Longrightarrow> x \<in> set (c # req) \<Longrightarrow> x \<in> set table_names"
  using combined_names by force

lemma combine_pass_ok:
  assumes "ordered info" "partial_closure combination_rules m (ext_map info)" "set es \<subseteq> set CombineIntoExts"
  shows "\<exists>new' info'. combine_pass es new info = Some (new', info') \<and> ordered info' \<and> same_lengths info info' \<and>
    partial_closure combination_rules m (ext_map info') \<and> (new \<longrightarrow> new') \<and>
    (\<not> new' \<longrightarrow> info' = info \<and>
      (\<forall>(c, req) \<in> set es. (\<forall>r\<in>set req. ext_map info r \<noteq> None) \<longrightarrow> ext_map info c \<noteq> None))"
  using assms
proof (induction es new info rule: combine_pass.induct)
  case (2 c req rest new info)
  have cr: "(c, req) \<in> set CombineIntoExts" "set rest \<subseteq> set CombineIntoExts" using "2.prems"(3) by auto
  have has: "hasExtension info x \<longleftrightarrow> ext_map info x \<noteq> None" if "x \<in> set (c # req)" for x
    using hasExtension_iff combined_name [OF cr(1) that] has_ext_map [OF "2.prems"(1)] by blast
  have hc: "hasExtension info c \<longleftrightarrow> ext_map info c \<noteq> None" using has by simp
  have hr: "list_all (hasExtension info) req \<longleftrightarrow> (\<forall>r\<in>set req. ext_map info r \<noteq> None)"
    using has by (simp add: list_all_iff)
  show ?case
  proof (cases "hasExtension info c \<or> \<not> list_all (hasExtension info) req")
    case True
    then have e: "combine_pass ((c, req) # rest) new info = combine_pass rest new info" by auto
    have "\<exists>new' info'. combine_pass rest new info = Some (new', info') \<and> ordered info' \<and> same_lengths info info' \<and>
      partial_closure combination_rules m (ext_map info') \<and> (new \<longrightarrow> new') \<and>
      (\<not> new' \<longrightarrow> info' = info \<and>
        (\<forall>(c, req) \<in> set rest. (\<forall>r\<in>set req. ext_map info r \<noteq> None) \<longrightarrow> ext_map info c \<noteq> None))"
    proof (cases "hasExtension info c")
      case T: True
      show ?thesis by (rule "2.IH"(1) [OF T "2.prems"(1,2) cr(2)])
    next
      case F: False
      then have "\<not> list_all (hasExtension info) req" using True by blast
      then show ?thesis by (rule "2.IH"(3) [OF F _ "2.prems"(1,2) cr(2)])
    qed
    then show ?thesis unfolding e using True hc hr by (elim exE conjE) (intro exI conjI, auto)
  next
    case False
    then have c: "ext_map info c = None" "\<forall>r\<in>set req. ext_map info r \<noteq> None" "\<not> hasExtension info c"
      "list_all (hasExtension info) req"
      using hc hr by blast+
    obtain v where v: "findDefaultVersion c = Some v"
      using findDefaultVersion_iff [of c] combined_name [OF cr(1), of c] by auto
    obtain info1 where i: "addDefault info c = Some info1" "ordered info1"
      "ext_map info1 = (ext_map info)(c \<mapsto> v)" "same_lengths info info1"
      using addDefault_map [OF "2.prems"(1) v] by blast
    have pc: "partial_closure combination_rules m (ext_map info1)"
      unfolding i(3) using "2.prems"(2) c(1,2) v cr(1)
      by (intro partial_closure_step [of _ _ _ req]) (auto simp: combination_rules_def)
    obtain new' info' where r: "combine_pass rest True info1 = Some (new', info')" "ordered info'"
      "same_lengths info1 info'" "partial_closure combination_rules m (ext_map info')" "new'"
      using "2.IH"(2) [OF c(3,4) i(1) i(2) pc cr(2)] by auto
    then show ?thesis
      using c(3,4) i(1) same_lengths_trans [OF i(4) r(3)] by auto
  qed
qed simp

lemma combine_loop_ok:
  assumes "ordered info" "partial_closure combination_rules m (ext_map info)"
  shows "\<exists>info'. combine_loop info = Some info' \<and> ordered info' \<and> same_lengths info info' \<and>
    ext_map info' = saturate combination_rules m \<and> closed_under combination_rules (ext_map info')"
  using assms
proof (induction info rule: combine_loop.induct)
  case (1 info)
  obtain new info' where r: "combine_pass CombineIntoExts False info = Some (new, info')" "ordered info'"
    "same_lengths info info'" "partial_closure combination_rules m (ext_map info')"
    "\<not> new \<longrightarrow> info' = info \<and>
      (\<forall>(c, req) \<in> set CombineIntoExts. (\<forall>r\<in>set req. ext_map info r \<noteq> None) \<longrightarrow> ext_map info c \<noteq> None)"
    using combine_pass_ok [OF "1.prems" order_refl, of False] by blast
  show ?case
  proof (cases new)
    case True
    then obtain info2 where "combine_loop info' = Some info2" "ordered info2" "same_lengths info' info2"
      "ext_map info2 = saturate combination_rules m" "closed_under combination_rules (ext_map info2)"
      using "1.IH" [OF r(1) refl _ r(2,4)] by blast
    then show ?thesis
      using True r(1) same_lengths_trans [OF r(3)] by (subst combine_loop.simps) auto
  next
    case False
    have c: "closed_under combination_rules (ext_map info)"
      using r(5) False by (fastforce simp: closed_under_def combination_rules_def)
    then have "ext_map info = saturate combination_rules m"
      using "1.prems"(2) partial_closure_closed by blast
    then show ?thesis
      using r False c by (subst combine_loop.simps) auto
  qed
qed

lemma updateCombination_spec:
  assumes "ordered info"
  shows "\<exists>info'. updateCombination info = Some info' \<and> ordered info' \<and> same_lengths info info' \<and>
    ext_map info' = saturate combination_rules (ext_map info) \<and>
    closed_under combination_rules (ext_map info')"
  using combine_loop_ok [OF assms partial_closure_refl] by (simp add: updateCombination_def)

section \<open>Supported descriptions\<close>

text \<open>Facts of the tables.\<close>

lemma distinct_table_names: "distinct table_names"
  by (simp add: table_defs)

definition exp_names :: "string list" where
  "exp_names = map fst SupportedExperimentalExtensions"

lemma isExperimental_iff: "isExperimentalExtension e \<noteq> None \<longleftrightarrow> e \<in> set exp_names"
  unfolding isExperimentalExtension_map exp_names_def by (rule map_of_name)

lemma implied_stable:
  "list_all (\<lambda>(e, es). e \<in> set table_names \<and> (e \<in> set exp_names \<or> list_all (\<lambda>x. x \<notin> set exp_names) es)) ImpliedExts"
  by (simp add: ImpliedExts_def Implied_defs exp_names_def table_defs)

lemma combined_stable:
  "list_all (\<lambda>(c, req). (c, req) \<in> set ImpliedExts \<and> (c \<in> set exp_names \<longrightarrow> list_ex (\<lambda>r. r \<in> set exp_names) req)) CombineIntoExts"
  by (simp add: CombineIntoExts_def ImpliedExts_def Implied_defs exp_names_def table_defs)

lemma zve_lengths:
  "list_all (\<lambda>e. \<not> starts_with e ''zve'' \<or>
     drop 3 e \<noteq> [] \<and> getAsInteger (butlast (drop 3 e)) 10 \<noteq> None) table_names"
  by code_simp

text \<open>An entry the flags allow: a known name, an experimental one only if enabled, at the version of
  the tables unless the version of an experimental extension is left unchecked.\<close>

definition entry_ok :: "parse_flags \<Rightarrow> string \<Rightarrow> version \<Rightarrow> bool" where
  "entry_ok flags e v \<longleftrightarrow>
    isSupportedExtension e \<and>
    (isExperimentalExtension e \<noteq> None \<longrightarrow> EnableExperimentalExtension flags) \<and>
    (isExperimentalExtension e = None \<or> ExperimentalExtensionVersionCheck flags \<longrightarrow> findDefaultVersion e = Some v)"

definition map_ok :: "parse_flags \<Rightarrow> (string \<Rightarrow> version option) \<Rightarrow> bool" where
  "map_ok flags m \<longleftrightarrow> (\<forall>e v. m e = Some v \<longrightarrow> entry_ok flags e v)"

lemma experimental_default: "isExperimentalExtension e = Some v \<Longrightarrow> findDefaultVersion e = Some v"
proof -
  assume "isExperimentalExtension e = Some v"
  then have x: "map_of SupportedExperimentalExtensions e = Some v" by (simp add: isExperimentalExtension_map)
  then have "e \<in> set (map fst SupportedExperimentalExtensions)" using map_of_name by fastforce
  then have "map_of SupportedExtensions e = None"
    using distinct_table_names map_of_name [of SupportedExtensions e] by (auto simp: table_names_def)
  then show ?thesis using x by (simp add: findDefaultVersion_map)
qed

lemma equal_range_version:
  assumes "isSupportedExtensionVersion e a b"
  shows "findDefaultVersion e = Some (a, b)"
proof -
  have "(e, (a, b)) \<in> set SupportedExtensions \<or> (e, (a, b)) \<in> set SupportedExperimentalExtensions"
    using assms by (auto simp: isSupportedExtensionVersion_def list_ex_iff sup.set_equal_range exper.set_equal_range)
  then show ?thesis
  proof
    assume "(e, (a, b)) \<in> set SupportedExtensions"
    then have "map_of SupportedExtensions e = Some (a, b)" using sup.distinct_names by simp
    then show ?thesis by (simp add: findDefaultVersion_map)
  next
    assume "(e, (a, b)) \<in> set SupportedExperimentalExtensions"
    then have "isExperimentalExtension e = Some (a, b)"
      using exper.distinct_names by (simp add: isExperimentalExtension_map)
    then show ?thesis by (rule experimental_default)
  qed
qed

lemma getExtensionVersion_entry:
  assumes "getExtensionVersion Ext In (EnableExperimentalExtension flags) (ExperimentalExtensionVersionCheck flags) =
    (None, a, b, n)" "isSupportedExtension Ext"
  shows "entry_ok flags Ext (a, b)"
proof -
  have "Ext \<noteq> ''g''" using assms(2) isSupportedExtension_iff by (auto simp: table_defs)
  then show ?thesis
    using assms equal_range_version [of Ext a b] experimental_default [of Ext]
      findDefaultVersion_iff [of Ext] isSupportedExtension_iff [of Ext]
    unfolding getExtensionVersion_def entry_ok_def Let_def
    by (auto split: if_splits option.splits prod.splits)
qed

text \<open>Completing a map keeps its entries allowed.\<close>

lemma default_entry_ok:
  assumes "findDefaultVersion e = Some v" "e \<in> set exp_names \<longrightarrow> EnableExperimentalExtension flags"
  shows "entry_ok flags e v"
  using assms findDefaultVersion_iff [of e] isSupportedExtension_iff [of e] isExperimental_iff [of e]
  by (auto simp: entry_ok_def)

text \<open>Rules that do not lead from stable extensions to experimental ones.\<close>

definition stable_rules :: "rules \<Rightarrow> bool" where
  "stable_rules R \<longleftrightarrow> (\<forall>(ps, e) \<in> R. e \<in> set exp_names \<longrightarrow> (\<exists>p\<in>set ps. p \<in> set exp_names))"

lemma stable_implication: "stable_rules implication_rules"
proof -
  have "e \<in> set exp_names" if "(e, es) \<in> set ImpliedExts" "x \<in> set es" "x \<in> set exp_names" for e es x
    using implied_stable that by (auto simp: list_all_iff)
  then show ?thesis by (auto simp: stable_rules_def implication_rules_def)
qed

lemma stable_combination: "stable_rules combination_rules"
proof -
  have "\<exists>r\<in>set req. r \<in> set exp_names" if "(c, req) \<in> set CombineIntoExts" "c \<in> set exp_names" for c req
    using combined_stable that by (auto simp: list_all_iff list_ex_iff)
  then show ?thesis by (auto simp: stable_rules_def combination_rules_def)
qed

lemma saturate_ok:
  assumes "map_ok flags m" "stable_rules R"
  shows "map_ok flags (saturate R m)"
proof -
  have exp: "e \<in> set exp_names \<longrightarrow> EnableExperimentalExtension flags" if "derivable R m e" for e
    using that
  proof induction
    case (given e)
    then show ?case using assms(1) isExperimental_iff [of e] by (auto simp: map_ok_def entry_ok_def)
  next
    case (rule ps e)
    then show ?case using assms(2) by (fastforce simp: stable_rules_def)
  qed
  show ?thesis
    unfolding map_ok_def
  proof (intro allI impI)
    fix e v
    assume v: "saturate R m e = Some v"
    show "entry_ok flags e v"
    proof (cases "m e = None")
      case True
      then have "derivable R m e" "findDefaultVersion e = Some v"
        using v by (auto simp: saturate_def split: if_splits)
      then show ?thesis using default_entry_ok exp by blast
    next
      case False
      then have "m e = Some v" using v by (simp add: saturate_def)
      then show ?thesis using assms(1) by (simp add: map_ok_def del: split_paired_All)
    qed
  qed
qed

lemma add_base_ok: "map_ok flags m \<Longrightarrow> map_ok flags (add_base m)"
  using default_entry_ok [OF default_i, of flags]
  by (auto simp: map_ok_def add_base_def default_i exp_names_def SupportedExperimentalExtensions_def)

lemma add_zcf_ok: "map_ok flags m \<Longrightarrow> map_ok flags (add_zcf xlen m)"
  using default_entry_ok [OF default_zcf, of flags]
  by (auto simp: map_ok_def add_zcf_def default_zcf exp_names_def SupportedExperimentalExtensions_def)

text \<open>The extension \<open>zcf\<close> adds nothing \<open>zce\<close> does not bring.\<close>

lemma implied_zc: "(''zce'', [''zcb'', ''zcmp'', ''zcmt'']) \<in> set ImpliedExts" "(''zcb'', [''zca'']) \<in> set ImpliedExts"
  "(''zcf'', [''zca'']) \<in> set ImpliedExts"
  by (simp_all add: ImpliedExts_def Implied_defs)

lemma closed_implication_iff:
  "closed_under implication_rules m \<longleftrightarrow>
    (\<forall>e es x. (e, es) \<in> set ImpliedExts \<longrightarrow> m e \<noteq> None \<longrightarrow> x \<in> set es \<longrightarrow> m x \<noteq> None)"
  by (fastforce simp: closed_under_def implication_rules_def)

lemma add_zcf_closed:
  assumes "closed_under implication_rules m"
  shows "closed_under implication_rules (add_zcf xlen m)"
proof (cases "m ''zce'' = None")
  case True
  then show ?thesis using assms by (simp add: add_zcf_def)
next
  case False
  note c = assms [unfolded closed_implication_iff, rule_format]
  have "m ''zcb'' \<noteq> None" using c [OF implied_zc(1) False] by simp
  then have zca: "m ''zca'' \<noteq> None" using c [OF implied_zc(2)] by simp
  have zcf: "x = ''zca''" if "(''zcf'', es) \<in> set ImpliedExts" "x \<in> set es" for es x
    using that implied_zc(3) impl.distinct_names eq_key_imp_eq_value by fastforce
  show ?thesis
    unfolding closed_implication_iff add_zcf_def
  proof (intro allI impI)
    fix e es x
    assume e: "(e, es) \<in> set ImpliedExts" "x \<in> set es"
      "(if xlen = 32 \<and> m ''zce'' \<noteq> None \<and> m ''f'' \<noteq> None \<and> m ''zcf'' = None
        then m(''zcf'' := findDefaultVersion ''zcf'') else m) e \<noteq> None"
    have "m x \<noteq> None"
    proof (cases "e = ''zcf'' \<and> m ''zcf'' = None")
      case True
      then show ?thesis using zcf e zca by blast
    next
      case F: False
      then have "m e \<noteq> None" using e(3) by (auto split: if_splits)
      then show ?thesis using c [OF e(1) _ e(2)] by blast
    qed
    then show "(if xlen = 32 \<and> m ''zce'' \<noteq> None \<and> m ''f'' \<noteq> None \<and> m ''zcf'' = None
      then m(''zcf'' := findDefaultVersion ''zcf'') else m) x \<noteq> None"
      by (auto simp: default_zcf)
  qed
qed

text \<open>A combination implies exactly what it was made of.\<close>

lemma combination_keeps_implications:
  assumes "closed_under implication_rules m" "closed_under combination_rules (saturate combination_rules m)"
    "map_ok flags (saturate combination_rules m)"
  shows "closed_under implication_rules (saturate combination_rules m)"
  unfolding closed_implication_iff
proof (intro allI impI)
  let ?s = "saturate combination_rules m"
  fix e es x
  assume e: "(e, es) \<in> set ImpliedExts" "?s e \<noteq> None" "x \<in> set es"
  have found: "?s y \<noteq> None" if "derivable combination_rules m y" for y
    using that
  proof induction
    case (given y)
    then show ?case by (simp add: saturate_def)
  next
    case (rule ps y)
    then show ?case using assms(2) by (fastforce simp: closed_under_def)
  qed
  show "?s x \<noteq> None"
  proof (cases "m e = None")
    case True
    then have "derivable combination_rules m e" using e(2) by (auto simp: saturate_def split: if_splits)
    then obtain req where r: "(e, req) \<in> set CombineIntoExts" "\<forall>r\<in>set req. derivable combination_rules m r"
      using True by (cases rule: derivable.cases) (auto simp: combination_rules_def)
    have "(e, req) \<in> set ImpliedExts" using combined_stable r(1) by (auto simp: list_all_iff)
    then have "es = req" using e(1) impl.distinct_names eq_key_imp_eq_value by fastforce
    then show ?thesis using found r(2) e(3) by blast
  next
    case False
    then have "m x \<noteq> None" using assms(1) e(1,3) closed_implication_iff by blast
    then show ?thesis by (simp add: saturate_def)
  qed
qed

section \<open>Parsing\<close>

text \<open>While parsing: the lengths are not set yet, and a name that is not known is on the list that
  is checked at the end.\<close>

definition fresh :: "RISCVISAInfo \<Rightarrow> bool" where
  "fresh info \<longleftrightarrow> info = (new_info (XLen info))\<lparr>Exts := Exts info\<rparr>"

definition parse_inv :: "parse_flags \<Rightarrow> u32 \<Rightarrow> string set \<Rightarrow> RISCVISAInfo \<Rightarrow> bool" where
  "parse_inv flags xlen A info \<longleftrightarrow>
    ordered info \<and> fresh info \<and> XLen info = xlen \<and>
    (\<forall>e v. ext_map info e = Some v \<longrightarrow> (if isSupportedExtension e then entry_ok flags e v else e \<in> A))"

lemma parse_inv_add:
  assumes "parse_inv flags xlen A info" "if isSupportedExtension e then entry_ok flags e (a, b) else e \<in> A"
  shows "parse_inv flags xlen A (addExtension info e a b)"
proof -
  have "fresh (addExtension info e a b)" "XLen (addExtension info e a b) = xlen"
    using assms(1) by (cases info; auto simp: parse_inv_def fresh_def addExtension_def new_info_def)+
  then show ?thesis
    using assms addExtension_map [of info e a b] unfolding parse_inv_def by (simp add: map_upd_Some_unfold)
qed

lemma parse_inv_mono: "parse_inv flags xlen A info \<Longrightarrow> A \<subseteq> B \<Longrightarrow> parse_inv flags xlen B info"
  unfolding parse_inv_def by (meson subsetD)

lemma parse_inv_new: "parse_inv flags xlen A (new_info xlen)"
  by (simp add: parse_inv_def fresh_def) (simp add: new_info_def)

lemma parse_std_step:
  assumes "parse_std flags StdExts Itr I info = Inr info'" "I \<noteq> []"
    "getExtensionVersion [hd I] (tl I) (EnableExperimentalExtension flags)
      (ExperimentalExtensionVersionCheck flags) = (E, a, b, n)"
  obtains Itr' where "parse_std flags StdExts Itr' (GoToNextExt I n) info = Inr info'"
  | Itr' where "E = None" "isSupportedExtension [hd I]"
      "parse_std flags StdExts Itr' (GoToNextExt I n) (addExtension info [hd I] a b) = Inr info'"
  using assms
  by (subst (asm) parse_std.simps)
    (auto simp: Let_def simp del: dropWhile_eq_Nil_conv split: if_splits option.splits)

lemma parse_std_inv:
  assumes "parse_std flags StdExts Itr I info = Inr info'" "parse_inv flags xlen A info"
  shows "parse_inv flags xlen A info'"
  using assms
proof (induction I arbitrary: Itr info rule: measure_induct_rule [of length])
  case (less I)
  show ?case
  proof (cases "I = []")
    case True
    then show ?thesis using less.prems by (subst (asm) parse_std.simps) simp
  next
    case False
    obtain E a b n where g: "getExtensionVersion [hd I] (tl I) (EnableExperimentalExtension flags)
      (ExperimentalExtensionVersionCheck flags) = (E, a, b, n)" by (metis prod_cases4)
    from less.prems(1) False g show ?thesis
    proof (cases rule: parse_std_step)
      case (1 Itr')
      then show ?thesis using less.IH [OF length_GoToNextExt [OF False]] less.prems(2) by blast
    next
      case (2 Itr')
      have "entry_ok flags [hd I] (a, b)" using getExtensionVersion_entry g 2(1,2) by blast
      then have "parse_inv flags xlen A (addExtension info [hd I] a b)"
        using parse_inv_add less.prems(2) 2(2) by simp
      then show ?thesis using less.IH [OF length_GoToNextExt [OF False] 2(3)] by blast
    qed
  qed
qed

lemma parse_multi_inv:
  assumes "parse_multi flags Split AllExts info = Inr (AllExts', info')" "parse_inv flags xlen (set AllExts) info"
  shows "parse_inv flags xlen (set AllExts') info'"
  using assms
proof (induction Split arbitrary: AllExts info)
  case (Cons Ext Split)
  define Pos where "Pos = findLastNonVersionCharacter Ext + 1"
  let ?Name = "take Pos Ext"
  obtain E a b n where g: "getExtensionVersion ?Name (drop Pos Ext) (EnableExperimentalExtension flags)
    (ExperimentalExtensionVersionCheck flags) = (E, a, b, n)" by (metis prod_cases4)
  consider "parse_multi flags Split AllExts info = Inr (AllExts', info')"
    | "E = None" "parse_multi flags Split (AllExts @ [?Name]) (addExtension info ?Name a b) = Inr (AllExts', info')"
    using Cons.prems(1)
    unfolding parse_multi.simps Let_def Pos_def [symmetric] g prod.case
    by (auto split: if_splits option.splits)
  then show ?case
  proof cases
    case 1
    then show ?thesis using Cons.IH Cons.prems(2) by blast
  next
    case 2
    have "if isSupportedExtension ?Name then entry_ok flags ?Name (a, b) else ?Name \<in> set (AllExts @ [?Name])"
      using getExtensionVersion_entry g 2(1) by auto
    moreover have "parse_inv flags xlen (set (AllExts @ [?Name])) info"
      using parse_inv_mono [OF Cons.prems(2)] by auto
    ultimately show ?thesis using Cons.IH [OF 2(2)] parse_inv_add by blast
  qed
qed simp

lemma add_defaults_inv:
  assumes "parse_inv flags xlen A info" "\<forall>e\<in>set es. e \<in> set table_names \<and> e \<notin> set exp_names"
  shows "\<exists>info'. add_defaults es info = Some info' \<and> parse_inv flags xlen A info' \<and>
    (\<forall>e. has_ext info' e \<longleftrightarrow> has_ext info e \<or> e \<in> set es)"
  using assms
proof (induction es arbitrary: info)
  case (Cons e es)
  obtain a b where v: "findDefaultVersion e = Some (a, b)"
    using findDefaultVersion_iff [of e] Cons.prems(2) by auto
  have "entry_ok flags e (a, b)" using default_entry_ok [OF v] Cons.prems(2) by simp
  then have "parse_inv flags xlen A (addExtension info e a b)"
    using parse_inv_add [OF Cons.prems(1), of e a b] Cons.prems(2) isSupportedExtension_iff [of e] by simp
  from Cons.IH [OF this] show ?case
    using Cons.prems(2) v by (auto simp: addDefault_def)
qed simp

lemma base_table:
  "''i'' \<in> set table_names" "''e'' \<in> set table_names" "''i'' \<notin> set exp_names" "''e'' \<notin> set exp_names"
  "\<forall>e\<in>set RISCVGImplications. e \<in> set table_names \<and> e \<notin> set exp_names"
  by (simp_all add: table_defs exp_names_def RISCVGImplications_def)

lemma parse_base_inv:
  assumes "c \<in> {CHR ''e'', CHR ''i'', CHR ''g''}" "parse_inv flags xlen {} info"
  shows "case parse_base flags c Rest info of Undefined \<Rightarrow> False | Failure e \<Rightarrow> True
    | Success (info', n) \<Rightarrow> parse_inv flags xlen {} info'"
proof (cases "c = CHR ''g''")
  case True
  then show ?thesis
    using add_defaults_inv [OF assms(2) base_table(5)] by (auto simp: parse_base_def of_defined_def)
next
  case False
  then have c: "[c] \<in> set table_names" "[c] \<notin> set exp_names" using assms(1) base_table by auto
  obtain E a b n where g: "getExtensionVersion [c] Rest (EnableExperimentalExtension flags)
    (ExperimentalExtensionVersionCheck flags) = (E, a, b, n)" by (metis prod_cases4)
  show ?thesis
  proof (cases E)
    case None
    have sup: "isSupportedExtension [c]" using c(1) isSupportedExtension_iff by blast
    then have "entry_ok flags [c] (a, b)" using getExtensionVersion_entry g None by blast
    then show ?thesis using False g None sup parse_inv_add [OF assms(2)] by (simp add: parse_base_def)
  next
    case (Some e)
    obtain info' where "add_defaults [[c]] info = Some info'" "parse_inv flags xlen {} info'"
      using add_defaults_inv [OF assms(2), of "[[c]]"] c by auto
    then show ?thesis using False g Some
      by (auto simp: parse_base_def of_defined_def split: option.splits)
  qed
qed

section \<open>After parsing\<close>

lemma maxELen_loop_defined:
  assumes "set Names \<subseteq> set table_names"
  shows "maxELen_loop Names lens \<noteq> None"
  using assms
proof (induction Names arbitrary: lens)
  case (Cons Name Names)
  have "\<not> starts_with Name ''zve'' \<or> drop 3 Name \<noteq> [] \<and> getAsInteger (butlast (drop 3 Name)) 10 \<noteq> None"
    using zve_lengths Cons.prems by (auto simp: list_all_iff)
  then have "maxELen_step Name lens \<noteq> None"
    by (cases lens) (auto simp: maxELen_step_def consume_front_def Let_def numeral_3_eq_3 split: option.splits)
  then show ?case using Cons by (auto split: option.splits)
qed simp

lemma map_ok_names: "map_ok flags (ext_map info) \<Longrightarrow> set (map (ext_str \<circ> fst) (Exts info)) \<subseteq> set table_names"
proof
  fix e
  assume m: "map_ok flags (ext_map info)" "e \<in> set (map (ext_str \<circ> fst) (Exts info))"
  then have "ext_map info e \<noteq> None" using ext_map_names by blast
  then show "e \<in> set table_names"
    using m(1) isSupportedExtension_iff [of e] by (auto simp: map_ok_def entry_ok_def)
qed

text \<open>What every parsed description satisfies.\<close>

definition valid_isa :: "parse_flags \<Rightarrow> RISCVISAInfo \<Rightarrow> bool" where
  "valid_isa flags info \<longleftrightarrow>
    ordered info \<and> map_ok flags (ext_map info) \<and>
    (has_ext info ''i'' \<or> has_ext info ''e'') \<and>
    closed_under implication_rules (ext_map info) \<and> closed_under combination_rules (ext_map info) \<and>
    add_zcf (XLen info) (ext_map info) = ext_map info"

text \<open>What a combination does not make stays as it was.\<close>

lemma not_combined:
  "e \<notin> fst ` set CombineIntoExts \<Longrightarrow> saturate combination_rules m e = m e"
proof -
  assume e: "e \<notin> fst ` set CombineIntoExts"
  have "m e \<noteq> None" if "derivable combination_rules m e"
    using that e by (cases rule: derivable.cases) (auto simp: combination_rules_def intro: rev_image_eqI)
  then show ?thesis by (auto simp: saturate_def)
qed

lemma add_zcf_combination:
  "add_zcf xlen (saturate combination_rules (add_zcf xlen m)) = saturate combination_rules (add_zcf xlen m)"
proof -
  have "saturate combination_rules n e = n e" if "e \<in> {''zce'', ''f'', ''zcf''}" for n e
    using that by (intro not_combined) (auto simp: CombineIntoExts_def)
  then show ?thesis
    by (simp add: add_zcf_def [of _ "saturate _ _"]) (simp add: add_zcf_def default_zcf)
qed

text \<open>The lengths are those the extensions give.\<close>

definition lengths_set :: "RISCVISAInfo \<Rightarrow> bool" where
  "lengths_set info \<longleftrightarrow>
    updateMaxELen (updateMinVLen (updateFLen ((new_info (XLen info))\<lparr>Exts := Exts info\<rparr>))) = Some info"

lemma updates_exts [simp]:
  "Exts (updateFLen info) = Exts info" "Exts (updateMinVLen info) = Exts info"
  "XLen (updateFLen info) = XLen info" "XLen (updateMinVLen info) = XLen info"
  by (simp_all add: updateFLen_def updateMinVLen_def)

lemma updateMaxELen_exts: "updateMaxELen info = Some info' \<Longrightarrow> Exts info' = Exts info \<and> XLen info' = XLen info"
  by (auto simp: updateMaxELen_def split: option.splits)

lemma postProcess_ok:
  assumes "ordered info" "fresh info" "map_ok flags (ext_map info)"
  shows "\<exists>info'. postProcessAndChecking info =
      (case checkDependency info' of Some e \<Rightarrow> Failure e | None \<Rightarrow> Success info') \<and>
    valid_isa flags info' \<and> lengths_set info' \<and> XLen info' = XLen info \<and>
    (\<forall>e. has_ext info e \<longrightarrow> has_ext info' e) \<and>
    ext_map info' = saturate combination_rules
      (add_zcf (XLen info) (saturate implication_rules (add_base (ext_map info))))"
proof -
  obtain info1 where 1: "updateImplication info = Some info1" "ordered info1" "same_lengths info info1"
    "ext_map info1 = add_zcf (XLen info) (saturate implication_rules (add_base (ext_map info)))"
    "closed_under implication_rules (saturate implication_rules (add_base (ext_map info)))"
    using updateImplication_spec [OF assms(1)] by blast
  have ok1: "map_ok flags (ext_map info1)"
    unfolding 1(4) by (intro add_zcf_ok saturate_ok stable_implication add_base_ok assms(3))
  have cl1: "closed_under implication_rules (ext_map info1)"
    unfolding 1(4) by (intro add_zcf_closed 1(5))
  obtain info2 where 2: "updateCombination info1 = Some info2" "ordered info2" "same_lengths info1 info2"
    "ext_map info2 = saturate combination_rules (ext_map info1)" "closed_under combination_rules (ext_map info2)"
    using updateCombination_spec [OF 1(2)] by blast
  have ok2: "map_ok flags (ext_map info2)"
    unfolding 2(4) by (intro saturate_ok stable_combination ok1)
  have cl2: "closed_under implication_rules (ext_map info2)"
    using combination_keeps_implications [OF cl1, of flags] 2(5) ok2 unfolding 2(4) by blast
  have s: "info2 = info\<lparr>Exts := Exts info2\<rparr>"
    using same_lengths_trans [OF 1(3) 2(3)] by (simp add: same_lengths_def)
  have x: "XLen info2 = XLen info" by (subst s) simp
  have f: "info2 = (new_info (XLen info2))\<lparr>Exts := Exts info2\<rparr>"
    using s assms(2) unfolding fresh_def new_info_def by (cases info; cases info2; simp)
  let ?u = "updateMinVLen (updateFLen info2)"
  have "maxELen_loop (map (ext_str \<circ> fst) (Exts ?u)) (MaxELen ?u, MaxELenFp ?u) \<noteq> None"
    using maxELen_loop_defined map_ok_names [OF ok2] by simp
  then obtain info3 where u3: "updateMaxELen ?u = Some info3"
    unfolding updateMaxELen_def by (force split: option.splits)
  have 3: "updateMaxELen ?u = Some info3" "Exts info3 = Exts info2" "XLen info3 = XLen info2"
    using u3 updateMaxELen_exts [OF u3] by simp_all
  have e3: "ext_map info3 = ext_map info2" by (simp add: ext_map_def 3(2) fun_eq_iff)
  have o3: "ordered info3" using 2(2) by (simp add: ordered_def 3(2))
  have keep1: "ext_map info1 e \<noteq> None" if "add_base (ext_map info) e \<noteq> None" for e
    using that by (simp add: 1(4) add_zcf_def saturate_def default_zcf)
  have keep: "ext_map info2 e \<noteq> None" if "add_base (ext_map info) e \<noteq> None" for e
    using keep1 [OF that] by (simp add: 2(4) saturate_def)
  have "add_base (ext_map info) ''i'' \<noteq> None \<or> add_base (ext_map info) ''e'' \<noteq> None"
    by (cases "ext_map info ''i'' = None"; cases "ext_map info ''e'' = None") (simp_all add: add_base_def default_i)
  then have base: "has_ext info3 ''i'' \<or> has_ext info3 ''e''"
    using keep has_ext_map [OF o3] e3 by auto
  have has: "has_ext info3 e" if "has_ext info e" for e
  proof -
    have "add_base (ext_map info) e \<noteq> None"
      using that has_ext_map [OF assms(1)] by (simp add: add_base_def default_i)
    then show ?thesis using keep has_ext_map [OF o3] e3 by simp
  qed
  have "add_zcf (XLen info3) (ext_map info3) = ext_map info3"
    unfolding e3 2(4) 1(4) 3(3) x by (rule add_zcf_combination)
  then have "valid_isa flags info3"
    using o3 ok2 cl2 2(5) base by (simp add: valid_isa_def e3)
  moreover have "lengths_set info3"
    unfolding lengths_set_def 3(2,3) using 3(1) f by simp
  moreover have "postProcessAndChecking info =
      (case checkDependency info3 of Some e \<Rightarrow> Failure e | None \<Rightarrow> Success info3)"
    unfolding postProcessAndChecking_def of_defined_def by (simp add: 1(1) 2(1) 3(1))
  moreover have "ext_map info3 = saturate combination_rules
      (add_zcf (XLen info) (saturate implication_rules (add_base (ext_map info))))"
    by (simp add: e3 2(4) 1(4))
  ultimately show ?thesis using has 3(3) x by (intro exI [of _ info3]) simp
qed

end
