(* ===== verification/ISAProps.thy ===== *)
theory ISAProps
  imports ISAInfoSound
begin

text \<open>
  The promises of \<open>llvm/lib/Support/RISCVISAInfo.cpp\<close> as its callers see them: completing a
  description is closing its map under the rules of the tables, a parsed description is supported,
  complete and free of conflicts, and the canonical string of one reads back as the same description.
\<close>

section \<open>Completion\<close>

text \<open>C18: \<open>updateImplication\<close> ends without reading an empty optional and implements its
  specification: the resulting map is the least one that contains the old entries and the base
  \<open>i\<close> (unless \<open>e\<close> or \<open>i\<close> is there) and is closed under the table of implications, with default
  versions for what was added, plus \<open>zcf\<close> on RV32 with \<open>zce\<close> and \<open>f\<close>. Order and lengths are kept.\<close>
theorem updateImplication_refines:
  assumes "ordered info"
  shows "\<exists>info'. updateImplication info = Some info' \<and> ordered info' \<and> same_lengths info info' \<and>
    ext_map info' = add_zcf (XLen info) (saturate implication_rules (add_base (ext_map info)))"
  using updateImplication_spec [OF assms] by blast

lemma updateImplication_refines_witness:
  "\<exists>info'. updateImplication (addExtension (new_info 32) ''zce'' 1 0) = Some info' \<and> ordered info' \<and>
    ext_map info' = add_zcf 32 (saturate implication_rules
      (add_base (ext_map (addExtension (new_info 32) ''zce'' 1 0))))"
proof -
  have "ordered (addExtension (new_info 32) ''zce'' 1 0)" by (simp add: addExtension_map)
  moreover have "XLen (addExtension (new_info 32) ''zce'' 1 0) = 32" by (simp add: addExtension_def new_info_def)
  ultimately show ?thesis using updateImplication_refines [of "addExtension (new_info 32) ''zce'' 1 0"] by auto
qed

text \<open>C19: the loop of \<open>updateCombination\<close> ends, and its passes over the table compute the least map
  that contains the old entries and every combination all of whose parts are there.\<close>
theorem updateCombination_refines:
  assumes "ordered info"
  shows "\<exists>info'. updateCombination info = Some info' \<and> ordered info' \<and> same_lengths info info' \<and>
    ext_map info' = saturate combination_rules (ext_map info)"
  using updateCombination_spec [OF assms] by blast

lemma updateCombination_refines_witness:
  "\<exists>info'. updateCombination (addExtension (new_info 64) ''zkt'' 1 0) = Some info' \<and> ordered info' \<and>
    ext_map info' = saturate combination_rules (ext_map (addExtension (new_info 64) ''zkt'' 1 0))"
proof -
  have "ordered (addExtension (new_info 64) ''zkt'' 1 0)" by (simp add: addExtension_map)
  then show ?thesis using updateCombination_refines [of "addExtension (new_info 64) ''zkt'' 1 0"] by blast
qed

section \<open>Parsed descriptions\<close>

text \<open>The conflicts and requirements between extensions.\<close>

definition vector_needs :: "(string \<times> string) set" where
  "vector_needs =
    {(''zvbb'', ''zve32x''), (''zvkg'', ''zve32x''), (''zvkned'', ''zve32x''), (''zvknha'', ''zve32x''),
     (''zvksed'', ''zve32x''), (''zvksh'', ''zve32x''), (''zvbc'', ''zve64x''), (''zvknhb'', ''zve64x'')}"

definition dependencies_ok :: "RISCVISAInfo \<Rightarrow> bool" where
  "dependencies_ok info \<longleftrightarrow>
    (\<forall>(e, r) \<in> vector_needs. has_ext info e \<longrightarrow> has_ext info r) \<and>
    (MinVLen info \<noteq> 0 \<longrightarrow> has_ext info ''zve32x'') \<and>
    \<not> (has_ext info ''f'' \<and> has_ext info ''zfinx'') \<and>
    \<not> ((has_ext info ''zcmt'' \<or> has_ext info ''zcmp'') \<and> has_ext info ''d'' \<and>
       (has_ext info ''c'' \<or> has_ext info ''zcd'')) \<and>
    (has_ext info ''zcf'' \<longrightarrow> XLen info = 32)"

lemma checkDependency_iff: "checkDependency info = None \<longleftrightarrow> dependencies_ok info"
  by (simp add: checkDependency_def dependencies_ok_def vector_needs_def Let_def) blast

lemma map_ok_from_parse:
  assumes "parse_inv flags xlen A info" "\<forall>e\<in>A. isSupportedExtension e"
  shows "ordered info" "fresh info" "XLen info = xlen" "map_ok flags (ext_map info)"
  using assms unfolding parse_inv_def map_ok_def by (auto simp del: split_paired_All) (metis)+

lemma parseArchString_ok:
  "case parseArchString flags Arch of
     Undefined \<Rightarrow> False
   | Failure e \<Rightarrow> True
   | Success info \<Rightarrow>
       valid_isa flags info \<and> lengths_set info \<and> dependencies_ok info \<and>
       XLen info = (if starts_with Arch ''rv64'' then 64 else 32)"
proof (cases "list_ex isupper Arch \<or> \<not> (starts_with Arch ''rv32'' \<or> starts_with Arch ''rv64'') \<or> length Arch < 5 \<or>
    Arch ! 4 \<notin> {CHR ''e'', CHR ''i'', CHR ''g''} \<or>
    Arch ! 4 = CHR ''g'' \<and> length Arch > 5 \<and> isDigit (Arch ! 5) \<or> last Arch = CHR ''_''")
  case True
  then show ?thesis by (auto simp: parseArchString_def Let_def)
next
  case False
  define xlen :: u32 where "xlen = (if starts_with Arch ''rv64'' then 64 else 32)"
  define single where "single = (\<lambda>c. c \<notin> set ''zsx'')"
  define Rest where "Rest = takeWhile single (drop 5 Arch)"
  define Other where "Other = dropWhile single (drop 5 Arch)"
  define Std where "Std = (if Arch ! 4 = CHR ''g'' then drop 4 AllStdExts else AllStdExts)"
  have p: "parseArchString flags Arch =
    (case parse_base flags (Arch ! 4) Rest (new_info xlen) of
       Undefined \<Rightarrow> Undefined
     | Failure e \<Rightarrow> Failure e
     | Success (info1, n) \<Rightarrow>
    (case parse_std flags Std Std (snd (consume_front (drop n Rest) ''_'')) info1 of
       Inl e \<Rightarrow> Failure e
     | Inr info2 \<Rightarrow>
    (case (if Other \<noteq> [] then parse_multi flags (split_on (CHR ''_'') Other) [] info2 else Inr ([], info2)) of
       Inl e \<Rightarrow> Failure e
     | Inr (AllExts, info3) \<Rightarrow>
    (case find (\<lambda>Ext. \<not> isSupportedExtension Ext) AllExts of
       Some Ext \<Rightarrow> Failure (UnsupportedExt (getExtensionTypeDesc (getExtensionType Ext)) Ext)
     | None \<Rightarrow> postProcessAndChecking info3))))"
    using False unfolding parseArchString_def Let_def Rest_def Other_def Std_def xlen_def single_def
    by (simp only: if_False simp_thms de_Morgan_disj not_not)
  have base: "case parse_base flags (Arch ! 4) Rest (new_info xlen) of Undefined \<Rightarrow> False | Failure e \<Rightarrow> True
    | Success (info', n) \<Rightarrow> parse_inv flags xlen {} info'"
    using False by (intro parse_base_inv parse_inv_new) blast
  show ?thesis
  proof (cases "parse_base flags (Arch ! 4) Rest (new_info xlen)")
    case (Success r)
    obtain info1 n where r: "r = (info1, n)" by (cases r)
    have i1: "parse_inv flags xlen {} info1" using base Success r by simp
    show ?thesis
    proof (cases "parse_std flags Std Std (snd (consume_front (drop n Rest) ''_'')) info1")
      case (Inr info2)
      have i2: "parse_inv flags xlen {} info2" using parse_std_inv [OF Inr i1] .
      show ?thesis
      proof (cases "if Other \<noteq> [] then parse_multi flags (split_on (CHR ''_'') Other) [] info2 else Inr ([], info2)")
        case m: (Inr q)
        obtain AllExts info3 where q: "q = (AllExts, info3)" by (cases q)
        have i3: "parse_inv flags xlen (set AllExts) info3"
          using parse_multi_inv [of flags _ "[]" info2 AllExts info3] i2 m q by (auto split: if_splits)
        show ?thesis
        proof (cases "find (\<lambda>Ext. \<not> isSupportedExtension Ext) AllExts")
          case None
          then have "\<forall>e\<in>set AllExts. isSupportedExtension e" by (simp add: find_None_iff)
          note ok = map_ok_from_parse [OF i3 this]
          have "parseArchString flags Arch = postProcessAndChecking info3"
            unfolding p Success r Inr m q by (simp add: None Inr m q)
          moreover obtain info' where "postProcessAndChecking info3 =
              (case checkDependency info' of Some e \<Rightarrow> Failure e | None \<Rightarrow> Success info')"
            "valid_isa flags info'" "lengths_set info'" "XLen info' = xlen"
            using postProcess_ok [OF ok(1,2,4)] ok(3) by blast
          ultimately show ?thesis
            using checkDependency_iff [of info'] by (cases "checkDependency info'") (auto simp: xlen_def)
        qed (simp add: p Success r Inr m q)
      qed (simp add: p Success r Inr)
    qed (simp add: p Success r)
  qed (use base p in simp_all)
qed

text \<open>C16: parsing an architecture string never reads an empty optional or an uninitialised length,
  whatever the string and the flags. A description it returns is a map in canonical order whose
  entries are all supported, experimental only if enabled, at the version of the tables unless left
  unchecked; it has a base, is closed under implications and combinations, has no conflicting
  extensions, and its width is that of the string.\<close>
theorem parseArchString_sound:
  "case parseArchString flags Arch of
     Undefined \<Rightarrow> False
   | Failure e \<Rightarrow> True
   | Success info \<Rightarrow>
       valid_isa flags info \<and> dependencies_ok info \<and>
       XLen info = (if starts_with Arch ''rv64'' then 64 else 32)"
  using parseArchString_ok [of flags Arch] by (auto split: outcome.splits)

lemma parseArchString_sound_witness:
  "(case parseArchString \<lparr>EnableExperimentalExtension = False, ExperimentalExtensionVersionCheck = True,
       IgnoreUnknown = False\<rparr> ''rv64i'' of
     Undefined \<Rightarrow> False | Failure e \<Rightarrow> False | Success info \<Rightarrow> XLen info = 64 \<and> dependencies_ok info)"
proof -
  have "parseArchString \<lparr>EnableExperimentalExtension = False, ExperimentalExtensionVersionCheck = True,
      IgnoreUnknown = False\<rparr> ''rv64i'' =
    Success \<lparr>XLen = 64, FLen = 0, MinVLen = 0, MaxELen = 0, MaxELenFp = 0, Exts = [(ExtName ''i'', 2, 1)]\<rparr>"
    by code_simp
  then show ?thesis
    using parseArchString_sound [of "\<lparr>EnableExperimentalExtension = False,
      ExperimentalExtensionVersionCheck = True, IgnoreUnknown = False\<rparr>" "''rv64i''"] by simp
qed

section \<open>Printing and reading back\<close>

text \<open>A name that can be printed: lower case, no separator, no digit at its end.\<close>

definition printable_name :: "string \<Rightarrow> bool" where
  "printable_name e \<longleftrightarrow>
    e \<noteq> [] \<and> \<not> isDigit (last e) \<and> list_all (\<lambda>c. c \<noteq> CHR ''_'' \<and> \<not> isupper c) e"

lemma table_names_printable: "list_all printable_name table_names"
  by code_simp

lemma digit_facts: "isDigit c \<Longrightarrow> c \<noteq> CHR ''_'' \<and> c \<noteq> CHR ''p'' \<and> \<not> isupper c"
  by (auto simp: isDigit_def isupper_def char_le_code)

lemma show_unsigned_no:
  "CHR ''_'' \<notin> set (show_unsigned n)" "CHR ''p'' \<notin> set (show_unsigned n)" "\<not> list_ex isupper (show_unsigned n)"
  using show_unsigned_digits(1) [of n] digit_facts by (auto simp: list_all_iff list_ex_iff)

lemma takeWhile_rev_digits:
  assumes "e = [] \<or> \<not> isDigit (last e)" "list_all isDigit ds"
  shows "takeWhile isDigit (rev (e @ ds)) = rev ds"
proof -
  have "takeWhile isDigit (rev e) = []" using assms(1) by (cases e rule: rev_cases) auto
  moreover have "\<forall>c\<in>set (rev ds). isDigit c" using assms(2) by (simp add: list_all_iff)
  ultimately show ?thesis using takeWhile_append2 [of "rev ds" isDigit "rev e"] by simp
qed

text \<open>An entry that was printed reads back.\<close>

lemma normalized_show_ext:
  assumes "printable_name (ext_str (fst x))"
  shows "normalized_ext (show_ext x) = Inr (ext_str (fst x), fst (snd x), snd (snd x))"
proof -
  let ?e = "ext_str (fst x)" and ?a = "show_unsigned (fst (snd x))" and ?b = "show_unsigned (snd (snd x))"
  have "rsplit (show_ext x) (CHR ''p'') = (?e @ ?a, ?b)"
    using rsplit_last [OF show_unsigned_no(2), of "?e @ ?a"] by (simp add: show_ext_def)
  moreover have "takeWhile isDigit (rev (?e @ ?a)) = rev ?a"
    using assms by (intro takeWhile_rev_digits show_unsigned_digits) (simp add: printable_name_def)
  ultimately show ?thesis
    unfolding normalized_ext_def Let_def
    by (simp add: show_unsigned_digits getAsInteger_show del: rev_append)
qed

lemma show_ext_no:
  assumes "printable_name (ext_str (fst x))"
  shows "CHR ''_'' \<notin> set (show_ext x)" "\<not> list_ex isupper (show_ext x)"
  using assms show_unsigned_no
  by (auto simp: show_ext_def printable_name_def list_all_iff list_ex_iff isupper_def char_le_code)

lemma split_show_exts:
  assumes "list_all (\<lambda>x. printable_name (ext_str (fst x))) (x # xs)"
  shows "split_on (CHR ''_'') (show_exts [] (x # xs)) = map show_ext (x # xs)"
  using assms
proof (induction xs arbitrary: x)
  case Nil
  then show ?case using split_on_no show_ext_no(1) by simp
next
  case (Cons y ys)
  have "show_exts [] (x # y # ys) = show_ext x @ CHR ''_'' # show_exts [] (y # ys)" by simp
  then show ?case
    using Cons.IH [of y] Cons.prems split_on_append [OF show_ext_no(1)] by simp
qed

lemma show_exts_lower:
  "list_all (\<lambda>x. printable_name (ext_str (fst x))) xs \<Longrightarrow> \<not> list_ex isupper LS \<Longrightarrow> \<not> list_ex isupper (show_exts LS xs)"
  using show_ext_no(2)
  by (induction LS xs rule: show_exts.induct) (simp_all add: isupper_def char_le_code)

lemma ext_put_last:
  "\<forall>k'\<in>fst ` set m. k' < k \<Longrightarrow> ext_put k v m = m @ [(k, v)]"
  by (induction m) auto

lemma normalized_exts_show:
  assumes "list_all (\<lambda>x. printable_name (ext_str (fst x))) xs" "sorted_wrt (<) (map fst (Exts info @ xs))"
  shows "normalized_exts (map show_ext xs) info = Inr (info\<lparr>Exts := Exts info @ xs\<rparr>)"
  using assms
proof (induction xs arbitrary: info)
  case (Cons x xs)
  let ?i = "addExtension info (ext_str (fst x)) (fst (snd x)) (snd (snd x))"
  have "ext_put (fst x) (snd x) (Exts info) = Exts info @ [x]"
    using Cons.prems(2) ext_put_last [of "Exts info" "fst x" "snd x"] by (force simp: sorted_wrt_append)
  then have i: "?i = info\<lparr>Exts := Exts info @ [x]\<rparr>" by (simp add: addExtension_def)
  have "normalized_exts (map show_ext xs) ?i = Inr (?i\<lparr>Exts := Exts ?i @ xs\<rparr>)"
    using Cons.prems by (intro Cons.IH) (simp_all add: i)
  then show ?case using Cons.prems(1) by (simp add: normalized_show_ext split_beta i)
qed simp

text \<open>The base comes first.\<close>

lemma base_ranks:
  "list_all (\<lambda>e. getExtensionRank e \<le> 1 \<longrightarrow> e = ''i'' \<or> e = ''e'') table_names"
  "getExtensionRank ''i'' = 0" "getExtensionRank ''e'' = 1"
  by code_simp+

lemma base_first:
  assumes "ordered info" "map_ok flags (ext_map info)" "has_ext info ''i'' \<or> has_ext info ''e''"
  obtains x xs where "Exts info = x # xs" "ext_str (fst x) = ''i'' \<or> ext_str (fst x) = ''e''"
proof -
  obtain b where b: "has_ext info b" "b = ''i'' \<or> b = ''e''" using assms(3) by blast
  have rb: "getExtensionRank b \<le> 1" using b(2) base_ranks(2,3) by auto
  have "b \<in> set (map (ext_str \<circ> fst) (Exts info))"
    using b(1) has_ext_map [OF assms(1)] ext_map_names by blast
  then obtain x xs where x: "Exts info = x # xs" by (cases "Exts info") auto
  have "b = ext_str (fst x) \<or> fst x < ExtName b"
    using \<open>b \<in> _\<close> assms(1) by (auto simp: x ordered_def)
  then have "getExtensionRank (ext_str (fst x)) \<le> 1"
    using rb by (auto simp: less_ext_name_def compareExtension_def Let_def split: if_splits)
  moreover have "ext_str (fst x) \<in> set table_names" using map_ok_names [OF assms(2)] by (simp add: x)
  ultimately have "ext_str (fst x) = ''i'' \<or> ext_str (fst x) = ''e''"
    using base_ranks(1) by (auto simp: list_all_iff)
  then show ?thesis using that x by blast
qed

lemma show_xlen: "show_unsigned 32 = ''32''" "show_unsigned 64 = ''64''"
  by code_simp+

text \<open>The general form: a well-formed description in its printed form reads back as the lengths its
  extensions give.\<close>

lemma parseNormalized_toString:
  assumes "ordered info" "XLen info = 32 \<or> XLen info = 64" "Exts info = x # xs"
    "ext_str (fst x) = ''i'' \<or> ext_str (fst x) = ''e''"
    "list_all (\<lambda>x. printable_name (ext_str (fst x))) (Exts info)"
  shows "parseNormalizedArchString (toString info) =
    of_defined (updateMaxELen (updateMinVLen (updateFLen ((new_info (XLen info))\<lparr>Exts := Exts info\<rparr>)))) Success"
proof -
  have "\<exists>rest. show_ext x = ext_str (fst x) @ rest" by (simp add: show_ext_def)
  then obtain rest where rest: "show_exts [] (Exts info) = ext_str (fst x) @ rest"
    using assms(3) by auto
  have low: "\<not> list_ex isupper (show_exts [] (Exts info))"
    using show_exts_lower [OF assms(5), of "[]"] by simp
  have "\<not> list_ex isupper (toString info)"
    using assms(2) low by (auto simp: toString_def show_xlen isupper_def char_le_code)
  moreover have "normalized_xlen (toString info) = Some (XLen info)"
    using assms(2,4) rest by (auto simp: toString_def show_xlen normalized_xlen_def starts_with_def)
  moreover have "drop 4 (toString info) = show_exts [] (Exts info)"
    using assms(2) by (auto simp: toString_def show_xlen)
  moreover have "split_on (CHR ''_'') (show_exts [] (Exts info)) = map show_ext (Exts info)"
    using split_show_exts assms(3,5) by simp
  moreover have "normalized_exts (map show_ext (Exts info)) (new_info (XLen info)) =
    Inr ((new_info (XLen info))\<lparr>Exts := Exts info\<rparr>)"
    using normalized_exts_show [OF assms(5), of "new_info (XLen info)"] assms(1)
    by (simp add: ordered_def new_info_def)
  ultimately show ?thesis by (simp add: parseNormalizedArchString_def)
qed

text \<open>C17: the canonical string of every description \<open>parseArchString\<close> returns, read back by
  \<open>parseNormalizedArchString\<close>, gives the same description: all extensions, versions and lengths.\<close>
theorem toString_roundtrip:
  assumes "parseArchString flags Arch = Success info"
  shows "parseNormalizedArchString (toString info) = Success info"
proof -
  have ok: "valid_isa flags info" "lengths_set info" "XLen info = 32 \<or> XLen info = 64"
    using parseArchString_ok [of flags Arch] assms by (auto split: if_splits)
  then have v: "ordered info" "map_ok flags (ext_map info)" "has_ext info ''i'' \<or> has_ext info ''e''"
    by (simp_all add: valid_isa_def)
  obtain x xs where x: "Exts info = x # xs" "ext_str (fst x) = ''i'' \<or> ext_str (fst x) = ''e''"
    using base_first [OF v] .
  have "list_all (\<lambda>x. printable_name (ext_str (fst x))) (Exts info)"
    using map_ok_names [OF v(2)] table_names_printable by (auto simp: list_all_iff)
  then show ?thesis
    using parseNormalized_toString [OF v(1) ok(3) x] ok(2) by (simp add: lengths_set_def of_defined_def)
qed

text \<open>A vector ISA string, with the lengths and the closure of its extensions.\<close>

definition ex_flags :: parse_flags where
  "ex_flags = \<lparr>EnableExperimentalExtension = False, ExperimentalExtensionVersionCheck = True, IgnoreUnknown = False\<rparr>"

definition ex_isa :: RISCVISAInfo where
  "ex_isa = \<lparr>XLen = 32, FLen = 0, MinVLen = 32, MaxELen = 32, MaxELenFp = 0,
    Exts = [(ExtName ''i'', 2, 1), (ExtName ''m'', 2, 0), (ExtName ''zicsr'', 2, 0),
      (ExtName ''zve32x'', 1, 0), (ExtName ''zvl32b'', 1, 0)]\<rparr>"

lemma ex_isa_parse: "parseArchString ex_flags ''rv32im2p0_zve32x'' = Success ex_isa"
  by code_simp

lemma toString_roundtrip_witness:
  "parseNormalizedArchString (toString ex_isa) = Success ex_isa"
  using toString_roundtrip [OF ex_isa_parse] .

section \<open>Names the normalized parser does not check\<close>

text \<open>A name starting with \<open>zve\<close> from which \<open>updateMaxELen\<close> can read a number.\<close>

definition zve_numbered :: "string \<Rightarrow> bool" where
  "zve_numbered e \<longleftrightarrow>
    starts_with e ''zve'' \<longrightarrow> drop 3 e \<noteq> [] \<and> getAsInteger (butlast (drop 3 e)) 10 \<noteq> None"

lemma maxELen_step_iff: "maxELen_step e lens = None \<longleftrightarrow> \<not> zve_numbered e"
  by (cases lens)
    (auto simp: maxELen_step_def zve_numbered_def consume_front_def Let_def numeral_3_eq_3 split: option.splits)

lemma maxELen_loop_iff: "maxELen_loop es lens = None \<longleftrightarrow> \<not> list_all zve_numbered es"
proof (induction es arbitrary: lens)
  case (Cons e es)
  then show ?case
    using maxELen_step_iff [of e lens] by (cases "maxELen_step e lens") auto
qed simp

text \<open>C21: on the canonical string of a description with arbitrary printable extension names, which
  \<open>parseNormalizedArchString\<close> accepts without looking them up, the parser runs into an undefined
  length exactly when some name starts with \<open>zve\<close> and has no number before its last letter:
  \<open>getAsInteger\<close> then fails and its uninitialised output is used.\<close>
theorem parseNormalizedArchString_undefined:
  assumes "ordered info" "XLen info = 32 \<or> XLen info = 64" "Exts info = x # xs"
    "ext_str (fst x) = ''i'' \<or> ext_str (fst x) = ''e''"
    "list_all (\<lambda>x. printable_name (ext_str (fst x))) (Exts info)"
  shows "parseNormalizedArchString (toString info) = Undefined \<longleftrightarrow>
    (\<exists>e\<in>set (Exts info). \<not> zve_numbered (ext_str (fst e)))"
proof -
  let ?i = "updateMinVLen (updateFLen ((new_info (XLen info))\<lparr>Exts := Exts info\<rparr>))"
  have "parseNormalizedArchString (toString info) = Undefined \<longleftrightarrow> updateMaxELen ?i = None"
    using parseNormalized_toString [OF assms] by (simp add: of_defined_def split: option.splits)
  also have "\<dots> \<longleftrightarrow> maxELen_loop (map (ext_str \<circ> fst) (Exts ?i)) (MaxELen ?i, MaxELenFp ?i) = None"
    by (auto simp: updateMaxELen_def split: option.splits)
  also have "\<dots> \<longleftrightarrow> (\<exists>e\<in>set (Exts info). \<not> zve_numbered (ext_str (fst e)))"
    by (auto simp: maxELen_loop_iff list_all_iff)
  finally show ?thesis .
qed

lemma parseNormalizedArchString_undefined_witness:
  "parseNormalizedArchString ''rv32i2p1_zvexx1p0'' = Undefined"
proof -
  let ?info = "(new_info 32)\<lparr>Exts := [(ExtName ''i'', 2, 1), (ExtName ''zvexx'', 1, 0)]\<rparr>"
  have "toString ?info = ''rv32i2p1_zvexx1p0''" by code_simp
  moreover have "ExtName ''i'' < ExtName ''zvexx''" by code_simp
  then have "ordered ?info" by (simp add: ordered_def)
  moreover have "\<not> zve_numbered ''zvexx''" by code_simp
  moreover have "printable_name ''i''" "printable_name ''zvexx''" by code_simp+
  ultimately show ?thesis
    using parseNormalizedArchString_undefined [of ?info "(ExtName ''i'', 2, 1)" "[(ExtName ''zvexx'', 1, 0)]"]
    by (simp add: new_info_def)
qed

section \<open>Feature lists\<close>

lemma ext_map_exts:
  assumes "ordered a" "ordered b" "ext_map a = ext_map b"
  shows "Exts a = Exts b"
proof -
  have "map_of (Exts a) k = map_of (Exts b) k" for k
    using fun_cong [OF assms(3), of "ext_str k"] by (simp add: ext_map_def)
  then show ?thesis using assms(1,2) by (intro ordered_map_eq) (auto simp: ordered_def)
qed

lemma saturate_closed: "closed_under R m \<Longrightarrow> saturate R m = m"
  using partial_closure_closed [OF partial_closure_refl] by simp

text \<open>A complete description is a fixed point of the completion.\<close>

lemma valid_isa_fixed:
  assumes "valid_isa flags info" "lengths_set info" "dependencies_ok info"
    "ordered a" "fresh a" "XLen a = XLen info" "map_ok flags (ext_map a)" "add_base (ext_map a) = ext_map info"
  shows "postProcessAndChecking a = Success info"
proof -
  obtain b where b: "postProcessAndChecking a =
      (case checkDependency b of Some e \<Rightarrow> Failure e | None \<Rightarrow> Success b)"
    "valid_isa flags b" "lengths_set b" "XLen b = XLen a"
    "ext_map b = saturate combination_rules (add_zcf (XLen a) (saturate implication_rules (add_base (ext_map a))))"
    using postProcess_ok [OF assms(4,5,7)] by blast
  have "ext_map b = ext_map info"
    using assms(1) by (simp add: b(5) assms(6,8) valid_isa_def saturate_closed)
  then have "Exts b = Exts info" using assms(1) b(2) by (intro ext_map_exts) (simp_all add: valid_isa_def)
  then have "b = info" using b(3,4) assms(2,6) by (simp add: lengths_set_def)
  then show ?thesis using b(1) assms(3) checkDependency_iff [of info] by simp
qed

text \<open>A feature that was printed reads back as the extension at the version of the tables.\<close>

definition feature_text :: "string \<Rightarrow> string" where
  "feature_text e = (if isExperimentalExtension e \<noteq> None then ''+experimental-'' @ e else ''+'' @ e)"

lemma feature_step_text:
  assumes "entry_ok flags e v" "ExperimentalExtensionVersionCheck flags"
  shows "feature_step info (feature_text e) = addExtension info e (fst v) (snd v)"
proof -
  have v: "findDefaultVersion e = Some v" and e: "e \<in> set table_names"
    using assms isSupportedExtension_iff by (auto simp: entry_ok_def)
  show ?thesis
  proof (cases "isExperimentalExtension e")
    case None
    have "\<not> starts_with e ''experimental-''"
      using supported_not_experimental_prefix e by (auto simp: list_all_iff table_names_def)
    moreover have "find_entry SupportedExtensions e = Some v"
      using v None by (auto simp: findDefaultVersion_map isExperimentalExtension_map sup.find_entry_map_of split: option.splits)
    ultimately show ?thesis
      using None by (simp add: feature_step_def feature_text_def stripExperimentalPrefix_def consume_front_def
          char_at_def Let_def split_beta)
  next
    case (Some w)
    then have "find_entry SupportedExperimentalExtensions e = Some v"
      using experimental_default [OF Some] v by (simp add: isExperimentalExtension_def)
    then show ?thesis
      using Some by (simp add: feature_step_def feature_text_def stripExperimentalPrefix_def consume_front_def
          starts_with_def char_at_def Let_def split_beta)
  qed
qed

lemma foldl_feature_step:
  assumes "\<forall>x\<in>set xs. entry_ok flags (ext_str (fst x)) (snd x)" "ExperimentalExtensionVersionCheck flags"
    "sorted_wrt (<) (map fst (Exts info @ xs))"
  shows "foldl feature_step info (map (\<lambda>x. feature_text (ext_str (fst x))) xs) = info\<lparr>Exts := Exts info @ xs\<rparr>"
  using assms
proof (induction xs arbitrary: info)
  case (Cons x xs)
  let ?i = "addExtension info (ext_str (fst x)) (fst (snd x)) (snd (snd x))"
  have "ext_put (fst x) (snd x) (Exts info) = Exts info @ [x]"
    using Cons.prems(3) ext_put_last [of "Exts info" "fst x" "snd x"] by (force simp: sorted_wrt_append)
  then have i: "?i = info\<lparr>Exts := Exts info @ [x]\<rparr>" by (simp add: addExtension_def)
  have "feature_step info (feature_text (ext_str (fst x))) = ?i"
    using Cons.prems(1,2) by (intro feature_step_text) simp_all
  moreover have "foldl feature_step ?i (map (\<lambda>x. feature_text (ext_str (fst x))) xs) = ?i\<lparr>Exts := Exts ?i @ xs\<rparr>"
    using Cons.prems by (intro Cons.IH) (simp_all add: i)
  ultimately show ?case by (simp add: i)
qed simp

lemma map_of_without:
  "map_of (filter (\<lambda>x. ext_str (fst x) \<noteq> n) m) (ExtName e) = (if e = n then None else map_of m (ExtName e))"
  by (induction m) auto

lemma toFeatureVector_entries:
  assumes "map_ok flags (ext_map info)"
  shows "toFeatureVector info =
    map (\<lambda>x. feature_text (ext_str (fst x))) (filter (\<lambda>x. ext_str (fst x) \<noteq> ''i'') (Exts info))"
proof -
  have "isSupportedExtension (ext_str (fst x))" if "x \<in> set (Exts info)" for x
    using map_ok_names [OF assms] isSupportedExtension_iff that by force
  then have "filter (\<lambda>x. ext_str (fst x) \<noteq> ''i'' \<and> isSupportedExtension (ext_str (fst x))) (Exts info) =
    filter (\<lambda>x. ext_str (fst x) \<noteq> ''i'') (Exts info)" by (intro filter_cong) auto
  then show ?thesis
    by (simp add: toFeatureVector_def feature_text_def filter_map comp_def)
qed

text \<open>C20: when a description was parsed with \<open>ExperimentalExtensionVersionCheck\<close> and does not have both \<open>i\<close>
  and \<open>e\<close>, its feature list, given back to \<open>parseFeatures\<close>, rebuilds it: the list leaves out \<open>i\<close> and
  all versions and lengths, and the completion restores them. Without the check an experimental
  extension may have a version that is not the default one, which the list loses.\<close>
theorem features_roundtrip:
  assumes "parseArchString flags Arch = Success info" "ExperimentalExtensionVersionCheck flags"
    "\<not> (has_ext info ''i'' \<and> has_ext info ''e'')"
  shows "parseFeatures (XLen info) (toFeatureVector info) = Success info"
proof -
  have ok: "valid_isa flags info" "lengths_set info" "dependencies_ok info"
    using parseArchString_ok [of flags Arch] assms(1) by auto
  then have v: "ordered info" "map_ok flags (ext_map info)" "has_ext info ''i'' \<or> has_ext info ''e''"
    by (simp_all add: valid_isa_def)
  let ?xs = "filter (\<lambda>x. ext_str (fst x) \<noteq> ''i'') (Exts info)"
  let ?a = "(new_info (XLen info))\<lparr>Exts := ?xs\<rparr>"
  have dist: "distinct (map fst (Exts info))" using v(1) strict_sorted_iff by (auto simp: ordered_def)
  have entry: "entry_ok flags (ext_str (fst x)) (snd x)" if "x \<in> set (Exts info)" for x
  proof -
    have "map_of (Exts info) (fst x) = Some (snd x)" using that dist by simp
    then have "ext_map info (ext_str (fst x)) = Some (snd x)" by (simp add: ext_map_def)
    then show ?thesis using v(2) by (simp add: map_ok_def del: split_paired_All)
  qed
  have srt: "sorted_wrt (<) (map fst ?xs)"
    using v(1) by (simp add: ordered_def sorted_wrt_map sorted_wrt_filter)
  have a: "foldl feature_step (new_info (XLen info)) (toFeatureVector info) = ?a"
    unfolding toFeatureVector_entries [OF v(2)]
    using foldl_feature_step [of ?xs flags "new_info (XLen info)"] entry assms(2) srt
    by (simp add: new_info_def)
  have map_a: "ext_map ?a = (ext_map info)(''i'' := None)"
    by (simp add: ext_map_def map_of_without fun_eq_iff)
  have "add_base (ext_map ?a) = ext_map info"
  proof (cases "has_ext info ''i''")
    case True
    then have "ext_map info ''e'' = None" using assms(3) has_ext_map [OF v(1)] by blast
    moreover obtain w where w: "ext_map info ''i'' = Some w" using True has_ext_map [OF v(1)] by auto
    then have "entry_ok flags ''i'' w" using v(2) by (simp add: map_ok_def del: split_paired_All)
    then have "w = (2, 1)" using assms(2) default_i by (simp add: entry_ok_def)
    ultimately show ?thesis using w by (auto simp: add_base_def map_a default_i fun_eq_iff)
  next
    case False
    then have "ext_map info ''i'' = None" "ext_map info ''e'' \<noteq> None" using v(3) has_ext_map [OF v(1)] by auto
    then show ?thesis by (auto simp: add_base_def map_a fun_eq_iff)
  qed
  moreover have "map_ok flags (ext_map ?a)" using v(2) by (simp add: map_ok_def map_a del: split_paired_All)
  moreover have "ordered ?a" "fresh ?a" "XLen ?a = XLen info"
    using srt by (simp_all add: ordered_def fresh_def new_info_def)
  ultimately show ?thesis
    using valid_isa_fixed [OF ok] by (simp add: parseFeatures_def a)
qed

lemma features_roundtrip_witness:
  "parseFeatures 32 [''+m'', ''+zicsr'', ''+zve32x'', ''+zvl32b''] = Success ex_isa"
proof -
  have "toFeatureVector ex_isa = [''+m'', ''+zicsr'', ''+zve32x'', ''+zvl32b'']" by code_simp
  moreover have "\<not> (has_ext ex_isa ''i'' \<and> has_ext ex_isa ''e'')" by code_simp
  moreover have "ExperimentalExtensionVersionCheck ex_flags" "XLen ex_isa = 32"
    by (simp_all add: ex_flags_def ex_isa_def)
  ultimately show ?thesis using features_roundtrip [OF ex_isa_parse] by simp
qed

end
