(* ===== verification/ELFAttributes.thy ===== *)
theory ELFAttributes
  imports LEB128 RVReloc
begin

text \<open>
  Reading a section of build attributes: the cursor operations of \<open>llvm/lib/Support/DataExtractor.cpp\<close>
  the parser uses, \<open>llvm/lib/Support/ELFAttributeParser.cpp\<close> and the handlers of
  \<open>RISCVAttributeParser.cpp\<close>, without a printer. The parser object, its cursor included, is passed
  along; a run ends with an error or none. \<open>None\<close> is an undefined step: a LEB128 group whose decoding
  shifts by 64 or more, or a read that starts behind the data.
\<close>

section \<open>The cursor\<close>

record attr_parser =
  attributes :: "u32 \<Rightarrow> u32 option"
  attributesStr :: "u32 \<Rightarrow> u8 list option"
  Offset :: nat
  CursorErr :: bool

definition new_parser :: attr_parser where
  "new_parser = \<lparr>attributes = \<lambda>_. None, attributesStr = \<lambda>_. None, Offset = 0, CursorErr = False\<rparr>"

definition getU8 :: "u8 list \<Rightarrow> attr_parser \<Rightarrow> u8 \<times> attr_parser" where
  "getU8 Data p =
    (if CursorErr p then (0, p)
     else if Offset p + 1 \<le> length Data then (Data ! Offset p, p\<lparr>Offset := Offset p + 1\<rparr>)
     else (0, p\<lparr>CursorErr := True\<rparr>))"

definition getU32 :: "u8 list \<Rightarrow> bool \<Rightarrow> attr_parser \<Rightarrow> u32 \<times> attr_parser" where
  "getU32 Data IsLittleEndian p =
    (if CursorErr p then (0, p)
     else if Offset p + 4 \<le> length Data then
       (let bytes = take 4 (drop (Offset p) Data)
        in (of_mem_bytes (if IsLittleEndian then bytes else rev bytes), p\<lparr>Offset := Offset p + 4\<rparr>))
     else (0, p\<lparr>CursorErr := True\<rparr>))"

definition getULEB128 :: "u8 list \<Rightarrow> attr_parser \<Rightarrow> (u64 \<times> attr_parser) option" where
  "getULEB128 Data p =
    (if Offset p > length Data then None
     else if CursorErr p then Some (0, p)
     else case decodeULEB128 (drop (Offset p) Data) of
         Decoded result bytes_read \<Rightarrow> Some (result, p\<lparr>Offset := Offset p + bytes_read\<rparr>)
       | Failed error bytes_read \<Rightarrow> Some (0, p\<lparr>CursorErr := True\<rparr>)
       | Undefined \<Rightarrow> None)"

definition getCStrRef :: "u8 list \<Rightarrow> attr_parser \<Rightarrow> u8 list \<times> attr_parser" where
  "getCStrRef Data p =
    (if CursorErr p then ([], p)
     else
       let Start = Offset p; s = takeWhile (\<lambda>b. b \<noteq> 0) (drop Start Data); Pos = Start + length s
       in if Pos < length Data then (s, p\<lparr>Offset := Pos + 1\<rparr>) else ([], p\<lparr>CursorErr := True\<rparr>))"

section \<open>Attributes\<close>

datatype attr_error =
    UnknownValue string u64 | InvalidTag u64 nat | InvalidSize u32 nat | UnrecognizedTag u8 nat
  | BadFormatVersion u8 | InvalidSectionLength u32 nat | CursorError

text \<open>\<open>insert\<close> and \<open>emplace\<close> keep an entry that is there.\<close>

definition map_insert :: "('k \<Rightarrow> 'v option) \<Rightarrow> 'k \<Rightarrow> 'v \<Rightarrow> 'k \<Rightarrow> 'v option" where
  "map_insert m k v = (if m k = None then m(k := Some v) else m)"

definition printAttribute :: "u32 \<Rightarrow> u32 \<Rightarrow> attr_parser \<Rightarrow> attr_parser" where
  "printAttribute tag v p = p\<lparr>attributes := map_insert (attributes p) tag v\<rparr>"

definition setAttributeString :: "u32 \<Rightarrow> u8 list \<Rightarrow> attr_parser \<Rightarrow> attr_parser" where
  "setAttributeString tag s p = p\<lparr>attributesStr := map_insert (attributesStr p) tag s\<rparr>"

type_synonym parse_result = "(attr_error option \<times> attr_parser) option"

definition integerAttribute :: "u8 list \<Rightarrow> u32 \<Rightarrow> attr_parser \<Rightarrow> parse_result" where
  "integerAttribute Data tag p =
    (case getULEB128 Data p of
       None \<Rightarrow> None
     | Some (v, p1) \<Rightarrow> Some (None, p1\<lparr>attributes := map_insert (attributes p1) tag (ucast v)\<rparr>))"

definition stringAttribute :: "u8 list \<Rightarrow> u32 \<Rightarrow> attr_parser \<Rightarrow> parse_result" where
  "stringAttribute Data tag p =
    (let (desc, p1) = getCStrRef Data p in Some (None, setAttributeString tag desc p1))"

definition parseStringAttribute :: "u8 list \<Rightarrow> string \<Rightarrow> u32 \<Rightarrow> nat \<Rightarrow> attr_parser \<Rightarrow> parse_result" where
  "parseStringAttribute Data name tag strings_size p =
    (case getULEB128 Data p of
       None \<Rightarrow> None
     | Some (v, p1) \<Rightarrow>
         Some (if v \<ge> of_nat strings_size then Some (UnknownValue name v) else None, printAttribute tag (ucast v) p1))"

definition stackAlign :: "u8 list \<Rightarrow> u32 \<Rightarrow> attr_parser \<Rightarrow> parse_result" where
  "stackAlign Data tag p =
    (case getULEB128 Data p of None \<Rightarrow> None | Some (v, p1) \<Rightarrow> Some (None, printAttribute tag (ucast v) p1))"

definition unalignedAccess :: "u8 list \<Rightarrow> u32 \<Rightarrow> attr_parser \<Rightarrow> parse_result" where
  "unalignedAccess Data tag p = parseStringAttribute Data ''Unaligned_access'' tag 2 p"

abbreviation STACK_ALIGN :: u32 where "STACK_ALIGN \<equiv> 4"
abbreviation ARCH :: u32 where "ARCH \<equiv> 5"
abbreviation UNALIGNED_ACCESS :: u32 where "UNALIGNED_ACCESS \<equiv> 6"
abbreviation PRIV_SPEC :: u32 where "PRIV_SPEC \<equiv> 8"
abbreviation PRIV_SPEC_MINOR :: u32 where "PRIV_SPEC_MINOR \<equiv> 10"
abbreviation PRIV_SPEC_REVISION :: u32 where "PRIV_SPEC_REVISION \<equiv> 12"

text \<open>The table of handlers; the result tells whether one took the tag.\<close>

definition displayRoutines :: "(u32 \<times> (u8 list \<Rightarrow> u32 \<Rightarrow> attr_parser \<Rightarrow> parse_result)) list" where
  "displayRoutines =
    [(ARCH, stringAttribute), (PRIV_SPEC, integerAttribute), (PRIV_SPEC_MINOR, integerAttribute),
     (PRIV_SPEC_REVISION, integerAttribute), (STACK_ALIGN, stackAlign), (UNALIGNED_ACCESS, unalignedAccess)]"

definition handler :: "u8 list \<Rightarrow> u64 \<Rightarrow> attr_parser \<Rightarrow> (attr_error option \<times> bool \<times> attr_parser) option" where
  "handler Data tag p =
    (case find (\<lambda>AH. ucast (fst AH) = tag) displayRoutines of
       None \<Rightarrow> Some (None, False, p)
     | Some AH \<Rightarrow> map_option (\<lambda>(e, p1). (e, True, p1)) (snd AH Data (ucast tag) p))"

text \<open>One round of \<open>parseAttributeList\<close>.\<close>

definition attribute_step :: "u8 list \<Rightarrow> attr_parser \<Rightarrow> parse_result" where
  "attribute_step Data p =
    (case getULEB128 Data p of
       None \<Rightarrow> None
     | Some (tag, p1) \<Rightarrow>
    (case handler Data tag p1 of
       None \<Rightarrow> None
     | Some (e, handled, p2) \<Rightarrow>
         if e \<noteq> None then Some (e, p2)
         else if \<not> handled then
           if tag < 32 then Some (Some (InvalidTag tag (Offset p)), p2)
           else if tag mod 2 = 0 then integerAttribute Data (ucast tag) p2
           else stringAttribute Data (ucast tag) p2
         else Some (None, p2)))"

section \<open>Progress\<close>

text \<open>A cursor operation never moves back; without an error it moves on.\<close>

lemma decodeULEB128_bytes: "decodeULEB128 bs = Decoded v n \<Longrightarrow> 0 < n \<and> n \<le> length bs"
  using decodeULEB128_loop_value [of bs 0 0 0 v n] by (simp add: decodeULEB128_def)

lemma getULEB128_moves:
  assumes "getULEB128 Data p = Some (v, p1)"
  shows "Offset p \<le> Offset p1" "Offset p < Offset p1 \<or> v = 0" "Offset p < Offset p1 \<or> CursorErr p1"
    "Offset p1 \<le> max (Offset p) (length Data)" "CursorErr p \<longrightarrow> CursorErr p1"
  using assms decodeULEB128_bytes [of "drop (Offset p) Data"]
  by (auto simp: getULEB128_def split: if_splits leb_result.splits)

lemma getCStrRef_moves:
  assumes "getCStrRef Data p = (s, p1)"
  shows "Offset p \<le> Offset p1" "Offset p1 \<le> max (Offset p) (length Data)" "CursorErr p \<longrightarrow> CursorErr p1"
  using assms by (auto simp: getCStrRef_def Let_def split: if_splits)

text \<open>A result that is no error, or at least does not move back.\<close>

definition moves :: "nat \<Rightarrow> u8 list \<Rightarrow> attr_parser \<Rightarrow> attr_parser \<Rightarrow> bool" where
  "moves o0 Data p p1 \<longleftrightarrow> o0 \<le> Offset p1 \<and> Offset p1 \<le> max (Offset p) (length Data) \<and> (CursorErr p \<longrightarrow> CursorErr p1)"

lemma moves_refl: "moves (Offset p) Data p p"
  by (simp add: moves_def)

lemma moves_trans: "moves o0 Data p q \<Longrightarrow> moves (Offset q) Data q r \<Longrightarrow> moves o0 Data p r"
  by (auto simp: moves_def)

lemma printAttribute_moves [simp]: "moves o0 Data p (printAttribute t v p1) \<longleftrightarrow> moves o0 Data p p1"
  by (simp add: moves_def printAttribute_def)

lemma integerAttribute_moves: "integerAttribute Data t p = Some (e, p1) \<Longrightarrow> e = None \<and> moves (Offset p) Data p p1"
  using getULEB128_moves by (fastforce simp: integerAttribute_def moves_def split: option.splits)

lemma stringAttribute_moves: "stringAttribute Data t p = Some (e, p1) \<Longrightarrow> e = None \<and> moves (Offset p) Data p p1"
  using getCStrRef_moves
  by (fastforce simp: stringAttribute_def setAttributeString_def moves_def split: prod.splits)

lemma handler_moves:
  assumes "handler Data tag p = Some (e, handled, p1)"
  shows "moves (Offset p) Data p p1" "tag = 0 \<longrightarrow> \<not> handled \<and> e = None \<and> p1 = p"
proof -
  have f: "find (\<lambda>AH. ucast (fst AH) = tag) displayRoutines =
    (if tag = 5 then Some (ARCH, stringAttribute) else if tag = 8 then Some (PRIV_SPEC, integerAttribute)
     else if tag = 10 then Some (PRIV_SPEC_MINOR, integerAttribute)
     else if tag = 12 then Some (PRIV_SPEC_REVISION, integerAttribute)
     else if tag = 4 then Some (STACK_ALIGN, stackAlign)
     else if tag = 6 then Some (UNALIGNED_ACCESS, unalignedAccess) else None)"
    by (auto simp: displayRoutines_def)
  show "moves (Offset p) Data p p1"
    using assms integerAttribute_moves [of Data _ p] stringAttribute_moves [of Data _ p] getULEB128_moves [of Data p]
    unfolding handler_def f
    by (auto simp: stackAlign_def unalignedAccess_def parseStringAttribute_def moves_def printAttribute_def
        split: if_splits option.splits; fastforce)
  show "tag = 0 \<longrightarrow> \<not> handled \<and> e = None \<and> p1 = p"
    using assms unfolding handler_def f by auto
qed

lemma attribute_step_cases:
  assumes "attribute_step Data p = Some (None, p1)"
  obtains tag pa handled pb where "getULEB128 Data p = Some (tag, pa)" "handler Data tag pa = Some (None, handled, pb)"
    "tag \<noteq> 0" "moves (Offset pb) Data pb p1"
proof -
  obtain tag pa where a: "getULEB128 Data p = Some (tag, pa)"
    using assms by (cases "getULEB128 Data p") (auto simp: attribute_step_def)
  obtain e handled pb where b: "handler Data tag pa = Some (e, handled, pb)"
    using assms a by (cases "handler Data tag pa") (auto simp: attribute_step_def)
  have e: "e = None" using assms a b by (simp add: attribute_step_def split: if_splits)
  have step: "(if \<not> handled then
      if tag < 32 then Some (Some (InvalidTag tag (Offset p)), pb)
      else if tag mod 2 = 0 then integerAttribute Data (ucast tag) pb else stringAttribute Data (ucast tag) pb
    else Some (None, pb)) = Some (None, p1)"
    using assms a b e by (simp add: attribute_step_def)
  have z: "tag \<noteq> 0" using step handler_moves(2) [OF b] by auto
  have m: "moves (Offset pb) Data pb p1"
  proof (cases handled)
    case True
    then show ?thesis using step moves_refl by simp
  next
    case False
    then show ?thesis
      using step integerAttribute_moves stringAttribute_moves by (cases "tag mod 2 = 0") (auto split: if_splits)
  qed
  show ?thesis by (rule that [OF a _ z m]) (use b e in simp)
qed

lemma attribute_step_moves:
  assumes "attribute_step Data p = Some (None, p1)"
  shows "Offset p < Offset p1" "Offset p1 \<le> max (Offset p) (length Data)" "CursorErr p \<longrightarrow> CursorErr p1"
proof -
  obtain tag pa handled pb where s: "getULEB128 Data p = Some (tag, pa)" "handler Data tag pa = Some (None, handled, pb)"
    "tag \<noteq> 0" "moves (Offset pb) Data pb p1"
    using attribute_step_cases [OF assms] .
  have "moves (Offset pa) Data pa p1" using moves_trans handler_moves(1) [OF s(2)] s(4) by blast
  moreover have "Offset p < Offset pa" using getULEB128_moves(2) [OF s(1)] s(3) by blast
  ultimately show "Offset p < Offset p1" "Offset p1 \<le> max (Offset p) (length Data)" "CursorErr p \<longrightarrow> CursorErr p1"
    using getULEB128_moves(4,5) [OF s(1)] by (auto simp: moves_def)
qed

section \<open>The loops\<close>

function attribute_loop :: "u8 list \<Rightarrow> nat \<Rightarrow> attr_parser \<Rightarrow> parse_result" where
  "attribute_loop Data stop p =
    (if Offset p < stop then
       (case attribute_step Data p of
          None \<Rightarrow> None
        | Some (Some e, p1) \<Rightarrow> Some (Some e, p1)
        | Some (None, p1) \<Rightarrow> attribute_loop Data stop p1)
     else Some (None, p))"
  by pat_completeness auto
termination
  by (relation "measure (\<lambda>(Data, stop, p). stop - Offset p)") (auto dest: attribute_step_moves(1))

declare attribute_loop.simps [simp del]

definition parseAttributeList :: "u8 list \<Rightarrow> u32 \<Rightarrow> attr_parser \<Rightarrow> parse_result" where
  "parseAttributeList Data len p = attribute_loop Data (Offset p + unat len) p"

function index_loop :: "u8 list \<Rightarrow> u8 list \<Rightarrow> attr_parser \<Rightarrow> (u8 list \<times> attr_parser) option" where
  "index_loop Data indexList p =
    (case getULEB128 Data p of
       None \<Rightarrow> None
     | Some (v, p1) \<Rightarrow>
         if CursorErr p1 \<or> v = 0 then Some (indexList, p1)
         else index_loop Data (indexList @ [ucast v]) p1)"
  by pat_completeness auto
termination
proof (relation "measure (\<lambda>(Data, indexList, p). length Data - Offset p)")
  fix Data :: "u8 list" and indexList p r v p1
  assume a: "getULEB128 Data p = Some r" "(v, p1) = r" "\<not> (CursorErr p1 \<or> v = 0)"
  then have "Offset p < Offset p1" "Offset p1 \<le> max (Offset p) (length Data)"
    using getULEB128_moves [of Data p v p1] by auto
  then show "((Data, indexList @ [ucast v], p1), Data, indexList, p) \<in>
    measure (\<lambda>(Data, indexList, p). length Data - Offset p)" by auto
qed simp

declare index_loop.simps [simp del]

definition parseIndexList :: "u8 list \<Rightarrow> attr_parser \<Rightarrow> (u8 list \<times> attr_parser) option" where
  "parseIndexList Data p = index_loop Data [] p"

abbreviation File_tag :: u8 where "File_tag \<equiv> 1"
abbreviation Section_tag :: u8 where "Section_tag \<equiv> 2"
abbreviation Symbol_tag :: u8 where "Symbol_tag \<equiv> 3"

text \<open>One round of \<open>parseSubsection\<close>, up to the attribute list.\<close>

definition scope_step :: "u8 list \<Rightarrow> bool \<Rightarrow> attr_parser \<Rightarrow> parse_result" where
  "scope_step Data endian p =
    (let (tag, p1) = getU8 Data p; (sz, p2) = getU32 Data endian p1
     in if CursorErr p2 then Some (Some CursorError, p2)
        else if sz < 5 then Some (Some (InvalidSize sz (Offset p2 - 5)), p2)
        else if tag = File_tag then parseAttributeList Data (sz - 5) p2
        else if tag \<in> {Section_tag, Symbol_tag} then
          (case parseIndexList Data p2 of
             None \<Rightarrow> None
           | Some (indicies, p3) \<Rightarrow> parseAttributeList Data (sz - 5) p3)
        else Some (Some (UnrecognizedTag tag (Offset p2 - 5)), p2))"

lemma attribute_loop_moves:
  "attribute_loop Data stop p = Some (e, p1) \<Longrightarrow> e = None \<Longrightarrow>
   Offset p \<le> Offset p1 \<and> Offset p1 \<le> max (Offset p) (length Data)"
proof (induction Data stop p rule: attribute_loop.induct)
  case (1 Data stop p)
  show ?case
  proof (cases "Offset p < stop")
    case True
    then obtain pa where a: "attribute_step Data p = Some (None, pa)" "attribute_loop Data stop pa = Some (e, p1)"
      using "1.prems" by (subst (asm) attribute_loop.simps) (auto split: option.splits)
    show ?thesis
      using "1.IH" [OF True a(1) refl refl a(2) "1.prems"(2)] attribute_step_moves(1,2) [OF a(1)] by linarith
  next
    case False
    then show ?thesis using "1.prems" by (subst (asm) attribute_loop.simps) simp
  qed
qed

lemma index_loop_moves:
  "index_loop Data l p = Some (l', p1) \<Longrightarrow> Offset p \<le> Offset p1 \<and> Offset p1 \<le> max (Offset p) (length Data)"
proof (induction Data l p rule: index_loop.induct)
  case (1 Data l p)
  obtain v pa where a: "getULEB128 Data p = Some (v, pa)"
    using "1.prems" by (subst (asm) index_loop.simps) (auto split: option.splits)
  note m = getULEB128_moves [OF a]
  show ?case
  proof (cases "CursorErr pa \<or> v = 0")
    case True
    then show ?thesis using "1.prems" a m by (subst (asm) index_loop.simps) auto
  next
    case False
    then have "index_loop Data (l @ [ucast v]) pa = Some (l', p1)"
      using "1.prems" a by (subst (asm) index_loop.simps) simp
    then show ?thesis using "1.IH" [OF a refl False] m by auto
  qed
qed

lemma scope_step_moves:
  assumes "scope_step Data endian p = Some (None, p1)"
  shows "Offset p < Offset p1" "Offset p1 \<le> length Data"
proof -
  obtain tag pa where a: "getU8 Data p = (tag, pa)" by fastforce
  obtain sz pb where b: "getU32 Data endian pa = (sz, pb)" by fastforce
  have ne: "\<not> CursorErr pb" using assms a b by (auto simp: scope_step_def)
  then have o: "Offset pb = Offset p + 5" "Offset pb \<le> length Data"
    using a b by (auto simp: getU8_def getU32_def Let_def split: if_splits)
  have "Offset pb \<le> Offset p1 \<and> Offset p1 \<le> max (Offset pb) (length Data)"
    using assms a b ne attribute_loop_moves [of Data _ pb None p1] index_loop_moves [of Data "[]" pb]
      attribute_loop_moves [of Data _ _ None p1]
    by (auto simp: scope_step_def parseAttributeList_def parseIndexList_def split: if_splits option.splits; fastforce)
  then show "Offset p < Offset p1" "Offset p1 \<le> length Data" using o by auto
qed

function scope_loop :: "u8 list \<Rightarrow> bool \<Rightarrow> nat \<Rightarrow> attr_parser \<Rightarrow> parse_result" where
  "scope_loop Data endian stop p =
    (if Offset p < stop then
       (case scope_step Data endian p of
          None \<Rightarrow> None
        | Some (Some e, p1) \<Rightarrow> Some (Some e, p1)
        | Some (None, p1) \<Rightarrow> scope_loop Data endian stop p1)
     else Some (None, p))"
  by pat_completeness auto
termination
  by (relation "measure (\<lambda>(Data, endian, stop, p). stop - Offset p)") (auto dest: scope_step_moves(1))

declare scope_loop.simps [simp del]

definition toLower :: "u8 \<Rightarrow> u8" where
  "toLower x = (if 65 \<le> x \<and> x \<le> 90 then x - 65 + 97 else x)"

text \<open>The vendor of a RISC-V section.\<close>

definition vendor :: "u8 list" where
  "vendor = [0x72, 0x69, 0x73, 0x63, 0x76]"

definition parseSubsection :: "u8 list \<Rightarrow> bool \<Rightarrow> u32 \<Rightarrow> attr_parser \<Rightarrow> parse_result" where
  "parseSubsection Data endian len p =
    (let stop = Offset p - 4 + unat len; (vendorName, p1) = getCStrRef Data p
     in if map toLower vendorName \<noteq> vendor then Some (None, p1\<lparr>Offset := stop\<rparr>)
        else scope_loop Data endian stop p1)"

lemma scope_loop_moves:
  "scope_loop Data endian stop p = Some (None, p1) \<Longrightarrow> Offset p \<le> Offset p1"
proof (induction Data endian stop p rule: scope_loop.induct)
  case (1 Data endian stop p)
  show ?case
  proof (cases "Offset p < stop")
    case True
    then obtain pa where a: "scope_step Data endian p = Some (None, pa)" "scope_loop Data endian stop pa = Some (None, p1)"
      using "1.prems" by (subst (asm) scope_loop.simps) (auto split: option.splits)
    show ?thesis
      using "1.IH" [OF True a(1) refl refl a(2)] scope_step_moves(1) [OF a(1)] by linarith
  next
    case False
    then show ?thesis using "1.prems" by (subst (asm) scope_loop.simps) simp
  qed
qed

lemma parseSubsection_moves:
  assumes "parseSubsection Data endian len p = Some (None, p1)" "4 \<le> len"
  shows "Offset p \<le> Offset p1"
proof -
  obtain s pa where a: "getCStrRef Data p = (s, pa)" by fastforce
  have "4 \<le> unat len" using assms(2) by (simp add: word_le_nat_alt)
  then show ?thesis
    using assms(1) a getCStrRef_moves(1) [OF a] scope_loop_moves [of Data endian "Offset p - 4 + unat len" pa p1]
    by (auto simp: parseSubsection_def Let_def split: if_splits)
qed

function section_loop :: "u8 list \<Rightarrow> bool \<Rightarrow> attr_parser \<Rightarrow> parse_result" where
  "section_loop Data endian p =
    (if Offset p \<noteq> length Data then
       let (sectionLength, p1) = getU32 Data endian p
       in if CursorErr p1 then Some (Some CursorError, p1)
          else if sectionLength < 4 \<or> Offset p1 - 4 + unat sectionLength > length Data
          then Some (Some (InvalidSectionLength sectionLength (Offset p1 - 4)), p1)
          else case parseSubsection Data endian sectionLength p1 of
              None \<Rightarrow> None
            | Some (Some e, p2) \<Rightarrow> Some (Some e, p2)
            | Some (None, p2) \<Rightarrow> section_loop Data endian p2
     else Some (if CursorErr p then Some CursorError else None, p))"
  by pat_completeness auto
termination
proof (relation "measure (\<lambda>(Data, endian, p). length Data - Offset p)")
  fix Data :: "u8 list" and endian p r len p1 q e p2
  assume a: "Offset p \<noteq> length Data" "r = getU32 Data endian p" "(len, p1) = r" "\<not> CursorErr p1"
    "\<not> (len < 4 \<or> length Data < Offset p1 - 4 + unat len)" "parseSubsection Data endian len p1 = Some q"
    "(e, p2) = q" "e = None"
  then have "Offset p1 \<le> Offset p2" using parseSubsection_moves [of Data endian len p1 p2] by auto
  moreover have "Offset p1 = Offset p + 4" "Offset p + 4 \<le> length Data"
    using a(2-4) by (auto simp: getU32_def Let_def split: if_splits)
  ultimately show "((Data, endian, p2), Data, endian, p) \<in> measure (\<lambda>(Data, endian, p). length Data - Offset p)"
    by auto
qed simp

declare section_loop.simps [simp del]

definition parse_attributes :: "u8 list \<Rightarrow> bool \<Rightarrow> attr_parser \<Rightarrow> parse_result" where
  "parse_attributes Data endian p =
    (let (formatVersion, p1) = getU8 Data p
     in if formatVersion \<noteq> 0x41 then Some (Some (BadFormatVersion formatVersion), p1)
        else section_loop Data endian p1)"

definition getAttributeValue :: "attr_parser \<Rightarrow> u32 \<Rightarrow> u32 option" where
  "getAttributeValue p tag = attributes p tag"

definition getAttributeString :: "attr_parser \<Rightarrow> u32 \<Rightarrow> u8 list option" where
  "getAttributeString p tag = attributesStr p tag"

end
