(* ===== verification/RVAttributes.thy ===== *)
theory RVAttributes
  imports ISAInfo ELFAttributes
begin

text \<open>
  The build attributes of the output file, \<open>lld/ELF/Arch/RISCV.cpp\<close> from \<open>mergeArch\<close> on: the
  attribute sections of the inputs are parsed, their tags merged, the merged ISA completed and
  checked, and the result written as one section.

  The two hash maps of the section are lists of entries in the order of their iteration, new keys
  at the end; what is proved of the output holds for any order. A message is a constructor that
  names the input section by its index. \<open>None\<close> is an undefined step of the parsers, or a write
  outside the section.
\<close>

section \<open>State\<close>

datatype merge_diag =
    ParseWarning nat attr_error | ArchError nat isa_error | StackAlignMismatch nat u32 "nat option" u32
  | MergedArchError isa_error

record RISCVAttributesSection =
  intAttr :: "(u32 \<times> u32) list"
  strAttr :: "(u32 \<times> u8 list) list"
  sec_size :: nat

record merge_state =
  merged_exts :: "(ext_name \<times> version) list"
  merged_xlen :: u32
  hasArch :: bool
  firstStackAlign :: "nat option"
  firstStackAlignValue :: u32
  merged :: RISCVAttributesSection
  messages :: "merge_diag list"

definition bytes_string :: "u8 list \<Rightarrow> string" where
  "bytes_string = map (\<lambda>b. char_of (unat b))"

definition string_bytes :: "string \<Rightarrow> u8 list" where
  "string_bytes = map (\<lambda>c. of_nat (of_char c))"

text \<open>\<open>try_emplace\<close>: whether the key is new, the entry of the key, and the map.\<close>

definition try_emplace :: "('k \<times> 'v) list \<Rightarrow> 'k \<Rightarrow> 'v \<Rightarrow> bool \<times> 'v \<times> ('k \<times> 'v) list" where
  "try_emplace m k v =
    (case map_of m k of Some v' \<Rightarrow> (False, v', m) | None \<Rightarrow> (True, v, m @ [(k, v)]))"

definition set_entry :: "('k \<times> 'v) list \<Rightarrow> 'k \<Rightarrow> 'v \<Rightarrow> ('k \<times> 'v) list" where
  "set_entry m k v =
    (if k \<in> fst ` set m then map (\<lambda>e. if fst e = k then (k, v) else e) m else m @ [(k, v)])"

section \<open>Merging\<close>

definition version_ge :: "version \<Rightarrow> version \<Rightarrow> bool" where
  "version_ge a b \<longleftrightarrow> fst a > fst b \<or> fst a = fst b \<and> snd a \<ge> snd b"

fun ext_find :: "'k::linorder \<Rightarrow> ('k \<times> 'v) list \<Rightarrow> 'v option" where
  "ext_find k [] = None"
| "ext_find k ((k', v') # m) = (if k' < k then ext_find k m else if k < k' then None else Some v')"

text \<open>One extension of an input: kept if it is new or at a higher version.\<close>

definition merge_ext :: "(ext_name \<times> version) list \<Rightarrow> ext_name \<times> version \<Rightarrow> (ext_name \<times> version) list" where
  "merge_ext mergedExts ext =
    (case ext_find (fst ext) mergedExts of
       Some v \<Rightarrow> if version_ge v (snd ext) then mergedExts else ext_put (fst ext) (snd ext) mergedExts
     | None \<Rightarrow> ext_put (fst ext) (snd ext) mergedExts)"

definition mergeArch ::
  "(ext_name \<times> version) list \<Rightarrow> u32 \<Rightarrow> string \<Rightarrow> ((ext_name \<times> version) list \<times> u32 \<times> isa_error option) option" where
  "mergeArch mergedExts mergedXlen s =
    (case parseNormalizedArchString s of
       outcome.Undefined \<Rightarrow> None
     | Failure e \<Rightarrow> Some (mergedExts, mergedXlen, Some e)
     | Success info \<Rightarrow>
         if mergedExts = [] then Some (Exts info, XLen info, None)
         else Some (foldl merge_ext mergedExts (Exts info), mergedXlen, None))"

definition attributesTags :: "u32 list" where
  "attributesTags = [STACK_ALIGN, ARCH, UNALIGNED_ACCESS, PRIV_SPEC, PRIV_SPEC_MINOR, PRIV_SPEC_REVISION]"

text \<open>The cases of the loop over the tags, for the parser of the section \<open>sec\<close>.\<close>

definition merge_stack_align :: "nat \<Rightarrow> u32 \<Rightarrow> u32 option \<Rightarrow> merge_state \<Rightarrow> merge_state" where
  "merge_stack_align sec tag v st =
    (case v of
       None \<Rightarrow> st
     | Some i \<Rightarrow>
         let (new, old, m) = try_emplace (intAttr (merged st)) tag i
         in if new then st\<lparr>merged := (merged st)\<lparr>intAttr := m\<rparr>, firstStackAlign := Some sec, firstStackAlignValue := i\<rparr>
            else if old \<noteq> i then
              st\<lparr>messages := messages st @ [StackAlignMismatch sec i (firstStackAlign st) (firstStackAlignValue st)]\<rparr>
            else st)"

definition merge_unaligned :: "u32 \<Rightarrow> u32 option \<Rightarrow> merge_state \<Rightarrow> merge_state" where
  "merge_unaligned tag v st =
    (case v of
       None \<Rightarrow> st
     | Some i \<Rightarrow>
         let old = (case map_of (intAttr (merged st)) tag of None \<Rightarrow> 0 | Some x \<Rightarrow> x)
         in st\<lparr>merged := (merged st)\<lparr>intAttr := set_entry (intAttr (merged st)) tag (old OR i)\<rparr>\<rparr>)"

definition merge_arch :: "nat \<Rightarrow> u8 list option \<Rightarrow> merge_state \<Rightarrow> merge_state option" where
  "merge_arch sec v st =
    (case v of
       None \<Rightarrow> Some st
     | Some s \<Rightarrow>
        (case mergeArch (merged_exts st) (merged_xlen st) (bytes_string s) of
           None \<Rightarrow> None
         | Some (exts, xlen, e) \<Rightarrow>
             Some (st\<lparr>hasArch := True, merged_exts := exts, merged_xlen := xlen,
                      messages := messages st @ (case e of None \<Rightarrow> [] | Some x \<Rightarrow> [ArchError sec x])\<rparr>)))"

text \<open>The fallback: a value stays if all sections agree, and becomes 0 or empty otherwise.\<close>

definition merge_default :: "u32 \<Rightarrow> attr_parser \<Rightarrow> merge_state \<Rightarrow> merge_state" where
  "merge_default tag parser st =
    (if tag mod 2 = 0 then
       (case getAttributeValue parser tag of
          None \<Rightarrow> st
        | Some i \<Rightarrow>
            let (new, old, m) = try_emplace (intAttr (merged st)) tag i
            in st\<lparr>merged := (merged st)\<lparr>intAttr := if \<not> new \<and> old \<noteq> i then set_entry m tag 0 else m\<rparr>\<rparr>)
     else
       (case getAttributeString parser tag of
          None \<Rightarrow> st
        | Some s \<Rightarrow>
            let (new, old, m) = try_emplace (strAttr (merged st)) tag s
            in st\<lparr>merged := (merged st)\<lparr>strAttr := if \<not> new \<and> old \<noteq> s then set_entry m tag [] else m\<rparr>\<rparr>))"

definition merge_tag :: "nat \<Rightarrow> attr_parser \<Rightarrow> u32 \<Rightarrow> merge_state \<Rightarrow> merge_state option" where
  "merge_tag sec parser tag st =
    (if tag = STACK_ALIGN then Some (merge_stack_align sec tag (getAttributeValue parser tag) st)
     else if tag = UNALIGNED_ACCESS then Some (merge_unaligned tag (getAttributeValue parser tag) st)
     else if tag = ARCH then merge_arch sec (getAttributeString parser tag) st
     else Some (merge_default tag parser st))"

fun merge_tags :: "nat \<Rightarrow> attr_parser \<Rightarrow> u32 list \<Rightarrow> merge_state \<Rightarrow> merge_state option" where
  "merge_tags sec parser [] st = Some st"
| "merge_tags sec parser (tag # tags) st =
    (case merge_tag sec parser tag st of None \<Rightarrow> None | Some st' \<Rightarrow> merge_tags sec parser tags st')"

fun merge_sections :: "nat \<Rightarrow> u8 list list \<Rightarrow> merge_state \<Rightarrow> merge_state option" where
  "merge_sections sec [] st = Some st"
| "merge_sections sec (Data # sections) st =
    (case parse_attributes Data True new_parser of
       None \<Rightarrow> None
     | Some (e, parser) \<Rightarrow>
        (case merge_tags sec parser attributesTags
                (st\<lparr>messages := messages st @ (case e of None \<Rightarrow> [] | Some x \<Rightarrow> [ParseWarning sec x])\<rparr>) of
           None \<Rightarrow> None
         | Some st' \<Rightarrow> merge_sections (Suc sec) sections st'))"

text \<open>The size of the headers and of every entry that is written.\<close>

definition int_size :: "u32 \<times> u32 \<Rightarrow> nat" where
  "int_size attr =
    (if snd attr \<noteq> 0 then getULEB128Size (ucast (fst attr)) + getULEB128Size (ucast (snd attr)) else 0)"

definition str_size :: "u32 \<times> u8 list \<Rightarrow> nat" where
  "str_size attr =
    (if snd attr \<noteq> [] then getULEB128Size (ucast (fst attr)) + length (snd attr) + 1 else 0)"

definition set_size :: "RISCVAttributesSection \<Rightarrow> RISCVAttributesSection" where
  "set_size s =
    s\<lparr>sec_size := 5 + length vendor + 1 + 5 + sum_list (map int_size (intAttr s)) + sum_list (map str_size (strAttr s))\<rparr>"

definition empty_section :: RISCVAttributesSection where
  "empty_section = \<lparr>intAttr = [], strAttr = [], sec_size = 0\<rparr>"

definition empty_merge :: merge_state where
  "empty_merge = \<lparr>merged_exts = [], merged_xlen = 0, hasArch = False, firstStackAlign = None,
    firstStackAlignValue = 0, merged = empty_section, messages = []\<rparr>"

definition mergeAttributesSection ::
  "u8 list list \<Rightarrow> (RISCVAttributesSection \<times> merge_diag list) option" where
  "mergeAttributesSection sections =
    (case merge_sections 0 sections empty_merge of
       None \<Rightarrow> None
     | Some st \<Rightarrow>
         if hasArch st then
           (case postProcessAndChecking ((new_info (merged_xlen st))\<lparr>Exts := merged_exts st\<rparr>) of
              outcome.Undefined \<Rightarrow> None
            | Success result \<Rightarrow>
                let (new, old, m) = try_emplace (strAttr (merged st)) ARCH (string_bytes (toString result))
                in Some (set_size ((merged st)\<lparr>strAttr := m\<rparr>), messages st)
            | Failure e \<Rightarrow> Some (set_size (merged st), messages st @ [MergedArchError e]))
         else Some (set_size (merged st), messages st))"

section \<open>Writing\<close>

text \<open>Bytes stored from a position of the buffer on.\<close>

definition put_bytes :: "u8 list \<Rightarrow> nat \<Rightarrow> u8 list \<Rightarrow> u8 list option" where
  "put_bytes buf pos bs =
    (if pos + length bs \<le> length buf then Some (take pos buf @ bs @ drop (pos + length bs) buf) else None)"

fun write_ints :: "(u32 \<times> u32) list \<Rightarrow> u8 list \<Rightarrow> nat \<Rightarrow> (u8 list \<times> nat) option" where
  "write_ints [] buf pos = Some (buf, pos)"
| "write_ints (attr # attrs) buf pos =
    (if snd attr = 0 then write_ints attrs buf pos
     else
       let (bs1, n1) = encodeULEB128_buf (ucast (fst attr)) 0; (bs2, n2) = encodeULEB128_buf (ucast (snd attr)) 0
       in case put_bytes buf pos bs1 of
           None \<Rightarrow> None
         | Some buf1 \<Rightarrow>
          (case put_bytes buf1 (pos + n1) bs2 of
             None \<Rightarrow> None
           | Some buf2 \<Rightarrow> write_ints attrs buf2 (pos + n1 + n2)))"

fun write_strs :: "(u32 \<times> u8 list) list \<Rightarrow> u8 list \<Rightarrow> nat \<Rightarrow> (u8 list \<times> nat) option" where
  "write_strs [] buf pos = Some (buf, pos)"
| "write_strs (attr # attrs) buf pos =
    (if snd attr = [] then write_strs attrs buf pos
     else
       let (bs1, n1) = encodeULEB128_buf (ucast (fst attr)) 0
       in case put_bytes buf pos bs1 of
           None \<Rightarrow> None
         | Some buf1 \<Rightarrow>
          (case put_bytes buf1 (pos + n1) (snd attr) of
             None \<Rightarrow> None
           | Some buf2 \<Rightarrow> write_strs attrs buf2 (pos + n1 + length (snd attr) + 1)))"

definition write_headers :: "nat \<Rightarrow> u8 list \<Rightarrow> u8 list option" where
  "write_headers sz buf =
    (case put_bytes buf 0 (0x41 # mem_bytes (of_nat (sz - 1) :: u32)) of
       None \<Rightarrow> None
     | Some buf1 \<Rightarrow>
      (case put_bytes buf1 5 vendor of
         None \<Rightarrow> None
       | Some buf2 \<Rightarrow>
           put_bytes buf2 (5 + length vendor + 1)
             (File_tag # mem_bytes (of_nat (sz - (5 + length vendor + 1)) :: u32))))"

definition writeTo :: "RISCVAttributesSection \<Rightarrow> u8 list \<Rightarrow> u8 list option" where
  "writeTo s buf =
    (case write_headers (sec_size s) buf of
       None \<Rightarrow> None
     | Some buf1 \<Rightarrow>
      (case write_ints (intAttr s) buf1 (5 + length vendor + 1 + 5) of
         None \<Rightarrow> None
       | Some (buf2, pos) \<Rightarrow> map_option fst (write_strs (strAttr s) buf2 pos)))"

section \<open>In the list of input sections\<close>

datatype input_section = AttrSection "u8 list" | MergedSection RISCVAttributesSection | OtherSection nat

definition is_attr :: "input_section \<Rightarrow> bool" where
  "is_attr s \<longleftrightarrow> (case s of OtherSection _ \<Rightarrow> False | _ \<Rightarrow> True)"

definition attr_content :: "input_section \<Rightarrow> u8 list" where
  "attr_content s = (case s of AttrSection d \<Rightarrow> d | _ \<Rightarrow> [])"

definition mergeRISCVAttributesSections :: "input_section list \<Rightarrow> (input_section list \<times> merge_diag list) option" where
  "mergeRISCVAttributesSections inputSections =
    (let place = length (takeWhile (\<lambda>s. \<not> is_attr s) inputSections)
     in if place = length inputSections then Some (inputSections, [])
        else
          let sections = filter is_attr inputSections; rest = filter (\<lambda>s. \<not> is_attr s) inputSections
          in case mergeAttributesSection (map attr_content sections) of
              None \<Rightarrow> None
            | Some (s, ms) \<Rightarrow> Some (take place rest @ MergedSection s # drop place rest, ms))"

end
