(* ===== verification/RVAttributesSound.thy ===== *)
theory RVAttributesSound
  imports RVAttributes ISAInfoSound RVRelocSound "HOL-Library.Multiset"
begin

text \<open>
  What the merged attribute section promises: it is exactly as long as announced, the parser reads
  back the entries that were merged, and the merged ISA has the highest version of every extension
  of the inputs, whatever their order.
\<close>

section \<open>The bytes written\<close>

definition uleb :: "u64 \<Rightarrow> u8 list" where
  "uleb v = fst (encodeULEB128 v 0)"

definition int_bytes :: "u32 \<times> u32 \<Rightarrow> u8 list" where
  "int_bytes attr = (if snd attr = 0 then [] else uleb (ucast (fst attr)) @ uleb (ucast (snd attr)))"

definition str_bytes :: "u32 \<times> u8 list \<Rightarrow> u8 list" where
  "str_bytes attr = (if snd attr = [] then [] else uleb (ucast (fst attr)) @ snd attr @ [0])"

definition body_bytes :: "RISCVAttributesSection \<Rightarrow> u8 list" where
  "body_bytes s = concat (map int_bytes (intAttr s)) @ concat (map str_bytes (strAttr s))"

definition section_bytes :: "RISCVAttributesSection \<Rightarrow> u8 list" where
  "section_bytes s =
    0x41 # mem_bytes (of_nat (length (body_bytes s) + 15) :: u32) @ vendor @ [0] @
    File_tag # mem_bytes (of_nat (length (body_bytes s) + 5) :: u32) @ body_bytes s"

lemma length_int_bytes: "length (int_bytes attr) = int_size attr"
  by (simp add: int_bytes_def int_size_def uleb_def getULEB128Size_length)

lemma length_str_bytes: "length (str_bytes attr) = str_size attr"
  by (simp add: str_bytes_def str_size_def uleb_def getULEB128Size_length)

lemma length_concat_map: "length (concat (map f xs)) = sum_list (map (\<lambda>x. length (f x)) xs)"
  by (induction xs) auto

lemma sec_size_set_size: "sec_size (set_size s) = 16 + length (body_bytes s)"
  by (simp add: set_size_def body_bytes_def length_concat_map length_int_bytes length_str_bytes vendor_def)

lemma put_bytes_append:
  "n = length bs \<Longrightarrow> n \<le> k \<Longrightarrow> put_bytes (pre @ replicate k 0) (length pre) bs = Some ((pre @ bs) @ replicate (k - n) 0)"
  by (simp add: put_bytes_def)

lemma write_ints_bytes:
  assumes "length (concat (map int_bytes attrs)) \<le> k"
  shows "write_ints attrs (pre @ replicate k 0) (length pre) =
    Some ((pre @ concat (map int_bytes attrs)) @ replicate (k - length (concat (map int_bytes attrs))) 0,
          length pre + length (concat (map int_bytes attrs)))"
  using assms
proof (induction attrs arbitrary: pre k)
  case (Cons attr attrs)
  let ?a = "uleb (ucast (fst attr))" and ?b = "uleb (ucast (snd attr))"
  show ?case
  proof (cases "snd attr = 0")
    case True
    then show ?thesis using Cons by (simp add: int_bytes_def)
  next
    case False
    then have i: "int_bytes attr = ?a @ ?b" by (simp add: int_bytes_def)
    have e: "encodeULEB128_buf (ucast x) 0 = (uleb (ucast x), length (uleb (ucast x)))" for x :: u32
      by (simp add: encodeULEB128_buf_0 uleb_def)
    have p1: "put_bytes (pre @ replicate k 0) (length pre) ?a = Some ((pre @ ?a) @ replicate (k - length ?a) 0)"
      using Cons.prems i by (intro put_bytes_append) simp_all
    have p2: "put_bytes ((pre @ ?a) @ replicate (k - length ?a) 0) (length (pre @ ?a)) ?b =
      Some (((pre @ ?a) @ ?b) @ replicate (k - length ?a - length ?b) 0)"
      using Cons.prems i by (intro put_bytes_append) simp_all
    have w: "write_ints (attr # attrs) (pre @ replicate k 0) (length pre) =
      write_ints attrs (((pre @ ?a) @ ?b) @ replicate (k - length ?a - length ?b) 0) (length ((pre @ ?a) @ ?b))"
      using p1 p2 False by (simp add: e add.assoc)
    show ?thesis
      unfolding w by (subst Cons.IH) (use Cons.prems i in \<open>simp_all add: add.assoc\<close>)
  qed
qed simp

lemma write_strs_bytes:
  assumes "length (concat (map str_bytes attrs)) \<le> k"
  shows "write_strs attrs (pre @ replicate k 0) (length pre) =
    Some ((pre @ concat (map str_bytes attrs)) @ replicate (k - length (concat (map str_bytes attrs))) 0,
          length pre + length (concat (map str_bytes attrs)))"
  using assms
proof (induction attrs arbitrary: pre k)
  case (Cons attr attrs)
  let ?a = "uleb (ucast (fst attr))" and ?b = "snd attr"
  show ?case
  proof (cases "?b = []")
    case True
    then show ?thesis using Cons by (simp add: str_bytes_def)
  next
    case False
    then have i: "str_bytes attr = ?a @ ?b @ [0]" by (simp add: str_bytes_def)
    have e: "encodeULEB128_buf (ucast x) 0 = (uleb (ucast x), length (uleb (ucast x)))" for x :: u32
      by (simp add: encodeULEB128_buf_0 uleb_def)
    have k: "length ?a + length ?b + 1 \<le> k" using Cons.prems i by simp
    then obtain j where j: "k - length ?a - length ?b = Suc j" by (cases "k - length ?a - length ?b") auto
    have p1: "put_bytes (pre @ replicate k 0) (length pre) ?a = Some ((pre @ ?a) @ replicate (k - length ?a) 0)"
      using k by (intro put_bytes_append) simp_all
    have p2: "put_bytes ((pre @ ?a) @ replicate (k - length ?a) 0) (length (pre @ ?a)) ?b =
      Some (((pre @ ?a) @ ?b) @ replicate (k - length ?a - length ?b) 0)"
      using k by (intro put_bytes_append) simp_all
    have "replicate (k - length ?a - length ?b) 0 = (0 :: u8) # replicate j 0"
      by (simp only: j replicate_Suc)
    then have "((pre @ ?a) @ ?b) @ replicate (k - length ?a - length ?b) 0 = (pre @ ?a @ ?b @ [0]) @ replicate j 0"
      by simp
    then have w: "write_strs (attr # attrs) (pre @ replicate k 0) (length pre) =
      write_strs attrs ((pre @ ?a @ ?b @ [0]) @ replicate j 0) (length (pre @ ?a @ ?b @ [0]))"
      using p1 p2 False by (simp add: e add.assoc)
    show ?thesis
      unfolding w by (subst Cons.IH) (use Cons.prems i j in \<open>simp_all add: add.assoc\<close>)
  qed
qed simp

lemma write_headers_bytes:
  assumes "sz = 16 + n" 
  shows "write_headers sz (replicate sz 0) =
    Some ((0x41 # mem_bytes (of_nat (n + 15) :: u32) @ vendor @ [0] @
      File_tag # mem_bytes (of_nat (n + 5) :: u32)) @ replicate n 0)"
proof -
  let ?h = "0x41 # mem_bytes (of_nat (n + 15) :: u32)"
  have p1: "put_bytes (replicate sz 0) 0 ?h = Some (?h @ replicate (n + 11) 0)"
    using put_bytes_append [of 5 ?h sz "[]"] assms by simp
  have p2: "put_bytes (?h @ replicate (n + 11) 0) 5 vendor = Some ((?h @ vendor) @ replicate (n + 6) 0)"
    using put_bytes_append [of 5 vendor "n + 11" ?h] by (simp add: vendor_def)
  have "(?h @ vendor) @ replicate (n + 6) 0 = (?h @ vendor @ [0]) @ replicate (n + 5) 0"
    by (simp add: numeral_eq_Suc)
  moreover have "put_bytes ((?h @ vendor @ [0]) @ replicate (n + 5) 0) 11 (File_tag # mem_bytes (of_nat (n + 5) :: u32)) =
    Some (((?h @ vendor @ [0]) @ File_tag # mem_bytes (of_nat (n + 5) :: u32)) @ replicate n 0)"
    using put_bytes_append [of 5 "File_tag # mem_bytes (of_nat (n + 5) :: u32)" "n + 5" "?h @ vendor @ [0]"]
    by (simp add: vendor_def)
  moreover have "sz - 1 = n + 15" "sz - 11 = n + 5" using assms by simp_all
  ultimately show ?thesis
    using p1 p2 by (simp add: write_headers_def vendor_def)
qed

lemma writeTo_bytes:
  assumes "sec_size s = 16 + length (body_bytes s)"
  shows "writeTo s (replicate (sec_size s) 0) = Some (section_bytes s)"
proof -
  let ?h = "0x41 # mem_bytes (of_nat (length (body_bytes s) + 15) :: u32) @ vendor @ [0] @
    File_tag # mem_bytes (of_nat (length (body_bytes s) + 5) :: u32)"
  let ?i = "concat (map int_bytes (intAttr s))" and ?s = "concat (map str_bytes (strAttr s))"
  have n: "length (body_bytes s) = length ?i + length ?s" by (simp add: body_bytes_def)
  have h: "length ?h = 16" "5 + length vendor + 1 + 5 = 16" by (simp_all add: vendor_def)
  have "write_ints (intAttr s) (?h @ replicate (length (body_bytes s)) 0) (length ?h) =
    Some ((?h @ ?i) @ replicate (length ?s) 0, length (?h @ ?i))"
    using n by (subst write_ints_bytes) simp_all
  moreover have "write_strs (strAttr s) ((?h @ ?i) @ replicate (length ?s) 0) (length (?h @ ?i)) =
    Some ((?h @ ?i) @ ?s, length (?h @ ?i) + length ?s)"
    by (subst write_strs_bytes) simp_all
  ultimately show ?thesis
    unfolding writeTo_def write_headers_bytes [OF assms] h(2)
    using h(1) by (simp add: section_bytes_def body_bytes_def)
qed

section \<open>Reading them back\<close>

text \<open>The entries the parser takes: a tag it knows or one from 32 on, of the parity that goes with
  the kind of value; strings without a zero byte.\<close>

definition int_entry_ok :: "u32 \<times> u32 \<Rightarrow> bool" where
  "int_entry_ok attr \<longleftrightarrow>
    fst attr \<in> {STACK_ALIGN, PRIV_SPEC, PRIV_SPEC_MINOR, PRIV_SPEC_REVISION} \<or>
    fst attr = UNALIGNED_ACCESS \<and> snd attr < 2 \<or> fst attr \<ge> 32 \<and> even (unat (fst attr))"

definition str_entry_ok :: "u32 \<times> u8 list \<Rightarrow> bool" where
  "str_entry_ok attr \<longleftrightarrow> (fst attr = ARCH \<or> fst attr \<ge> 32 \<and> odd (unat (fst attr))) \<and> 0 \<notin> set (snd attr)"

lemma uleb_nonempty: "uleb v \<noteq> []"
  using decodeULEB128_encoded [of 0 v "[]"] by (auto simp: uleb_def decodeULEB128_def)

lemma drop_after: "drop n xs = a @ b \<Longrightarrow> drop (n + length a) xs = b"
  by (metis add.commute append_eq_conv_conj drop_drop)

lemma getULEB128_uleb:
  assumes "drop (Offset p) Data = uleb v @ rest" "\<not> CursorErr p"
  shows "getULEB128 Data p = Some (v, p\<lparr>Offset := Offset p + length (uleb v)\<rparr>)"
proof -
  have "\<not> Offset p > length Data" using assms(1) uleb_nonempty by (metis append_is_Nil_conv drop_eq_Nil less_imp_le)
  then show ?thesis
    using assms decodeULEB128_encoded [of 0 v rest] by (simp add: getULEB128_def uleb_def)
qed

lemma getCStrRef_bytes:
  assumes "drop (Offset p) Data = s @ 0 # rest" "0 \<notin> set s" "\<not> CursorErr p"
  shows "getCStrRef Data p = (s, p\<lparr>Offset := Offset p + length s + 1\<rparr>)"
proof -
  have "takeWhile (\<lambda>b. b \<noteq> 0) (s @ 0 # rest) = s" using assms(2) by (induction s) auto
  moreover have "length (drop (Offset p) Data) = length s + 1 + length rest" using assms(1) by simp
  then have "Offset p + length s < length Data" by simp
  ultimately show ?thesis using assms(1,3) by (simp add: getCStrRef_def Let_def)
qed

lemma unat_ucast_64: "unat (ucast (k :: u32) :: u64) = unat k"
proof -
  have "unat k < 2 ^ 32" using unsigned_less [of k] by simp
  then show ?thesis by (simp add: unsigned_ucast_eq take_bit_nat_eq_self_iff)
qed

lemma ucast_u32_u64 [simp]: "(ucast (ucast (k :: u32) :: u64) :: u32) = k"
  by (rule bit_word_eqI) (simp add: bit_simps)

lemma ucast_u32_u64_eq [simp]: "(ucast (k :: u32) :: u64) = ucast k' \<longleftrightarrow> k = k'"
  by (metis ucast_u32_u64)

lemma find_routine:
  "find (\<lambda>AH. ucast (fst AH) = (ucast (k :: u32) :: u64)) displayRoutines = find (\<lambda>AH. fst AH = k) displayRoutines"
  by (rule find_cong) simp_all

lemma ucast_parity: "(ucast (k :: u32) :: u64) mod 2 = 0 \<longleftrightarrow> even (unat k)"
  by (simp add: word_unat_eq_iff unat_mod unat_ucast_64 even_iff_mod_2_eq_zero)

lemma ucast_less_32: "(ucast (k :: u32) :: u64) < 32 \<longleftrightarrow> k < 32"
  by (simp add: word_less_nat_alt unat_ucast_64)

lemma big_key: "k \<ge> 32 \<Longrightarrow> k \<notin> {4, 5, 6, 8, 10, 12 :: u32}"
  by (auto simp: word_le_nat_alt)

lemma attribute_step_int:
  assumes "drop (Offset p) Data = uleb (ucast k) @ uleb (ucast v) @ rest" "\<not> CursorErr p" "int_entry_ok (k, v)"
  shows "attribute_step Data p = Some (None, p\<lparr>Offset := Offset p + length (uleb (ucast k)) + length (uleb (ucast v)),
    attributes := map_insert (attributes p) k v\<rparr>)"
proof -
  let ?p1 = "p\<lparr>Offset := Offset p + length (uleb (ucast k))\<rparr>"
  let ?p2 = "p\<lparr>Offset := Offset p + length (uleb (ucast k)) + length (uleb (ucast v))\<rparr>"
  have g1: "getULEB128 Data p = Some (ucast k, ?p1)" by (rule getULEB128_uleb [OF assms(1,2)])
  have "drop (Offset ?p1) Data = uleb (ucast v) @ rest"
    using assms(1) by (simp add: drop_after)
  then have g2: "getULEB128 Data ?p1 = Some (ucast v, ?p2)"
    using getULEB128_uleb [of ?p1 Data "ucast v" rest] assms(2) by simp
  have u: "\<not> 2 \<le> (ucast v :: u64)" if "v < 2" using that by (simp add: word_le_nat_alt word_less_nat_alt unat_ucast_64)
  consider "k = STACK_ALIGN" | "k \<in> {PRIV_SPEC, PRIV_SPEC_MINOR, PRIV_SPEC_REVISION}" | "k = UNALIGNED_ACCESS" "v < 2"
    | "k \<ge> 32" "even (unat k)" "k \<notin> {4, 5, 6, 8, 10, 12}"
    using assms(3) big_key [of k] by (auto simp: int_entry_ok_def)
  then show ?thesis
  proof cases
    case 1
    then have "handler Data (ucast k) ?p1 = Some (None, True, printAttribute k v ?p2)"
      unfolding handler_def find_routine using g2 by (simp add: displayRoutines_def stackAlign_def)
    then show ?thesis by (simp add: attribute_step_def g1 printAttribute_def)
  next
    case 2
    then have "handler Data (ucast k) ?p1 = Some (None, True, printAttribute k v ?p2)"
      unfolding handler_def find_routine
      using g2 by (auto simp: displayRoutines_def integerAttribute_def printAttribute_def)
    then show ?thesis by (simp add: attribute_step_def g1 printAttribute_def)
  next
    case 3
    then have "handler Data (ucast k) ?p1 = Some (None, True, printAttribute k v ?p2)"
      unfolding handler_def find_routine
      using g2 u by (simp add: displayRoutines_def unalignedAccess_def parseStringAttribute_def)
    then show ?thesis by (simp add: attribute_step_def g1 printAttribute_def)
  next
    case 4
    then have "handler Data (ucast k) ?p1 = Some (None, False, ?p1)"
      unfolding handler_def find_routine by (simp add: displayRoutines_def)
    then show ?thesis
      using 4 g2 by (simp add: attribute_step_def g1 ucast_less_32 ucast_parity integerAttribute_def not_less)
  qed
qed

lemma attribute_step_str:
  assumes "drop (Offset p) Data = uleb (ucast k) @ s @ 0 # rest" "\<not> CursorErr p" "str_entry_ok (k, s)"
  shows "attribute_step Data p = Some (None, p\<lparr>Offset := Offset p + length (uleb (ucast k)) + length s + 1,
    attributesStr := map_insert (attributesStr p) k s\<rparr>)"
proof -
  let ?p1 = "p\<lparr>Offset := Offset p + length (uleb (ucast k))\<rparr>"
  let ?p2 = "p\<lparr>Offset := Offset p + length (uleb (ucast k)) + length s + 1\<rparr>"
  have g1: "getULEB128 Data p = Some (ucast k, ?p1)" by (rule getULEB128_uleb [OF assms(1,2)])
  have "drop (Offset ?p1) Data = s @ 0 # rest"
    using assms(1) by (simp add: drop_after)
  then have g2: "getCStrRef Data ?p1 = (s, ?p2)"
    using getCStrRef_bytes [of ?p1 Data s rest] assms(2,3) by (simp add: str_entry_ok_def)
  consider "k = ARCH" | "k \<ge> 32" "odd (unat k)" "k \<notin> {4, 5, 6, 8, 10, 12}"
    using assms(3) big_key [of k] by (auto simp: str_entry_ok_def)
  then show ?thesis
  proof cases
    case 1
    then have "handler Data (ucast k) ?p1 = Some (None, True, setAttributeString k s ?p2)"
      unfolding handler_def find_routine using g2 by (simp add: displayRoutines_def stringAttribute_def)
    then show ?thesis by (simp add: attribute_step_def g1 setAttributeString_def)
  next
    case 2
    then have "handler Data (ucast k) ?p1 = Some (None, False, ?p1)"
      unfolding handler_def find_routine by (simp add: displayRoutines_def)
    then show ?thesis
      using 2 g2 by (simp add: attribute_step_def g1 ucast_less_32 ucast_parity stringAttribute_def
          setAttributeString_def not_less)
  qed
qed

text \<open>The whole list of attributes.\<close>

lemma map_insert_fold_int:
  "fold (\<lambda>a m. if snd a = 0 then m else map_insert m (fst a) (snd a)) xs m =
   (\<lambda>k. case m k of Some v \<Rightarrow> Some v | None \<Rightarrow> map_of (filter (\<lambda>a. snd a \<noteq> 0) xs) k)" for xs :: "('k \<times> 'v::zero) list"
  by (induction xs arbitrary: m) (auto simp: map_insert_def fun_eq_iff split: option.splits)

lemma map_insert_fold_str:
  "fold (\<lambda>a m. if snd a = [] then m else map_insert m (fst a) (snd a)) xs m =
   (\<lambda>k. case m k of Some v \<Rightarrow> Some v | None \<Rightarrow> map_of (filter (\<lambda>a. snd a \<noteq> []) xs) k)"
  by (induction xs arbitrary: m) (auto simp: map_insert_def fun_eq_iff split: option.splits)

lemma attribute_loop_ints:
  assumes "drop (Offset p) Data = concat (map int_bytes xs) @ rest" "\<not> CursorErr p" "list_all int_entry_ok xs"
    "Offset p + length (concat (map int_bytes xs)) \<le> stop"
  shows "attribute_loop Data stop p =
    attribute_loop Data stop (p\<lparr>Offset := Offset p + length (concat (map int_bytes xs)),
      attributes := fold (\<lambda>a m. if snd a = 0 then m else map_insert m (fst a) (snd a)) xs (attributes p)\<rparr>)"
  using assms
proof (induction xs arbitrary: p)
  case (Cons x xs)
  obtain k v where x: "x = (k, v)" by (cases x)
  show ?case
  proof (cases "v = 0")
    case True
    then have "int_bytes x = []" by (simp add: x int_bytes_def)
    then show ?thesis using Cons True by (simp add: x)
  next
    case False
    then have xb: "int_bytes x = uleb (ucast k) @ uleb (ucast v)" by (simp add: x int_bytes_def)
    let ?n = "length (uleb (ucast k)) + length (uleb (ucast v))"
    let ?p = "p\<lparr>Offset := Offset p + ?n, attributes := map_insert (attributes p) k v\<rparr>"
    have d: "drop (Offset p) Data = uleb (ucast k) @ uleb (ucast v) @ concat (map int_bytes xs) @ rest"
      using Cons.prems(1) False by (simp add: xb)
    have step: "attribute_step Data p = Some (None, ?p)"
      using attribute_step_int [OF d Cons.prems(2)] Cons.prems(3) by (simp add: x add.assoc)
    have "drop (Offset p + length (uleb (ucast k) @ uleb (ucast v))) Data = concat (map int_bytes xs) @ rest"
      using d by (intro drop_after) simp
    then have d': "drop (Offset ?p) Data = concat (map int_bytes xs) @ rest" by simp
    have lt: "Offset p < stop"
      using Cons.prems(4) False uleb_nonempty [of "ucast k"] by (cases "uleb (ucast k)") (simp_all add: xb)
    have "attribute_loop Data stop p = attribute_loop Data stop ?p"
      using lt step by (subst attribute_loop.simps) simp
    also have "\<dots> = attribute_loop Data stop (?p\<lparr>Offset := Offset ?p + length (concat (map int_bytes xs)),
      attributes := fold (\<lambda>a m. if snd a = 0 then m else map_insert m (fst a) (snd a)) xs (attributes ?p)\<rparr>)"
      using Cons.prems d' False by (intro Cons.IH) (simp_all add: xb)
    finally show ?thesis using False by (simp add: xb [unfolded x] x add.assoc)
  qed
qed simp

lemma attribute_loop_strs:
  assumes "drop (Offset p) Data = concat (map str_bytes xs) @ rest" "\<not> CursorErr p" "list_all str_entry_ok xs"
    "Offset p + length (concat (map str_bytes xs)) \<le> stop"
  shows "attribute_loop Data stop p =
    attribute_loop Data stop (p\<lparr>Offset := Offset p + length (concat (map str_bytes xs)),
      attributesStr := fold (\<lambda>a m. if snd a = [] then m else map_insert m (fst a) (snd a)) xs (attributesStr p)\<rparr>)"
  using assms
proof (induction xs arbitrary: p)
  case (Cons x xs)
  obtain k v where x: "x = (k, v)" by (cases x)
  show ?case
  proof (cases "v = []")
    case True
    then have "str_bytes x = []" by (simp add: x str_bytes_def)
    then show ?thesis using Cons True by (simp add: x)
  next
    case False
    then have xb: "str_bytes x = uleb (ucast k) @ v @ [0]" by (simp add: x str_bytes_def)
    let ?n = "length (uleb (ucast k)) + length v + 1"
    let ?p = "p\<lparr>Offset := Offset p + ?n, attributesStr := map_insert (attributesStr p) k v\<rparr>"
    have d: "drop (Offset p) Data = uleb (ucast k) @ v @ 0 # concat (map str_bytes xs) @ rest"
      using Cons.prems(1) False by (simp add: xb)
    have step: "attribute_step Data p = Some (None, ?p)"
      using attribute_step_str [OF d Cons.prems(2)] Cons.prems(3) by (simp add: x add.assoc)
    have "drop (Offset p + length (uleb (ucast k) @ v @ [0])) Data = concat (map str_bytes xs) @ rest"
      using d by (intro drop_after) simp
    then have d': "drop (Offset ?p) Data = concat (map str_bytes xs) @ rest" by simp
    have lt: "Offset p < stop"
      using Cons.prems(4) False by (simp add: xb)
    have "attribute_loop Data stop p = attribute_loop Data stop ?p"
      using lt step by (subst attribute_loop.simps) simp
    also have "\<dots> = attribute_loop Data stop (?p\<lparr>Offset := Offset ?p + length (concat (map str_bytes xs)),
      attributesStr := fold (\<lambda>a m. if snd a = [] then m else map_insert m (fst a) (snd a)) xs (attributesStr ?p)\<rparr>)"
      using Cons.prems d' False by (intro Cons.IH) (simp_all add: xb)
    finally show ?thesis using False by (simp add: xb [unfolded x] x add.assoc)
  qed
qed simp

lemma getU8_byte:
  assumes "drop (Offset p) Data = b # rest" "\<not> CursorErr p"
  shows "getU8 Data p = (b, p\<lparr>Offset := Offset p + 1\<rparr>)"
proof -
  have "Offset p < length Data" using assms(1) by (metis drop_eq_Nil list.distinct(1) not_le)
  moreover have "Data ! Offset p = b" using assms(1) calculation by (metis hd_drop_conv_nth list.sel(1))
  ultimately show ?thesis using assms(2) by (simp add: getU8_def)
qed

lemma getU32_bytes:
  assumes "drop (Offset p) Data = mem_bytes w @ rest" "\<not> CursorErr p"
  shows "getU32 Data True p = (w, p\<lparr>Offset := Offset p + 4\<rparr>)"
proof -
  have "length (drop (Offset p) Data) = 4 + length rest" using assms(1) by simp
  then have "Offset p + 4 \<le> length Data" by simp
  then show ?thesis using assms by (simp add: getU32_def of_mem_bytes_mem_bytes)
qed

lemma parse_section_bytes:
  assumes "list_all int_entry_ok (intAttr s)" "list_all str_entry_ok (strAttr s)" "length (section_bytes s) < 2 ^ 32"
  shows "\<exists>p. parse_attributes (section_bytes s) True new_parser = Some (None, p) \<and>
    (\<forall>k. getAttributeValue p k = map_of (filter (\<lambda>a. snd a \<noteq> 0) (intAttr s)) k) \<and>
    (\<forall>k. getAttributeString p k = map_of (filter (\<lambda>a. snd a \<noteq> []) (strAttr s)) k)"
proof -
  define n where "n = length (body_bytes s)"
  define D where "D = section_bytes s"
  define ibs sbs where "ibs = concat (map int_bytes (intAttr s))" and "sbs = concat (map str_bytes (strAttr s))"
  have n: "n = length ibs + length sbs" "body_bytes s = ibs @ sbs" by (simp_all add: n_def ibs_def sbs_def body_bytes_def)
  have D: "D = 0x41 # mem_bytes (of_nat (n + 15) :: u32) @ vendor @ 0 # File_tag # mem_bytes (of_nat (n + 5) :: u32) @ ibs @ sbs"
    unfolding D_def section_bytes_def n_def [symmetric] by (simp add: n(2))
  have len: "length D = n + 16" by (simp add: D vendor_def n(1))
  have small: "n + 16 < 2 ^ 32" using assms(3) len D_def by simp
  let ?p = "\<lambda>i. new_parser\<lparr>Offset := i\<rparr>"
  have new: "\<not> CursorErr (?p i)" "Offset (?p i) = i" for i by (simp_all add: new_parser_def)
  have d0: "drop 0 D = 0x41 # drop 1 D" by (simp add: D)
  have d1: "drop 1 D = mem_bytes (of_nat (n + 15) :: u32) @ vendor @ 0 # File_tag # mem_bytes (of_nat (n + 5) :: u32) @ ibs @ sbs"
    by (simp add: D)
  have d5: "drop 5 D = vendor @ 0 # File_tag # mem_bytes (of_nat (n + 5) :: u32) @ ibs @ sbs"
    using drop_after [OF d1] by simp
  have d11: "drop 11 D = File_tag # mem_bytes (of_nat (n + 5) :: u32) @ ibs @ sbs"
    using drop_after [of 5 D "vendor @ [0]"] d5 by (simp add: vendor_def)
  have d12: "drop 12 D = mem_bytes (of_nat (n + 5) :: u32) @ ibs @ sbs"
    using drop_after [of 11 D "[File_tag]"] d11 by simp
  have d16: "drop 16 D = ibs @ sbs" using drop_after [OF d12] by simp
  have un: "unat (of_nat (n + 15) :: u32) = n + 15" "unat (of_nat (n + 5) :: u32) = n + 5"
    using small by (simp_all only: unat_of_nat32)
  define q where "q = (?p (16 + n))
    \<lparr>attributes := fold (\<lambda>a m. if snd a = 0 then m else map_insert m (fst a) (snd a)) (intAttr s) (\<lambda>_. None),
     attributesStr := fold (\<lambda>a m. if snd a = [] then m else map_insert m (fst a) (snd a)) (strAttr s) (\<lambda>_. None)\<rparr>"
  let ?pi = "(?p (16 + length ibs))
    \<lparr>attributes := fold (\<lambda>a m. if snd a = 0 then m else map_insert m (fst a) (snd a)) (intAttr s) (\<lambda>_. None)\<rparr>"
  have "attribute_loop D (16 + n) (?p 16) = attribute_loop D (16 + n) ?pi"
    using attribute_loop_ints [of "?p 16" D "intAttr s" sbs "16 + n"] d16 assms(1) n(1)
    by (simp add: ibs_def new_parser_def)
  also have "\<dots> = attribute_loop D (16 + n) q"
    using attribute_loop_strs [of ?pi D "strAttr s" "[]" "16 + n"] drop_after [OF d16] assms(2) n(1)
    by (simp add: sbs_def q_def new_parser_def add.assoc)
  also have "\<dots> = Some (None, q)" by (subst attribute_loop.simps) (simp add: q_def new_parser_def)
  finally have attrs: "attribute_loop D (16 + n) (?p 16) = Some (None, q)" .
  have sub5: "unat ((of_nat (n + 5) :: u32) - 5) = n"
    using un(2) small by (subst unat_sub) (simp_all add: word_le_nat_alt)
  have not5: "\<not> (of_nat (n + 5) :: u32) < 5" using un(2) by (simp add: word_less_nat_alt)
  have scope: "scope_step D True (?p 11) = Some (None, q)"
    using getU8_byte [of "?p 11" D] getU32_bytes [of "?p 12" D] d11 d12 attrs not5 sub5
    by (simp add: scope_step_def parseAttributeList_def new_parser_def)
  have loop: "scope_loop D True (n + 16) (?p 11) = Some (None, q)"
    using scope by (subst scope_loop.simps) (simp add: new_parser_def, subst scope_loop.simps, simp add: q_def new_parser_def)
  have "getCStrRef D (?p 5) = (vendor, ?p 11)"
    using getCStrRef_bytes [of "?p 5" D vendor] d5 by (simp add: vendor_def new_parser_def)
  moreover have "map toLower vendor = vendor" by (simp add: vendor_def toLower_def)
  ultimately have subsec: "parseSubsection D True (of_nat (n + 15)) (?p 5) = Some (None, q)"
    using loop un(1) by (simp add: parseSubsection_def new_parser_def add.commute)
  have not4: "\<not> (of_nat (n + 15) :: u32) < 4" using un(1) by (simp add: word_less_nat_alt)
  have "getU32 D True (?p 1) = (of_nat (n + 15), ?p 5)"
    using getU32_bytes [of "?p 1" D] d1 by (simp add: new_parser_def)
  then have "section_loop D True (?p 1) = section_loop D True q"
    using subsec not4 un(1) len by (subst section_loop.simps) (simp add: new_parser_def)
  also have "\<dots> = Some (None, q)"
    using len by (subst section_loop.simps) (simp add: q_def new_parser_def)
  finally have loop1: "section_loop D True (?p 1) = Some (None, q)" .
  have "drop (Offset new_parser) D = 0x41 # drop 1 D"
    unfolding new_parser_def attr_parser.select_convs by (rule d0)
  from getU8_byte [OF this] have "getU8 D new_parser = (0x41, ?p 1)" by (simp add: new_parser_def)
  then have "parse_attributes D True new_parser = Some (None, q)"
    using loop1 by (simp add: parse_attributes_def)
  then show ?thesis
    unfolding D_def by (simp add: q_def getAttributeValue_def getAttributeString_def map_insert_fold_int map_insert_fold_str)
qed

text \<open>C22: the merged section is written without leaving its buffer and fills exactly the size
  announced for it, and \<open>ELFAttributeParser\<close> reads from it, without an error, exactly the integer
  attributes that are not zero and the string attributes that are not empty, in whatever order the
  maps are iterated.\<close>
theorem attributes_roundtrip:
  assumes "list_all int_entry_ok (intAttr s)" "list_all str_entry_ok (strAttr s)" "sec_size (set_size s) < 2 ^ 32"
  shows "\<exists>bytes p. writeTo (set_size s) (replicate (sec_size (set_size s)) 0) = Some bytes \<and>
    length bytes = sec_size (set_size s) \<and>
    parse_attributes bytes True new_parser = Some (None, p) \<and>
    (\<forall>k. getAttributeValue p k = map_of (filter (\<lambda>a. snd a \<noteq> 0) (intAttr s)) k) \<and>
    (\<forall>k. getAttributeString p k = map_of (filter (\<lambda>a. snd a \<noteq> []) (strAttr s)) k)"
proof -
  let ?s = "set_size s"
  have same: "intAttr ?s = intAttr s" "strAttr ?s = strAttr s" "body_bytes ?s = body_bytes s"
    by (simp_all add: set_size_def body_bytes_def)
  have sz: "sec_size ?s = 16 + length (body_bytes ?s)" by (simp add: same(3) sec_size_set_size)
  have len: "length (section_bytes ?s) = sec_size ?s" by (simp add: section_bytes_def vendor_def sz)
  have "list_all int_entry_ok (intAttr ?s)" "list_all str_entry_ok (strAttr ?s)" "length (section_bytes ?s) < 2 ^ 32"
    using assms same len by simp_all
  from parse_section_bytes [OF this] show ?thesis
    using writeTo_bytes [OF sz] len by (auto simp: same)
qed

definition ex_section :: RISCVAttributesSection where
  "ex_section = \<lparr>intAttr = [(STACK_ALIGN, 16), (UNALIGNED_ACCESS, 1)],
    strAttr = [(ARCH, string_bytes ''rv32i2p1'')], sec_size = 0\<rparr>"

lemma attributes_roundtrip_witness:
  "\<exists>bytes p. writeTo (set_size ex_section) (replicate 30 0) = Some bytes \<and>
    parse_attributes bytes True new_parser = Some (None, p) \<and> getAttributeValue p STACK_ALIGN = Some 16 \<and>
    getAttributeString p ARCH = Some (string_bytes ''rv32i2p1'')"
proof -
  have ok: "list_all int_entry_ok (intAttr ex_section)" "list_all str_entry_ok (strAttr ex_section)"
    by (simp_all add: ex_section_def int_entry_ok_def str_entry_ok_def string_bytes_def)
  have sz: "sec_size (set_size ex_section) = 30" by code_simp
  then have "sec_size (set_size ex_section) < 2 ^ 32" by simp
  from attributes_roundtrip [OF ok this] show ?thesis
    unfolding sz by (auto simp: ex_section_def string_bytes_def)
qed

section \<open>Merging architectures\<close>

definition version_max :: "version \<Rightarrow> version \<Rightarrow> version" where
  "version_max a b = (if version_ge a b then a else b)"

definition version_join :: "version option \<Rightarrow> version option \<Rightarrow> version option" where
  "version_join a b =
    (case a of None \<Rightarrow> b | Some x \<Rightarrow> (case b of None \<Rightarrow> a | Some y \<Rightarrow> Some (version_max x y)))"

lemma version_join_simps [simp]: "version_join a None = a" "version_join None b = b"
  by (simp_all add: version_join_def split: option.splits)

lemma version_join_commute: "version_join a b = version_join b a"
  by (auto simp: version_join_def version_max_def version_ge_def prod_eq_iff not_less split: option.splits)

lemma version_ge_total: "version_ge a b \<or> version_ge b a"
  by (auto simp: version_ge_def)

lemma version_ge_trans: "version_ge a b \<Longrightarrow> version_ge b c \<Longrightarrow> version_ge a c"
  by (auto simp: version_ge_def)

lemma version_max_assoc: "version_max (version_max a b) c = version_max a (version_max b c)"
  using version_ge_trans [of a b c] version_ge_trans [of a c b] version_ge_total [of b c]
  by (cases "version_ge a b"; cases "version_ge b c"; cases "version_ge a c") (simp_all add: version_max_def)

lemma version_join_assoc: "version_join (version_join a b) c = version_join a (version_join b c)"
  by (cases a; cases b; cases c) (simp_all add: version_join_def version_max_assoc)

lemma ext_find_map: "sorted_wrt (<) (map fst m) \<Longrightarrow> ext_find k m = map_of m k"
proof (induction k m rule: ext_find.induct)
  case (2 k k' v' m)
  consider "k' < k" | "k < k'" | "k = k'" by fastforce
  then show ?case
  proof cases
    case 2
    then have "map_of m k = None" using "2.prems" by (intro map_of_above) auto
    then show ?thesis using 2 by auto
  qed (use 2 in auto)
qed auto

lemma merge_ext_map:
  assumes "sorted_wrt (<) (map fst m)"
  shows "sorted_wrt (<) (map fst (merge_ext m e))"
    "map_of (merge_ext m e) = (map_of m)(fst e := version_join (map_of m (fst e)) (Some (snd e)))"
proof -
  have f: "ext_find (fst e) m = map_of m (fst e)" by (rule ext_find_map [OF assms])
  note put = ext_put_map [OF assms, of "fst e" "snd e"]
  have "merge_ext m e = ext_put (fst e) (snd e) m \<and> version_join (map_of m (fst e)) (Some (snd e)) = Some (snd e) \<or>
    merge_ext m e = m \<and> version_join (map_of m (fst e)) (Some (snd e)) = map_of m (fst e)"
    by (cases "map_of m (fst e)") (simp_all add: merge_ext_def f version_join_def version_max_def)
  then show "sorted_wrt (<) (map fst (merge_ext m e))"
    "map_of (merge_ext m e) = (map_of m)(fst e := version_join (map_of m (fst e)) (Some (snd e)))"
    using put assms by auto
qed

lemma merge_exts_map:
  assumes "sorted_wrt (<) (map fst m)" "sorted_wrt (<) (map fst xs)"
  shows "sorted_wrt (<) (map fst (foldl merge_ext m xs)) \<and>
    (\<forall>k. map_of (foldl merge_ext m xs) k = version_join (map_of m k) (map_of xs k))"
  using assms
proof (induction xs arbitrary: m)
  case (Cons x xs)
  note step = merge_ext_map [OF Cons.prems(1), of x]
  have IH: "sorted_wrt (<) (map fst (foldl merge_ext (merge_ext m x) xs)) \<and>
    (\<forall>k. map_of (foldl merge_ext (merge_ext m x) xs) k = version_join (map_of (merge_ext m x) k) (map_of xs k))"
    using Cons.prems(2) by (intro Cons.IH step(1)) simp
  have none: "map_of xs (fst x) = None" using Cons.prems(2) by (intro map_of_above) auto
  have "version_join (map_of (merge_ext m x) k) (map_of xs k) = version_join (map_of m k) (map_of (x # xs) k)" for k
    using none by (cases "k = fst x") (simp_all add: step(2))
  then show ?case using IH by simp
qed simp

lemma normalized_exts_ordered: "normalized_exts Split info = Inr info' \<Longrightarrow> ordered info \<Longrightarrow> ordered info'"
  using addExtension_map(1)
  by (induction Split arbitrary: info) (auto split: sum.splits prod.splits)

lemma parseNormalized_ordered:
  assumes "parseNormalizedArchString s = Success info"
  shows "ordered info"
proof -
  obtain xlen info1 where i: "normalized_exts (split_on (CHR ''_'') (drop 4 s)) (new_info xlen) = Inr info1"
    "updateMaxELen (updateMinVLen (updateFLen info1)) = Some info"
    using assms by (auto simp: parseNormalizedArchString_def of_defined_def split: if_splits option.splits sum.splits)
  then show ?thesis
    using normalized_exts_ordered [OF i(1) ordered_new(1)] updateMaxELen_exts [OF i(2)] by (simp add: ordered_def)
qed

text \<open>The strings of the input sections, merged in their order: the extensions, the register width and
  the errors reported.\<close>

fun merge_archs :: "(ext_name \<times> version) list \<Rightarrow> u32 \<Rightarrow> string list \<Rightarrow>
    ((ext_name \<times> version) list \<times> u32 \<times> isa_error list) option" where
  "merge_archs m xlen [] = Some (m, xlen, [])"
| "merge_archs m xlen (s # ss) =
    (case mergeArch m xlen s of
       None \<Rightarrow> None
     | Some (m1, x1, e) \<Rightarrow>
         (case merge_archs m1 x1 ss of
            None \<Rightarrow> None
          | Some (m2, x2, es) \<Rightarrow> Some (m2, x2, (case e of None \<Rightarrow> [] | Some y \<Rightarrow> [y]) @ es)))"

lemma ext_put_nonempty [simp]: "ext_put k v m \<noteq> []"
  by (induction m rule: ext_put.induct) simp_all

lemma normalized_exts_nonempty:
  "normalized_exts Split info = Inr info' \<Longrightarrow> Split \<noteq> [] \<or> Exts info \<noteq> [] \<Longrightarrow> Exts info' \<noteq> []"
  by (induction Split arbitrary: info) (auto simp: addExtension_def split: sum.splits prod.splits)

lemma split_on_nonempty [simp]: "split_on c s \<noteq> []"
  by (induction s) (auto split: list.splits)

lemma parseNormalized_nonempty:
  assumes "parseNormalizedArchString s = Success info"
  shows "Exts info \<noteq> []"
proof -
  obtain xlen info1 where i: "normalized_exts (split_on (CHR ''_'') (drop 4 s)) (new_info xlen) = Inr info1"
    "updateMaxELen (updateMinVLen (updateFLen info1)) = Some info"
    using assms by (auto simp: parseNormalizedArchString_def of_defined_def split: if_splits option.splits sum.splits)
  then show ?thesis
    using normalized_exts_nonempty [OF i(1)] updateMaxELen_exts [OF i(2)] by simp
qed

lemma merge_ext_nonempty: "m \<noteq> [] \<Longrightarrow> merge_ext m e \<noteq> []"
  by (simp add: merge_ext_def split: option.split)

lemma merge_exts_nonempty: "m \<noteq> [] \<Longrightarrow> foldl merge_ext m xs \<noteq> []"
  by (induction xs arbitrary: m) (simp_all add: merge_ext_nonempty)

lemma mergeArch_step:
  assumes "sorted_wrt (<) (map fst m)" "parseNormalizedArchString s = Success info"
  shows "\<exists>m1. mergeArch m xlen s = Some (m1, (if m = [] then XLen info else xlen), None) \<and> m1 \<noteq> [] \<and>
    sorted_wrt (<) (map fst m1) \<and> (\<forall>e. map_of m1 e = version_join (map_of m e) (map_of (Exts info) e))"
proof (cases "m = []")
  case True
  then show ?thesis
    using parseNormalized_ordered [OF assms(2)] parseNormalized_nonempty [OF assms(2)]
    by (simp add: mergeArch_def assms(2) ordered_def)
next
  case False
  then show ?thesis
    using merge_exts_map [OF assms(1), of "Exts info"] parseNormalized_ordered [OF assms(2)]
    by (simp add: mergeArch_def assms(2) ordered_def merge_exts_nonempty)
qed

lemma merge_archs_result:
  assumes "sorted_wrt (<) (map fst m)" "\<forall>s\<in>set ss. parseNormalizedArchString s = Success (info s)"
  shows "\<exists>m'. merge_archs m xlen ss = Some (m', (if m = [] \<and> ss \<noteq> [] then XLen (info (hd ss)) else xlen), []) \<and>
    sorted_wrt (<) (map fst m') \<and>
    (\<forall>e. map_of m' e = fold (\<lambda>s v. version_join v (map_of (Exts (info s)) e)) ss (map_of m e))"
  using assms
proof (induction ss arbitrary: m xlen)
  case (Cons s ss)
  obtain m1 where m1: "mergeArch m xlen s = Some (m1, (if m = [] then XLen (info s) else xlen), None)" "m1 \<noteq> []"
    "sorted_wrt (<) (map fst m1)" "\<forall>e. map_of m1 e = version_join (map_of m e) (map_of (Exts (info s)) e)"
    using mergeArch_step [OF Cons.prems(1), of s "info s" xlen] Cons.prems(2) by auto
  from Cons.IH [OF m1(3), of "if m = [] then XLen (info s) else xlen"] Cons.prems(2) show ?case
    by (auto simp: m1(1,2,4))
qed simp

text \<open>C23: merging the architecture strings of the inputs never fails once each parses, and leaves
  exactly the extensions of all inputs, each at its highest version; any order of the inputs gives
  the same list of extensions. The register width is the one of the first string, so the whole
  result is independent of the order when the inputs agree on the width.\<close>

theorem mergeArch_joins:
  assumes "\<forall>s\<in>set ss. parseNormalizedArchString s = Success (info s)" "ss \<noteq> []" "mset ss' = mset ss"
  shows "\<exists>m. merge_archs [] 0 ss = Some (m, XLen (info (hd ss)), []) \<and>
    merge_archs [] 0 ss' = Some (m, XLen (info (hd ss')), []) \<and> sorted_wrt (<) (map fst m) \<and>
    (\<forall>e. map_of m e = fold (\<lambda>s v. version_join v (map_of (Exts (info s)) e)) ss None)"
proof -
  have set: "set ss' = set ss" by (rule mset_eq_setD [OF assms(3)])
  then have ne: "ss' \<noteq> []" using assms(2) by auto
  have srt: "sorted_wrt (<) (map fst ([] :: (ext_name \<times> version) list))" by simp
  obtain m where m: "merge_archs [] 0 ss = Some (m, XLen (info (hd ss)), [])" "sorted_wrt (<) (map fst m)"
    "\<forall>e. map_of m e = fold (\<lambda>s v. version_join v (map_of (Exts (info s)) e)) ss None"
    using merge_archs_result [OF srt assms(1), of 0] assms(2) by auto
  obtain m' where m': "merge_archs [] 0 ss' = Some (m', XLen (info (hd ss')), [])" "sorted_wrt (<) (map fst m')"
    "\<forall>e. map_of m' e = fold (\<lambda>s v. version_join v (map_of (Exts (info s)) e)) ss' None"
    using merge_archs_result [OF srt, of ss' info 0] assms(1) set ne by auto
  have "fold (\<lambda>s v. version_join v (map_of (Exts (info s)) e)) ss' = fold (\<lambda>s v. version_join v (map_of (Exts (info s)) e)) ss" for e
  proof (rule fold_multiset_equiv [OF _ assms(3)])
    fix x y
    have "version_join (version_join v a) b = version_join (version_join v b) a" for v a b
      unfolding version_join_assoc by (simp only: version_join_commute [of a b])
    then show "(\<lambda>v. version_join v (map_of (Exts (info x)) e)) \<circ> (\<lambda>v. version_join v (map_of (Exts (info y)) e)) =
        (\<lambda>v. version_join v (map_of (Exts (info y)) e)) \<circ> (\<lambda>v. version_join v (map_of (Exts (info x)) e))"
      by (simp only: fun_eq_iff comp_apply) blast
  qed
  then have "map_of m' = map_of m" using m(3) m'(3) by (simp add: fun_eq_iff)
  then have "m' = m" by (rule ordered_map_eq [OF m'(2) m(2)])
  then show ?thesis using m m' by blast
qed

lemma mergeArch_joins_witness:
  "\<exists>m. merge_archs [] 0 [''rv32i2p1_m2p0'', ''rv32i2p0_m3p0''] = Some (m, 32, []) \<and>
    merge_archs [] 0 [''rv32i2p0_m3p0'', ''rv32i2p1_m2p0''] = Some (m, 32, []) \<and>
    map_of m (ExtName ''i'') = Some (2, 1) \<and> map_of m (ExtName ''m'') = Some (3, 0)"
proof -
  let ?s = "''rv32i2p1_m2p0''" and ?t = "''rv32i2p0_m3p0''"
  define info where "info x = (if x = ?s
      then (new_info 32)\<lparr>Exts := [(ExtName ''i'', 2, 1), (ExtName ''m'', 2, 0)]\<rparr>
      else (new_info 32)\<lparr>Exts := [(ExtName ''i'', 2, 0), (ExtName ''m'', 3, 0)]\<rparr>)" for x
  have "parseNormalizedArchString ?s = Success
      ((new_info 32)\<lparr>Exts := [(ExtName ''i'', 2, 1), (ExtName ''m'', 2, 0)]\<rparr>)"
    "parseNormalizedArchString ?t = Success
      ((new_info 32)\<lparr>Exts := [(ExtName ''i'', 2, 0), (ExtName ''m'', 3, 0)]\<rparr>)"
    by code_simp+
  then have "\<forall>x\<in>set [?s, ?t]. parseNormalizedArchString x = Success (info x)" by (simp add: info_def)
  from mergeArch_joins [OF this, of "[?t, ?s]"] show ?thesis
    by (auto simp: info_def new_info_def version_join_def version_max_def version_ge_def)
qed

section \<open>Reading arbitrary sections\<close>

text \<open>No group of bytes makes the LEB128 decoder shift too far.\<close>

definition leb_defined :: "u8 list \<Rightarrow> bool" where
  "leb_defined Data \<longleftrightarrow> (\<forall>i. decodeULEB128 (drop i Data) \<noteq> leb_result.Undefined)"

text \<open>A step that is defined and leaves the cursor inside the data.\<close>

definition runs :: "u8 list \<Rightarrow> ('a \<times> attr_parser) option \<Rightarrow> bool" where
  "runs Data r \<longleftrightarrow> (\<exists>x p. r = Some (x, p) \<and> Offset p \<le> length Data)"

lemma runs_Some [simp]: "runs Data (Some (x, p)) \<longleftrightarrow> Offset p \<le> length Data"
  by (simp add: runs_def)

lemma runs_bind:
  "runs Data r \<Longrightarrow> (\<And>x p. r = Some (x, p) \<Longrightarrow> Offset p \<le> length Data \<Longrightarrow> runs Data (f x p)) \<Longrightarrow>
   runs Data (case r of None \<Rightarrow> None | Some (x, p) \<Rightarrow> f x p)"
  by (auto simp: runs_def)

lemma getULEB128_runs:
  assumes "leb_defined Data" "Offset p \<le> length Data"
  shows "runs Data (getULEB128 Data p)"
proof (cases "decodeULEB128 (drop (Offset p) Data)")
  case (Decoded v n)
  have "n \<le> length Data - Offset p" using decodeULEB128_bytes [OF Decoded] by simp
  then have "Offset p + n \<le> length Data" using assms(2) by linarith
  then show ?thesis using assms(2) Decoded by (simp add: getULEB128_def)
qed (use assms in \<open>auto simp: getULEB128_def leb_defined_def\<close>)

lemma integerAttribute_runs:
  "leb_defined Data \<Longrightarrow> Offset p \<le> length Data \<Longrightarrow> runs Data (integerAttribute Data t p)"
  unfolding integerAttribute_def by (rule runs_bind [OF getULEB128_runs]) simp_all

lemma stringAttribute_runs:
  "Offset p \<le> length Data \<Longrightarrow> runs Data (stringAttribute Data t p)"
  using getCStrRef_moves(2) [of Data p]
  by (simp add: stringAttribute_def setAttributeString_def split: prod.split)

lemma handler_runs:
  assumes "leb_defined Data" "Offset p \<le> length Data"
  shows "\<exists>e handled p1. handler Data tag p = Some (e, handled, p1) \<and> Offset p1 \<le> length Data"
proof (cases "find (\<lambda>AH. ucast (fst AH) = tag) displayRoutines")
  case None
  then have "handler Data tag p = Some (None, False, p)" by (simp add: handler_def)
  then show ?thesis using assms(2) by blast
next
  case (Some AH)
  then have "AH \<in> set displayRoutines" by (auto simp: find_Some_iff)
  moreover have "runs Data (stackAlign Data t p)" "runs Data (unalignedAccess Data t p)" for t
    unfolding stackAlign_def unalignedAccess_def parseStringAttribute_def
    by (rule runs_bind [OF getULEB128_runs [OF assms]]; simp add: printAttribute_def)+
  ultimately have "runs Data (snd AH Data (ucast tag) p)"
    using integerAttribute_runs [OF assms] stringAttribute_runs [OF assms(2)] by (auto simp: displayRoutines_def)
  then show ?thesis by (auto simp: handler_def Some runs_def)
qed

lemma attribute_step_runs:
  assumes "leb_defined Data" "Offset p \<le> length Data"
  shows "runs Data (attribute_step Data p)"
  unfolding attribute_step_def
proof (rule runs_bind [OF getULEB128_runs [OF assms]])
  fix tag and p1 :: attr_parser assume "Offset p1 \<le> length Data"
  then obtain e handled p2 where h: "handler Data tag p1 = Some (e, handled, p2)" "Offset p2 \<le> length Data"
    using handler_runs [OF assms(1)] by blast
  then show "runs Data (case handler Data tag p1 of None \<Rightarrow> None
     | Some (e, handled, p2) \<Rightarrow>
         if e \<noteq> None then Some (e, p2)
         else if \<not> handled then
           if tag < 32 then Some (Some (InvalidTag tag (Offset p)), p2)
           else if tag mod 2 = 0 then integerAttribute Data (ucast tag) p2
           else stringAttribute Data (ucast tag) p2
         else Some (None, p2))"
    using integerAttribute_runs [OF assms(1) h(2)] stringAttribute_runs [OF h(2)] by simp
qed

lemma attribute_loop_runs:
  "leb_defined Data \<Longrightarrow> Offset p \<le> length Data \<Longrightarrow> runs Data (attribute_loop Data stop p)"
proof (induction Data stop p rule: attribute_loop.induct)
  case (1 Data stop p)
  obtain e p1 where s: "attribute_step Data p = Some (e, p1)" "Offset p1 \<le> length Data"
    using attribute_step_runs [OF "1.prems"] by (auto simp: runs_def)
  show ?case
  proof (cases "Offset p < stop")
    case True
    then show ?thesis
      using s "1.IH" [OF True s(1) refl _ "1.prems"(1) s(2)]
      by (subst attribute_loop.simps) (cases e; simp)
  next
    case False
    then show ?thesis using "1.prems" by (subst attribute_loop.simps) simp
  qed
qed

lemma index_loop_runs:
  "leb_defined Data \<Longrightarrow> Offset p \<le> length Data \<Longrightarrow> runs Data (index_loop Data l p)"
proof (induction Data l p rule: index_loop.induct)
  case (1 Data l p)
  obtain v p1 where g: "getULEB128 Data p = Some (v, p1)" "Offset p1 \<le> length Data"
    using getULEB128_runs [OF "1.prems"] by (auto simp: runs_def)
  show ?case
    using g "1.IH" [OF g(1) refl _ "1.prems"(1) g(2)] by (subst index_loop.simps) simp
qed

lemma scope_step_runs:
  assumes "leb_defined Data" "Offset p \<le> length Data"
  shows "runs Data (scope_step Data endian p)"
proof -
  obtain tag p1 where a: "getU8 Data p = (tag, p1)" by fastforce
  obtain sz p2 where b: "getU32 Data endian p1 = (sz, p2)" by fastforce
  have o1: "Offset p1 \<le> length Data" using a assms(2) by (auto simp: getU8_def split: if_splits)
  have o2: "Offset p2 \<le> length Data" using b o1 by (auto simp: getU32_def Let_def split: if_splits)
  have "runs Data (case parseIndexList Data p2 of None \<Rightarrow> None
    | Some (indicies, p3) \<Rightarrow> parseAttributeList Data (sz - 5) p3)"
    unfolding parseIndexList_def
    by (rule runs_bind [OF index_loop_runs [OF assms(1) o2]]) (simp add: parseAttributeList_def attribute_loop_runs assms(1))
  moreover have "runs Data (parseAttributeList Data (sz - 5) p2)"
    by (simp add: parseAttributeList_def attribute_loop_runs [OF assms(1) o2])
  ultimately show ?thesis using o2 by (simp add: scope_step_def a b)
qed

lemma scope_loop_runs:
  "leb_defined Data \<Longrightarrow> Offset p \<le> length Data \<Longrightarrow> runs Data (scope_loop Data endian stop p)"
proof (induction Data endian stop p rule: scope_loop.induct)
  case (1 Data endian stop p)
  obtain e p1 where s: "scope_step Data endian p = Some (e, p1)" "Offset p1 \<le> length Data"
    using scope_step_runs [OF "1.prems", of endian] by (auto simp: runs_def)
  show ?case
  proof (cases "Offset p < stop")
    case True
    then show ?thesis
      using s "1.IH" [OF True s(1) refl _ "1.prems"(1) s(2)]
      by (subst scope_loop.simps) (cases e; simp)
  next
    case False
    then show ?thesis using "1.prems" by (subst scope_loop.simps) simp
  qed
qed

lemma parseSubsection_runs:
  assumes "leb_defined Data" "Offset p \<le> length Data" "Offset p - 4 + unat len \<le> length Data"
  shows "runs Data (parseSubsection Data endian len p)"
proof -
  obtain s p1 where c: "getCStrRef Data p = (s, p1)" by fastforce
  have "Offset p1 \<le> length Data" using getCStrRef_moves(2) [OF c] assms(2) by simp
  then show ?thesis
    using assms scope_loop_runs [OF assms(1)] by (simp add: parseSubsection_def c Let_def)
qed

lemma section_loop_runs:
  "leb_defined Data \<Longrightarrow> Offset p \<le> length Data \<Longrightarrow> runs Data (section_loop Data endian p)"
proof (induction Data endian p rule: section_loop.induct)
  case (1 Data endian p)
  obtain len p1 where u: "getU32 Data endian p = (len, p1)" by fastforce
  have o1: "Offset p1 \<le> length Data" using u "1.prems"(2) by (auto simp: getU32_def Let_def split: if_splits)
  show ?case
  proof (cases "Offset p \<noteq> length Data \<and> \<not> CursorErr p1 \<and>
      \<not> (len < 4 \<or> Offset p1 - 4 + unat len > length Data)")
    case True
    then have c: "Offset p \<noteq> length Data" "\<not> CursorErr p1" "\<not> (len < 4 \<or> Offset p1 - 4 + unat len > length Data)"
      by blast+
    obtain e p2 where s: "parseSubsection Data endian len p1 = Some (e, p2)" "Offset p2 \<le> length Data"
      using parseSubsection_runs [OF "1.prems"(1) o1, of len endian] c(3) by (auto simp: runs_def)
    show ?thesis
      using "1.IH" [OF c(1) u [symmetric] refl c(2,3) s(1) refl _ "1.prems"(1) s(2)] u c s
      by (subst section_loop.simps) (cases e; simp)
  next
    case False
    then show ?thesis using u o1 "1.prems"(2) by (subst section_loop.simps) auto
  qed
qed

text \<open>C24: on any section, however malformed, the attribute parser comes to an end, with the cursor
  inside the data and never behind it; the only step that may be undefined is the decoding of a
  LEB128 group that shifts too far.\<close>
theorem parse_attributes_defined:
  assumes "leb_defined Data"
  shows "\<exists>e p. parse_attributes Data endian new_parser = Some (e, p) \<and> Offset p \<le> length Data"
proof -
  obtain v p1 where u: "getU8 Data new_parser = (v, p1)" by fastforce
  have "Offset p1 \<le> length Data" using u by (auto simp: getU8_def new_parser_def split: if_splits)
  then have "runs Data (parse_attributes Data endian new_parser)"
    using section_loop_runs [OF assms] by (simp add: parse_attributes_def u)
  then show ?thesis by (auto simp: runs_def)
qed

lemma parse_attributes_defined_witness:
  "\<exists>e p. parse_attributes [0x41, 0x20, 0, 0, 0] True new_parser = Some (e, p) \<and> Offset p \<le> 5"
proof -
  let ?D = "[0x41, 0x20, 0, 0, 0] :: u8 list"
  have "decodeULEB128 (drop i ?D) \<noteq> leb_result.Undefined" for i
  proof (cases "i < 5")
    case True
    then have "i \<in> {0, 1, 2, 3, 4}" by auto
    then show ?thesis by (auto simp: decodeULEB128_def)
  qed (simp add: decodeULEB128_def)
  then have "leb_defined ?D" by (simp only: leb_defined_def) blast
  from parse_attributes_defined [OF this, of True] show ?thesis by (simp add: numeral_eq_Suc)
qed

end
