(* ===== verification/AsmBackend.thy ===== *)
theory AsmBackend
  imports LEB128 RVRelax
begin

text \<open>
  The assembler's side of the object code, \<open>RISCVAsmBackend.cpp\<close>: the kinds of fixups, which of them
  are left to the linker, the value a fixup stores and where, the decision to relax a branch, the
  padding of alignment directives and the fragments of DWARF tables. \<open>MCAssembler::evaluateFixup\<close>
  and \<open>MCAsmBackend::getFixupKindInfo\<close> are the target-independent parts they are called from.

  What the object writer and the layout answer (whether a difference of symbols is known, the offset
  of a symbol or fragment) are inputs. A fixup carries its expression, of any type. \<open>None\<close> is an
  \<open>llvm_unreachable\<close>, a failed assertion or a write outside the fragment.
\<close>

section \<open>Fixups\<close>

datatype MCFixupKind =
    FK_NONE | FK_Data_1 | FK_Data_2 | FK_Data_4 | FK_Data_8 | FK_Data_6b | FK_Data_leb128
  | FK_PCRel_1 | FK_PCRel_2 | FK_PCRel_4 | FK_PCRel_8 | FK_GPRel_1 | FK_GPRel_2 | FK_GPRel_4 | FK_GPRel_8
  | FK_DTPRel_4 | FK_DTPRel_8 | FK_TPRel_4 | FK_TPRel_8 | FK_SecRel_1 | FK_SecRel_2 | FK_SecRel_4 | FK_SecRel_8
  | fixup_riscv_hi20 | fixup_riscv_lo12_i | fixup_riscv_12_i | fixup_riscv_lo12_s
  | fixup_riscv_pcrel_hi20 | fixup_riscv_pcrel_lo12_i | fixup_riscv_pcrel_lo12_s | fixup_riscv_got_hi20
  | fixup_riscv_tprel_hi20 | fixup_riscv_tprel_lo12_i | fixup_riscv_tprel_lo12_s | fixup_riscv_tprel_add
  | fixup_riscv_tls_got_hi20 | fixup_riscv_tls_gd_hi20 | fixup_riscv_jal | fixup_riscv_branch
  | fixup_riscv_rvc_jump | fixup_riscv_rvc_branch | fixup_riscv_call | fixup_riscv_call_plt
  | fixup_riscv_relax | fixup_riscv_align
  | fixup_riscv_set_8 | fixup_riscv_add_8 | fixup_riscv_sub_8
  | fixup_riscv_set_16 | fixup_riscv_add_16 | fixup_riscv_sub_16
  | fixup_riscv_set_32 | fixup_riscv_add_32 | fixup_riscv_sub_32
  | fixup_riscv_add_64 | fixup_riscv_sub_64 | fixup_riscv_set_6b | fixup_riscv_sub_6b
  | LiteralRelocation RelType

record 'e MCFixup =
  fixup_offset :: nat
  fixup_value :: 'e
  fixup_kind :: MCFixupKind

record MCFixupKindInfo =
  TargetOffset :: nat
  TargetSize :: nat
  IsPCRel :: bool
  IsTarget :: bool

record subtarget =
  FeatureStdExtC :: bool
  FeatureStdExtZca :: bool
  FeatureRelax :: bool
  ForceRelocs :: bool

datatype fixup_diag = FixupOutOfRange | FixupMisaligned | NotConstant12

definition ELF_relocs :: "(string \<times> RelType) list" where
  "ELF_relocs =
    [(''R_RISCV_NONE'', R_RISCV_NONE), (''R_RISCV_32'', R_RISCV_32), (''R_RISCV_64'', R_RISCV_64),
     (''R_RISCV_RELATIVE'', R_RISCV_RELATIVE), (''R_RISCV_COPY'', R_RISCV_COPY),
     (''R_RISCV_JUMP_SLOT'', R_RISCV_JUMP_SLOT), (''R_RISCV_TLS_DTPMOD32'', R_RISCV_TLS_DTPMOD32),
     (''R_RISCV_TLS_DTPMOD64'', R_RISCV_TLS_DTPMOD64), (''R_RISCV_TLS_DTPREL32'', R_RISCV_TLS_DTPREL32),
     (''R_RISCV_TLS_DTPREL64'', R_RISCV_TLS_DTPREL64), (''R_RISCV_TLS_TPREL32'', R_RISCV_TLS_TPREL32),
     (''R_RISCV_TLS_TPREL64'', R_RISCV_TLS_TPREL64), (''R_RISCV_BRANCH'', R_RISCV_BRANCH),
     (''R_RISCV_JAL'', R_RISCV_JAL), (''R_RISCV_CALL'', R_RISCV_CALL),
     (''R_RISCV_CALL_PLT'', R_RISCV_CALL_PLT), (''R_RISCV_GOT_HI20'', R_RISCV_GOT_HI20),
     (''R_RISCV_TLS_GOT_HI20'', R_RISCV_TLS_GOT_HI20), (''R_RISCV_TLS_GD_HI20'', R_RISCV_TLS_GD_HI20),
     (''R_RISCV_PCREL_HI20'', R_RISCV_PCREL_HI20), (''R_RISCV_PCREL_LO12_I'', R_RISCV_PCREL_LO12_I),
     (''R_RISCV_PCREL_LO12_S'', R_RISCV_PCREL_LO12_S), (''R_RISCV_HI20'', R_RISCV_HI20),
     (''R_RISCV_LO12_I'', R_RISCV_LO12_I), (''R_RISCV_LO12_S'', R_RISCV_LO12_S),
     (''R_RISCV_TPREL_HI20'', R_RISCV_TPREL_HI20), (''R_RISCV_TPREL_LO12_I'', R_RISCV_TPREL_LO12_I),
     (''R_RISCV_TPREL_LO12_S'', R_RISCV_TPREL_LO12_S), (''R_RISCV_TPREL_ADD'', R_RISCV_TPREL_ADD),
     (''R_RISCV_ADD8'', R_RISCV_ADD8), (''R_RISCV_ADD16'', R_RISCV_ADD16),
     (''R_RISCV_ADD32'', R_RISCV_ADD32), (''R_RISCV_ADD64'', R_RISCV_ADD64),
     (''R_RISCV_SUB8'', R_RISCV_SUB8), (''R_RISCV_SUB16'', R_RISCV_SUB16),
     (''R_RISCV_SUB32'', R_RISCV_SUB32), (''R_RISCV_SUB64'', R_RISCV_SUB64),
     (''R_RISCV_GNU_VTINHERIT'', R_RISCV_GNU_VTINHERIT), (''R_RISCV_GNU_VTENTRY'', R_RISCV_GNU_VTENTRY),
     (''R_RISCV_ALIGN'', R_RISCV_ALIGN), (''R_RISCV_RVC_BRANCH'', R_RISCV_RVC_BRANCH),
     (''R_RISCV_RVC_JUMP'', R_RISCV_RVC_JUMP), (''R_RISCV_RVC_LUI'', R_RISCV_RVC_LUI),
     (''R_RISCV_RELAX'', R_RISCV_RELAX), (''R_RISCV_SUB6'', R_RISCV_SUB6),
     (''R_RISCV_SET6'', R_RISCV_SET6), (''R_RISCV_SET8'', R_RISCV_SET8),
     (''R_RISCV_SET16'', R_RISCV_SET16), (''R_RISCV_SET32'', R_RISCV_SET32),
     (''R_RISCV_32_PCREL'', R_RISCV_32_PCREL), (''R_RISCV_IRELATIVE'', R_RISCV_IRELATIVE),
     (''R_RISCV_PLT32'', R_RISCV_PLT32), (''R_RISCV_SET_ULEB128'', R_RISCV_SET_ULEB128),
     (''R_RISCV_SUB_ULEB128'', R_RISCV_SUB_ULEB128)]"

definition getFixupKind :: "bool \<Rightarrow> string \<Rightarrow> MCFixupKind option" where
  "getFixupKind IsELF Name =
    (if IsELF then
       map_option LiteralRelocation
         (map_of (ELF_relocs @ [(''BFD_RELOC_NONE'', R_RISCV_NONE), (''BFD_RELOC_32'', R_RISCV_32),
            (''BFD_RELOC_64'', R_RISCV_64)]) Name)
     else None)"

definition is_literal :: "MCFixupKind \<Rightarrow> bool" where
  "is_literal Kind \<longleftrightarrow> (case Kind of LiteralRelocation _ \<Rightarrow> True | _ \<Rightarrow> False)"

definition plain_info :: "nat \<Rightarrow> nat \<Rightarrow> MCFixupKindInfo" where
  "plain_info off sz = \<lparr>TargetOffset = off, TargetSize = sz, IsPCRel = False, IsTarget = False\<rparr>"

definition pcrel_info :: "nat \<Rightarrow> nat \<Rightarrow> MCFixupKindInfo" where
  "pcrel_info off sz = \<lparr>TargetOffset = off, TargetSize = sz, IsPCRel = True, IsTarget = False\<rparr>"

definition targeted_info :: "nat \<Rightarrow> nat \<Rightarrow> MCFixupKindInfo" where
  "targeted_info off sz = \<lparr>TargetOffset = off, TargetSize = sz, IsPCRel = True, IsTarget = True\<rparr>"

text \<open>The builtin kinds of \<open>MCAsmBackend\<close>, and the RISC-V table over them.\<close>

definition builtinFixupKindInfo :: "MCFixupKind \<Rightarrow> MCFixupKindInfo" where
  "builtinFixupKindInfo Kind =
    (if Kind \<in> {FK_Data_1, FK_GPRel_1, FK_SecRel_1} then plain_info 0 8
     else if Kind \<in> {FK_Data_2, FK_GPRel_2, FK_SecRel_2} then plain_info 0 16
     else if Kind \<in> {FK_Data_4, FK_GPRel_4, FK_DTPRel_4, FK_TPRel_4, FK_SecRel_4} then plain_info 0 32
     else if Kind \<in> {FK_Data_8, FK_GPRel_8, FK_DTPRel_8, FK_TPRel_8, FK_SecRel_8} then plain_info 0 64
     else if Kind = FK_Data_6b then plain_info 0 6
     else if Kind = FK_PCRel_1 then pcrel_info 0 8
     else if Kind = FK_PCRel_2 then pcrel_info 0 16
     else if Kind = FK_PCRel_4 then pcrel_info 0 32
     else if Kind = FK_PCRel_8 then pcrel_info 0 64
     else plain_info 0 0)"

definition getFixupKindInfo :: "MCFixupKind \<Rightarrow> MCFixupKindInfo" where
  "getFixupKindInfo Kind =
    (case Kind of
       LiteralRelocation _ \<Rightarrow> builtinFixupKindInfo FK_NONE
     | fixup_riscv_hi20 \<Rightarrow> plain_info 12 20
     | fixup_riscv_lo12_i \<Rightarrow> plain_info 20 12
     | fixup_riscv_12_i \<Rightarrow> plain_info 20 12
     | fixup_riscv_lo12_s \<Rightarrow> plain_info 0 32
     | fixup_riscv_pcrel_hi20 \<Rightarrow> targeted_info 12 20
     | fixup_riscv_pcrel_lo12_i \<Rightarrow> targeted_info 20 12
     | fixup_riscv_pcrel_lo12_s \<Rightarrow> targeted_info 0 32
     | fixup_riscv_got_hi20 \<Rightarrow> pcrel_info 12 20
     | fixup_riscv_tprel_hi20 \<Rightarrow> plain_info 12 20
     | fixup_riscv_tprel_lo12_i \<Rightarrow> plain_info 20 12
     | fixup_riscv_tprel_lo12_s \<Rightarrow> plain_info 0 32
     | fixup_riscv_tprel_add \<Rightarrow> plain_info 0 0
     | fixup_riscv_tls_got_hi20 \<Rightarrow> pcrel_info 12 20
     | fixup_riscv_tls_gd_hi20 \<Rightarrow> pcrel_info 12 20
     | fixup_riscv_jal \<Rightarrow> pcrel_info 12 20
     | fixup_riscv_branch \<Rightarrow> pcrel_info 0 32
     | fixup_riscv_rvc_jump \<Rightarrow> pcrel_info 2 11
     | fixup_riscv_rvc_branch \<Rightarrow> pcrel_info 0 16
     | fixup_riscv_call \<Rightarrow> pcrel_info 0 64
     | fixup_riscv_call_plt \<Rightarrow> pcrel_info 0 64
     | fixup_riscv_relax \<Rightarrow> plain_info 0 0
     | fixup_riscv_align \<Rightarrow> plain_info 0 0
     | fixup_riscv_set_8 \<Rightarrow> plain_info 0 8
     | fixup_riscv_add_8 \<Rightarrow> plain_info 0 8
     | fixup_riscv_sub_8 \<Rightarrow> plain_info 0 8
     | fixup_riscv_set_16 \<Rightarrow> plain_info 0 16
     | fixup_riscv_add_16 \<Rightarrow> plain_info 0 16
     | fixup_riscv_sub_16 \<Rightarrow> plain_info 0 16
     | fixup_riscv_set_32 \<Rightarrow> plain_info 0 32
     | fixup_riscv_add_32 \<Rightarrow> plain_info 0 32
     | fixup_riscv_sub_32 \<Rightarrow> plain_info 0 32
     | fixup_riscv_add_64 \<Rightarrow> plain_info 0 64
     | fixup_riscv_sub_64 \<Rightarrow> plain_info 0 64
     | fixup_riscv_set_6b \<Rightarrow> plain_info 2 6
     | fixup_riscv_sub_6b \<Rightarrow> plain_info 2 6
     | _ \<Rightarrow> builtinFixupKindInfo Kind)"

section \<open>Which fixups are left to the linker\<close>

text \<open>A symbol as the layout knows it, a reference with whether its variant is \<open>VK_None\<close>, and a value
  \<open>SymA - SymB + Constant\<close>.\<close>

record mc_symbol =
  sym_id :: nat
  sym_undefined :: bool
  sym_offset :: u64

record MCValue =
  SymA :: "(bool \<times> mc_symbol) option"
  SymB :: "(bool \<times> mc_symbol) option"
  Constant :: u64

definition isAbsolute :: "MCValue \<Rightarrow> bool" where
  "isAbsolute v \<longleftrightarrow> SymA v = None \<and> SymB v = None"

definition shouldForceRelocation :: "subtarget \<Rightarrow> MCFixupKind \<Rightarrow> MCValue \<Rightarrow> bool" where
  "shouldForceRelocation STI Kind Target =
    (if is_literal Kind then True
     else if Kind \<in> {FK_Data_1, FK_Data_2, FK_Data_4, FK_Data_8, FK_Data_leb128} \<and> isAbsolute Target then False
     else if Kind \<in> {fixup_riscv_got_hi20, fixup_riscv_tls_got_hi20, fixup_riscv_tls_gd_hi20} then True
     else FeatureRelax STI \<or> ForceRelocs STI)"

text \<open>A fixup in a fragment: the offset of the fragment, and whether the writer knows the distance of a
  symbol from the fragment (no writer, no answer).\<close>

record fragment_view =
  fragment_offset :: u64
  has_writer :: bool
  fully_resolved :: "mc_symbol \<Rightarrow> bool"

text \<open>The fixup of the \<open>auipc\<close> a lower half refers to, if it is found, and its target, if it has one.\<close>

type_synonym auipc_view = "(nat \<times> MCFixupKind \<times> fragment_view \<times> MCValue option) option"

text \<open>The result, the value and \<open>WasForced\<close>.\<close>

definition evaluate_auipc ::
  "subtarget \<Rightarrow> nat \<Rightarrow> MCFixupKind \<Rightarrow> fragment_view \<Rightarrow> MCValue \<Rightarrow> bool \<times> u64 \<times> bool" where
  "evaluate_auipc STI off Kind DF Target =
    (case SymA Target of
       None \<Rightarrow> (False, 0, False)
     | Some (VK_None, SA) \<Rightarrow>
         if SymB Target \<noteq> None then (False, 0, False)
         else if \<not> VK_None \<or> sym_undefined SA then (False, 0, False)
         else if \<not> has_writer DF then (False, 0, False)
         else if \<not> fully_resolved DF SA then (False, 0, False)
         else
           let Value = sym_offset SA + Constant Target - (fragment_offset DF + of_nat off)
           in if shouldForceRelocation STI Kind Target then (False, Value, True) else (True, Value, False))"

definition evaluateTargetFixup ::
  "subtarget \<Rightarrow> 'e MCFixup \<Rightarrow> fragment_view \<Rightarrow> MCValue \<Rightarrow> auipc_view \<Rightarrow> (bool \<times> u64 \<times> bool) option" where
  "evaluateTargetFixup STI Fixup DF Target AUIPC =
    (if fixup_kind Fixup = fixup_riscv_pcrel_hi20 then
       Some (evaluate_auipc STI (fixup_offset Fixup) (fixup_kind Fixup) DF Target)
     else if fixup_kind Fixup \<in> {fixup_riscv_pcrel_lo12_i, fixup_riscv_pcrel_lo12_s} then
       (case AUIPC of
          None \<Rightarrow> Some (True, 0, False)
        | Some (off, Kind, AUIPCDF, None) \<Rightarrow> Some (True, 0, False)
        | Some (off, Kind, AUIPCDF, Some AUIPCTarget) \<Rightarrow> Some (evaluate_auipc STI off Kind AUIPCDF AUIPCTarget))
     else None)"

text \<open>A recorded relocation: its offset, its type and the value it is against.\<close>

type_synonym recorded = "nat \<times> RelType \<times> MCValue"

definition add_sub_types :: "MCFixupKind \<Rightarrow> (RelType \<times> RelType) option" where
  "add_sub_types Kind =
    (case Kind of
       FK_Data_1 \<Rightarrow> Some (R_RISCV_ADD8, R_RISCV_SUB8)
     | FK_Data_2 \<Rightarrow> Some (R_RISCV_ADD16, R_RISCV_SUB16)
     | FK_Data_4 \<Rightarrow> Some (R_RISCV_ADD32, R_RISCV_SUB32)
     | FK_Data_8 \<Rightarrow> Some (R_RISCV_ADD64, R_RISCV_SUB64)
     | FK_Data_leb128 \<Rightarrow> Some (R_RISCV_SET_ULEB128, R_RISCV_SUB_ULEB128)
     | _ \<Rightarrow> None)"

text \<open>\<open>record\<close> gives the value \<open>recordRelocation\<close> leaves to be stored.\<close>

definition handleAddSubRelocations ::
  "(recorded \<Rightarrow> u64) \<Rightarrow> 'e MCFixup \<Rightarrow> MCValue \<Rightarrow> (recorded list \<times> u64) option" where
  "handleAddSubRelocations recordRelocation Fixup Target =
    (case add_sub_types (fixup_kind Fixup) of
       None \<Rightarrow> None
     | Some (TA, TB) \<Rightarrow>
         let A = \<lparr>SymA = SymA Target, SymB = None, Constant = Constant Target\<rparr>;
             B = \<lparr>SymA = SymB Target, SymB = None, Constant = 0\<rparr>;
             FA = (fixup_offset Fixup, TA, A); FB = (fixup_offset Fixup, TB, B)
         in Some ([FA, FB], recordRelocation FA - recordRelocation FB))"

text \<open>\<open>evaluateFixup\<close> for an expression that evaluates to \<open>Target\<close>: the result, the value, \<open>WasForced\<close>
  and what was recorded; without a \<open>Target\<close> the result claims the fixup is done, after an error. A
  subtraction of a qualified symbol is the other error.\<close>

datatype eval_error = NotRelocatable | QualifiedSubtraction

record evaluated =
  Resolved :: bool
  FixedValue :: u64
  WasForced :: bool
  Recorded :: "recorded list"

definition eval_result :: "bool \<Rightarrow> u64 \<Rightarrow> bool \<Rightarrow> evaluated" where
  "eval_result r v f = \<lparr>Resolved = r, FixedValue = v, WasForced = f, Recorded = []\<rparr>"

definition symbol_part :: "(bool \<times> mc_symbol) option \<Rightarrow> u64" where
  "symbol_part s = (case s of None \<Rightarrow> 0 | Some (_, Sym) \<Rightarrow> if sym_undefined Sym then 0 else sym_offset Sym)"

definition pcrel_resolved :: "fragment_view \<Rightarrow> MCValue \<Rightarrow> bool" where
  "pcrel_resolved DF Target =
    (if SymB Target \<noteq> None then False
     else case SymA Target of
         None \<Rightarrow> False
       | Some (VK_None, SA) \<Rightarrow>
           if \<not> VK_None \<or> sym_undefined SA then False else has_writer DF \<and> fully_resolved DF SA)"

definition evaluateFixup ::
  "subtarget \<Rightarrow> (recorded \<Rightarrow> u64) \<Rightarrow> 'e MCFixup \<Rightarrow> fragment_view \<Rightarrow> MCValue option \<Rightarrow> auipc_view \<Rightarrow>
   (eval_error option \<times> evaluated) option" where
  "evaluateFixup STI recordRelocation Fixup DF target AUIPC =
    (case target of
       None \<Rightarrow> Some (Some NotRelocatable, eval_result True 0 False)
     | Some Target \<Rightarrow>
         let Info = getFixupKindInfo (fixup_kind Fixup) in
         if (case SymB Target of None \<Rightarrow> False | Some (VK_None, _) \<Rightarrow> \<not> VK_None) then
           Some (Some QualifiedSubtraction, eval_result True 0 False)
         else if IsTarget Info then
           map_option (\<lambda>(r, v, f). (None, eval_result r v f)) (evaluateTargetFixup STI Fixup DF Target AUIPC)
         else
           let resolved = (if IsPCRel Info then pcrel_resolved DF Target else isAbsolute Target);
               v = Constant Target + symbol_part (SymA Target) - symbol_part (SymB Target);
               Value = (if IsPCRel Info then v - (fragment_offset DF + of_nat (fixup_offset Fixup)) else v);
               forced = (resolved \<and> shouldForceRelocation STI (fixup_kind Fixup) Target)
           in if \<not> (resolved \<and> \<not> forced) \<and>
                (case (SymA Target, SymB Target) of (Some (VK_None, _), Some _) \<Rightarrow> VK_None | _ \<Rightarrow> False) then
                (case handleAddSubRelocations recordRelocation Fixup Target of
                   None \<Rightarrow> None
                 | Some (rs, FixedV) \<Rightarrow>
                     Some (None, \<lparr>Resolved = True, FixedValue = FixedV, WasForced = forced, Recorded = rs\<rparr>))
              else Some (None, eval_result (resolved \<and> \<not> forced) Value forced))"

section \<open>Applying a fixup\<close>

definition check_branch :: "nat \<Rightarrow> u64 \<Rightarrow> fixup_diag list" where
  "check_branch width Value =
    (if \<not> isInt width Value then [FixupOutOfRange] else []) @
    (if Value AND 0x1 \<noteq> 0 then [FixupMisaligned] else [])"

definition adjust_jal :: "u64 \<Rightarrow> u64" where
  "adjust_jal Value =
    (let Sbit = ucast (drop_bit 20 Value AND 0x1) :: u32;
         Hi8 = ucast (drop_bit 12 Value AND 0xff) :: u32;
         Mid1 = ucast (drop_bit 11 Value AND 0x1) :: u32;
         Lo10 = ucast (drop_bit 1 Value AND 0x3ff) :: u32
     in ucast (push_bit 19 Sbit OR push_bit 9 Lo10 OR push_bit 8 Mid1 OR Hi8))"

definition adjust_branch :: "u64 \<Rightarrow> u64" where
  "adjust_branch Value =
    (let Sbit = ucast (drop_bit 12 Value AND 0x1) :: u32;
         Hi1 = ucast (drop_bit 11 Value AND 0x1) :: u32;
         Mid6 = ucast (drop_bit 5 Value AND 0x3f) :: u32;
         Lo4 = ucast (drop_bit 1 Value AND 0xf) :: u32
     in ucast (push_bit 31 Sbit OR push_bit 25 Mid6 OR push_bit 8 Lo4 OR push_bit 7 Hi1))"

definition adjust_call :: "u64 \<Rightarrow> u64" where
  "adjust_call Value =
    (let UpperImm = (Value + 0x800) AND 0xfffff000;
         LowerImm = Value AND 0xfff
     in UpperImm OR push_bit 32 (push_bit 20 LowerImm))"

definition adjust_rvc_jump :: "u64 \<Rightarrow> u64" where
  "adjust_rvc_jump Value =
    (let Bit11 = ucast (drop_bit 11 Value AND 0x1) :: u32;
         Bit4 = ucast (drop_bit 4 Value AND 0x1) :: u32;
         Bit9_8 = ucast (drop_bit 8 Value AND 0x3) :: u32;
         Bit10 = ucast (drop_bit 10 Value AND 0x1) :: u32;
         Bit6 = ucast (drop_bit 6 Value AND 0x1) :: u32;
         Bit7 = ucast (drop_bit 7 Value AND 0x1) :: u32;
         Bit3_1 = ucast (drop_bit 1 Value AND 0x7) :: u32;
         Bit5 = ucast (drop_bit 5 Value AND 0x1) :: u32
     in ucast (push_bit 10 Bit11 OR push_bit 9 Bit4 OR push_bit 7 Bit9_8 OR push_bit 6 Bit10 OR
          push_bit 5 Bit6 OR push_bit 4 Bit7 OR push_bit 1 Bit3_1 OR Bit5))"

definition adjust_rvc_branch :: "u64 \<Rightarrow> u64" where
  "adjust_rvc_branch Value =
    (let Bit8 = ucast (drop_bit 8 Value AND 0x1) :: u32;
         Bit7_6 = ucast (drop_bit 6 Value AND 0x3) :: u32;
         Bit5 = ucast (drop_bit 5 Value AND 0x1) :: u32;
         Bit4_3 = ucast (drop_bit 3 Value AND 0x3) :: u32;
         Bit2_1 = ucast (drop_bit 1 Value AND 0x3) :: u32
     in ucast (push_bit 12 Bit8 OR push_bit 10 Bit4_3 OR push_bit 5 Bit7_6 OR push_bit 3 Bit2_1 OR
          push_bit 2 Bit5))"

definition adjustFixupValue :: "MCFixupKind \<Rightarrow> u64 \<Rightarrow> (u64 \<times> fixup_diag list) option" where
  "adjustFixupValue Kind Value =
    (if Kind \<in> {fixup_riscv_set_8, fixup_riscv_add_8, fixup_riscv_sub_8, fixup_riscv_set_16, fixup_riscv_add_16,
         fixup_riscv_sub_16, fixup_riscv_set_32, fixup_riscv_add_32, fixup_riscv_sub_32, fixup_riscv_add_64,
         fixup_riscv_sub_64, FK_Data_1, FK_Data_2, FK_Data_4, FK_Data_8, FK_Data_6b, FK_Data_leb128} then
       Some (Value, [])
     else if Kind = fixup_riscv_set_6b then Some (Value AND 0x03, [])
     else if Kind \<in> {fixup_riscv_lo12_i, fixup_riscv_pcrel_lo12_i, fixup_riscv_tprel_lo12_i} then
       Some (Value AND 0xfff, [])
     else if Kind = fixup_riscv_12_i then
       Some (Value AND 0xfff, if \<not> isInt 12 Value then [NotConstant12] else [])
     else if Kind \<in> {fixup_riscv_lo12_s, fixup_riscv_pcrel_lo12_s, fixup_riscv_tprel_lo12_s} then
       Some (push_bit 25 (drop_bit 5 Value AND 0x7f) OR push_bit 7 (Value AND 0x1f), [])
     else if Kind \<in> {fixup_riscv_hi20, fixup_riscv_pcrel_hi20, fixup_riscv_tprel_hi20} then
       Some (drop_bit 12 (Value + 0x800) AND 0xfffff, [])
     else if Kind = fixup_riscv_jal then Some (adjust_jal Value, check_branch 21 Value)
     else if Kind = fixup_riscv_branch then Some (adjust_branch Value, check_branch 13 Value)
     else if Kind \<in> {fixup_riscv_call, fixup_riscv_call_plt} then Some (adjust_call Value, [])
     else if Kind = fixup_riscv_rvc_jump then Some (adjust_rvc_jump Value, [])
     else if Kind = fixup_riscv_rvc_branch then Some (adjust_rvc_branch Value, [])
     else None)"

text \<open>The bytes of the value are or-ed into the fragment.\<close>

fun or_bytes :: "u8 list \<Rightarrow> nat \<Rightarrow> u64 \<Rightarrow> nat list \<Rightarrow> u8 list" where
  "or_bytes Data Offset Value [] = Data"
| "or_bytes Data Offset Value (i # idx) =
    or_bytes (Data[Offset + i := Data ! (Offset + i) OR ucast (drop_bit (i * 8) Value AND 0xff)]) Offset Value idx"

definition applyFixup :: "'e MCFixup \<Rightarrow> u8 list \<Rightarrow> u64 \<Rightarrow> (u8 list \<times> fixup_diag list) option" where
  "applyFixup Fixup Data Value =
    (if is_literal (fixup_kind Fixup) then Some (Data, [])
     else if Value = 0 then Some (Data, [])
     else
       let Info = getFixupKindInfo (fixup_kind Fixup) in
       case adjustFixupValue (fixup_kind Fixup) Value of
         None \<Rightarrow> None
       | Some (v, ds) \<Rightarrow>
           let shifted = push_bit (TargetOffset Info) v;
               NumBytes = unat (alignTo (of_nat (TargetSize Info + TargetOffset Info)) 8) div 8
           in if fixup_offset Fixup + NumBytes \<le> length Data
              then Some (or_bytes Data (fixup_offset Fixup) shifted [0..<NumBytes], ds)
              else None)"

section \<open>Relaxing an instruction\<close>

definition fixupNeedsRelaxationAdvanced :: "MCFixupKind \<Rightarrow> bool \<Rightarrow> u64 \<Rightarrow> bool \<Rightarrow> bool" where
  "fixupNeedsRelaxationAdvanced Kind resolved Value forced =
    (let Offset = sint Value in
     if Kind = fixup_riscv_branch then resolved \<and> \<not> isInt 13 Value
     else if \<not> resolved \<and> \<not> forced then True
     else if Kind = fixup_riscv_rvc_branch then Offset > 254 \<or> Offset < - 256
     else if Kind = fixup_riscv_rvc_jump then Offset > 2046 \<or> Offset < - 2048
     else False)"

datatype branch_opcode =
    C_BEQZ | C_BNEZ | C_J | C_JAL | BEQ | BNE | BLT | BGE | BLTU | BGEU | JAL
  | PseudoLongBEQ | PseudoLongBNE | PseudoLongBLT | PseudoLongBGE | PseudoLongBLTU | PseudoLongBGEU
  | OtherOpcode nat

record 'o MCInst =
  Opcode :: branch_opcode
  Operands :: "'o list"

definition getRelaxedOpcode :: "branch_opcode \<Rightarrow> branch_opcode" where
  "getRelaxedOpcode Op =
    (case Op of
       C_BEQZ \<Rightarrow> BEQ | C_BNEZ \<Rightarrow> BNE | C_J \<Rightarrow> JAL | C_JAL \<Rightarrow> JAL
     | BEQ \<Rightarrow> PseudoLongBEQ | BNE \<Rightarrow> PseudoLongBNE | BLT \<Rightarrow> PseudoLongBLT | BGE \<Rightarrow> PseudoLongBGE
     | BLTU \<Rightarrow> PseudoLongBLTU | BGEU \<Rightarrow> PseudoLongBGEU
     | _ \<Rightarrow> Op)"

definition mayNeedRelaxation :: "'o MCInst \<Rightarrow> bool" where
  "mayNeedRelaxation Inst \<longleftrightarrow> getRelaxedOpcode (Opcode Inst) \<noteq> Opcode Inst"

text \<open>\<open>uncompress\<close> is generated from the instruction tables.\<close>

definition relaxInstruction ::
  "('o MCInst \<Rightarrow> 'o MCInst option) \<Rightarrow> 'o MCInst \<Rightarrow> 'o MCInst option" where
  "relaxInstruction uncompress Inst =
    (if Opcode Inst \<in> {C_BEQZ, C_BNEZ, C_J, C_JAL} then uncompress Inst
     else if Opcode Inst \<in> {BEQ, BNE, BLT, BGE, BLTU, BGEU} then
       (if 3 \<le> length (Operands Inst)
        then Some \<lparr>Opcode = getRelaxedOpcode (Opcode Inst), Operands = take 3 (Operands Inst)\<rparr>
        else None)
     else None)"

section \<open>Padding\<close>

definition UseCompressedNop :: "subtarget \<Rightarrow> bool" where
  "UseCompressedNop STI \<longleftrightarrow> FeatureStdExtC STI \<or> FeatureStdExtZca STI"

fun write_nops :: "nat \<Rightarrow> u8 list" where
  "write_nops Count = (if Count \<ge> 4 then [0x13, 0, 0, 0] @ write_nops (Count - 4) else [])"

declare write_nops.simps [simp del]

definition writeNopData :: "subtarget \<Rightarrow> nat \<Rightarrow> u8 list" where
  "writeNopData STI Count =
    (let odd_byte = (if Count mod 2 \<noteq> 0 then [0] else []);
         Count1 = (if Count mod 2 \<noteq> 0 then Count - 1 else Count);
         half = (if Count1 mod 4 = 2 then if UseCompressedNop STI then [0x01, 0] else [0, 0] else []);
         Count2 = (if Count1 mod 4 = 2 then Count1 - 2 else Count1)
     in odd_byte @ half @ write_nops Count2)"

text \<open>The padding for an alignment directive, if linker relaxation asks for it.\<close>

definition shouldInsertExtraNopBytesForCodeAlign :: "subtarget \<Rightarrow> u64 \<Rightarrow> u32 option" where
  "shouldInsertExtraNopBytesForCodeAlign STI Alignment =
    (if \<not> FeatureRelax STI then None
     else
       let MinNopLen = (if UseCompressedNop STI then 2 else 4) :: u64
       in if Alignment \<le> MinNopLen then None else Some (ucast (Alignment - MinNopLen)))"

definition shouldInsertFixupForCodeAlign :: "subtarget \<Rightarrow> u64 \<Rightarrow> (MCFixupKind \<times> MCValue) option" where
  "shouldInsertFixupForCodeAlign STI Alignment =
    (if \<not> FeatureRelax STI then None
     else case shouldInsertExtraNopBytesForCodeAlign STI Alignment of
         None \<Rightarrow> None
       | Some Count \<Rightarrow>
           if Count = 0 then None
           else Some (fixup_riscv_align, \<lparr>SymA = None, SymB = None, Constant = ucast Count\<rparr>))"

section \<open>DWARF tables\<close>

definition getRelocPairForSize :: "nat \<Rightarrow> (MCFixupKind \<times> MCFixupKind) option" where
  "getRelocPairForSize Size =
    (if Size = 1 then Some (fixup_riscv_add_8, fixup_riscv_sub_8)
     else if Size = 2 then Some (fixup_riscv_add_16, fixup_riscv_sub_16)
     else if Size = 4 then Some (fixup_riscv_add_32, fixup_riscv_sub_32)
     else if Size = 8 then Some (fixup_riscv_add_64, fixup_riscv_sub_64)
     else None)"

definition fixup_pair :: "nat \<Rightarrow> 'e \<Rightarrow> 'e \<Rightarrow> MCFixupKind \<times> MCFixupKind \<Rightarrow> 'e MCFixup list" where
  "fixup_pair off lhs rhs Fixup =
    [\<lparr>fixup_offset = off, fixup_value = lhs, fixup_kind = fst Fixup\<rparr>,
     \<lparr>fixup_offset = off, fixup_value = rhs, fixup_kind = snd Fixup\<rparr>]"

text \<open>The contents and fixups of a fragment.\<close>

type_synonym 'e contents = "u8 list \<times> 'e MCFixup list"

definition INT64_MAX :: u64 where "INT64_MAX = 0x7fffffffffffffff"

text \<open>The address part of a line entry for an address delta: the opcode, the place of the operand, its
  fixups and its zero bytes.\<close>

definition line_address :: "nat \<Rightarrow> u64 \<Rightarrow> (u8 list \<times> (MCFixupKind \<times> MCFixupKind) option \<times> nat) option" where
  "line_address PtrSize Value =
    (if 60000 <s Value then
       if PtrSize = 4 \<or> PtrSize = 8 then
         Some (0 # fst (encodeULEB128 (of_nat (PtrSize + 1)) 0) @ [2], getRelocPairForSize PtrSize, PtrSize)
       else None
     else Some ([9], getRelocPairForSize 2, 2))"

definition relaxDwarfLineAddr ::
  "nat \<Rightarrow> u64 \<Rightarrow> u64 \<Rightarrow> 'e \<Rightarrow> 'e \<Rightarrow> 'e contents \<Rightarrow> ('e contents \<times> bool) option" where
  "relaxDwarfLineAddr PtrSize LineDelta Value lhs rhs old =
    (let head = (if LineDelta \<noteq> INT64_MAX then 3 # fst (encodeSLEB128 LineDelta 0) else []) in
     case line_address PtrSize Value of
       None \<Rightarrow> None
     | Some (_, None, _) \<Rightarrow> None
     | Some (op, Some Fixup, zeros) \<Rightarrow>
         let Offset = length (head @ op);
             tail = (if LineDelta = INT64_MAX then [0, 1, 1] else [1]);
             Data = head @ op @ replicate zeros 0 @ tail
         in Some ((Data, fixup_pair Offset lhs rhs Fixup), length (fst old) \<noteq> length Data))"

text \<open>The advance of a call frame instruction. The delta may be absolute already, which leaves the
  fragment to the generic code: the first component tells whether the backend took it.\<close>

definition relaxDwarfCFA ::
  "bool \<Rightarrow> u64 \<Rightarrow> 'e \<Rightarrow> 'e \<Rightarrow> 'e contents \<Rightarrow> (bool \<times> 'e contents \<times> bool) option" where
  "relaxDwarfCFA absolute Value lhs rhs old =
    (if absolute then Some (False, old, False)
     else if Value = 0 then Some (True, ([], []), length (fst old) \<noteq> 0)
     else
       let pick =
         (if isUIntN 6 Value then Some ([0x40], fixup_pair 0 lhs rhs (fixup_riscv_set_6b, fixup_riscv_sub_6b))
          else if isUInt 8 Value then
            Some ([0x02, 0], fixup_pair 1 lhs rhs (fixup_riscv_set_8, fixup_riscv_sub_8))
          else if isUInt 16 Value then
            Some ([0x03, 0, 0], fixup_pair 1 lhs rhs (fixup_riscv_set_16, fixup_riscv_sub_16))
          else if isUInt 32 Value then
            Some ([0x04, 0, 0, 0, 0], fixup_pair 1 lhs rhs (fixup_riscv_set_32, fixup_riscv_sub_32))
          else None)
       in case pick of None \<Rightarrow> None | Some c \<Rightarrow> Some (True, c, length (fst old) \<noteq> length (fst c)))"

text \<open>A LEB128 value that is not absolute: whether it is known, the fixups and the value, which the
  evaluation overwrites even where it fails. The backend never asks for zero padding.\<close>

definition relaxLEB128 ::
  "bool \<Rightarrow> bool \<Rightarrow> 'e \<Rightarrow> bool \<times> u64 \<Rightarrow> u64 \<Rightarrow> 'e MCFixup list \<Rightarrow> (bool \<times> bool) \<times> 'e MCFixup list \<times> u64" where
  "relaxLEB128 ULEB128Reloc isSigned expr known Value Fixups =
    (if isSigned then ((False, False), Fixups, Value)
     else
       ((fst known, False),
        if ULEB128Reloc then Fixups @ [\<lparr>fixup_offset = 0, fixup_value = expr, fixup_kind = FK_Data_leb128\<rparr>] else Fixups,
        snd known))"

section \<open>The type of a relocation\<close>

text \<open>\<open>RISCVELFObjectWriter::getRelocType\<close>: whether the target is a \<open>@plt\<close> reference, whether the
  expression is \<open>%pcrel\<close> of 32 bits, and whether the fixup is relative to its address. The second
  result tells whether an error was reported.\<close>

definition getRelocType_pcrel :: "MCFixupKind \<Rightarrow> bool \<Rightarrow> RelType \<times> bool" where
  "getRelocType_pcrel Kind VK_PLT =
    (case Kind of
       FK_Data_4 \<Rightarrow> (if VK_PLT then R_RISCV_PLT32 else R_RISCV_32_PCREL, False)
     | FK_PCRel_4 \<Rightarrow> (if VK_PLT then R_RISCV_PLT32 else R_RISCV_32_PCREL, False)
     | fixup_riscv_pcrel_hi20 \<Rightarrow> (R_RISCV_PCREL_HI20, False)
     | fixup_riscv_pcrel_lo12_i \<Rightarrow> (R_RISCV_PCREL_LO12_I, False)
     | fixup_riscv_pcrel_lo12_s \<Rightarrow> (R_RISCV_PCREL_LO12_S, False)
     | fixup_riscv_got_hi20 \<Rightarrow> (R_RISCV_GOT_HI20, False)
     | fixup_riscv_tls_got_hi20 \<Rightarrow> (R_RISCV_TLS_GOT_HI20, False)
     | fixup_riscv_tls_gd_hi20 \<Rightarrow> (R_RISCV_TLS_GD_HI20, False)
     | fixup_riscv_jal \<Rightarrow> (R_RISCV_JAL, False)
     | fixup_riscv_branch \<Rightarrow> (R_RISCV_BRANCH, False)
     | fixup_riscv_rvc_jump \<Rightarrow> (R_RISCV_RVC_JUMP, False)
     | fixup_riscv_rvc_branch \<Rightarrow> (R_RISCV_RVC_BRANCH, False)
     | fixup_riscv_call \<Rightarrow> (R_RISCV_CALL_PLT, False)
     | fixup_riscv_call_plt \<Rightarrow> (R_RISCV_CALL_PLT, False)
     | fixup_riscv_add_8 \<Rightarrow> (R_RISCV_ADD8, False)
     | fixup_riscv_sub_8 \<Rightarrow> (R_RISCV_SUB8, False)
     | fixup_riscv_add_16 \<Rightarrow> (R_RISCV_ADD16, False)
     | fixup_riscv_sub_16 \<Rightarrow> (R_RISCV_SUB16, False)
     | fixup_riscv_add_32 \<Rightarrow> (R_RISCV_ADD32, False)
     | fixup_riscv_sub_32 \<Rightarrow> (R_RISCV_SUB32, False)
     | fixup_riscv_add_64 \<Rightarrow> (R_RISCV_ADD64, False)
     | fixup_riscv_sub_64 \<Rightarrow> (R_RISCV_SUB64, False)
     | _ \<Rightarrow> (R_RISCV_NONE, True))"

definition getRelocType_abs :: "MCFixupKind \<Rightarrow> bool \<Rightarrow> RelType \<times> bool" where
  "getRelocType_abs Kind VK_RISCV_32_PCREL =
    (case Kind of
       FK_Data_4 \<Rightarrow> (if VK_RISCV_32_PCREL then R_RISCV_32_PCREL else R_RISCV_32, False)
     | FK_Data_8 \<Rightarrow> (R_RISCV_64, False)
     | fixup_riscv_hi20 \<Rightarrow> (R_RISCV_HI20, False)
     | fixup_riscv_lo12_i \<Rightarrow> (R_RISCV_LO12_I, False)
     | fixup_riscv_lo12_s \<Rightarrow> (R_RISCV_LO12_S, False)
     | fixup_riscv_tprel_hi20 \<Rightarrow> (R_RISCV_TPREL_HI20, False)
     | fixup_riscv_tprel_lo12_i \<Rightarrow> (R_RISCV_TPREL_LO12_I, False)
     | fixup_riscv_tprel_lo12_s \<Rightarrow> (R_RISCV_TPREL_LO12_S, False)
     | fixup_riscv_tprel_add \<Rightarrow> (R_RISCV_TPREL_ADD, False)
     | fixup_riscv_relax \<Rightarrow> (R_RISCV_RELAX, False)
     | fixup_riscv_align \<Rightarrow> (R_RISCV_ALIGN, False)
     | fixup_riscv_set_6b \<Rightarrow> (R_RISCV_SET6, False)
     | fixup_riscv_sub_6b \<Rightarrow> (R_RISCV_SUB6, False)
     | fixup_riscv_add_8 \<Rightarrow> (R_RISCV_ADD8, False)
     | fixup_riscv_set_8 \<Rightarrow> (R_RISCV_SET8, False)
     | fixup_riscv_sub_8 \<Rightarrow> (R_RISCV_SUB8, False)
     | fixup_riscv_set_16 \<Rightarrow> (R_RISCV_SET16, False)
     | fixup_riscv_add_16 \<Rightarrow> (R_RISCV_ADD16, False)
     | fixup_riscv_sub_16 \<Rightarrow> (R_RISCV_SUB16, False)
     | fixup_riscv_set_32 \<Rightarrow> (R_RISCV_SET32, False)
     | fixup_riscv_add_32 \<Rightarrow> (R_RISCV_ADD32, False)
     | fixup_riscv_sub_32 \<Rightarrow> (R_RISCV_SUB32, False)
     | fixup_riscv_add_64 \<Rightarrow> (R_RISCV_ADD64, False)
     | fixup_riscv_sub_64 \<Rightarrow> (R_RISCV_SUB64, False)
     | _ \<Rightarrow> (R_RISCV_NONE, True))"

definition getRelocType :: "MCFixupKind \<Rightarrow> bool \<Rightarrow> bool \<Rightarrow> bool \<Rightarrow> RelType \<times> bool" where
  "getRelocType Kind VK_PLT VK_RISCV_32_PCREL pcrel =
    (case Kind of
       LiteralRelocation type \<Rightarrow> (type, False)
     | _ \<Rightarrow> if pcrel then getRelocType_pcrel Kind VK_PLT else getRelocType_abs Kind VK_RISCV_32_PCREL)"

end
