(* ===== verification/AsmBackendSound.thy ===== *)
theory AsmBackendSound
  imports AsmBackend RVRelocSound RVRelaxSound
begin

text \<open>
  The assembler against the linker. What the assembler stores for a resolved fixup is what the linker
  would store for the relocation \<open>getRelocType\<close> picks; a branch is relaxed exactly when the linker
  would reject it; the padding of an alignment directive is the one the linker takes back; the
  fixups of the DWARF fragments and the linker's additions and subtractions give the delta.
\<close>

section \<open>Bytes of a fixup\<close>

lemma length_or_bytes [simp]: "length (or_bytes D off v idx) = length D"
  by (induction idx arbitrary: D) simp_all

lemma or_bytes_append: "or_bytes D off v (xs @ ys) = or_bytes (or_bytes D off v xs) off v ys"
  by (induction xs arbitrary: D) simp_all

lemma nth_or_bytes:
  assumes "off + n \<le> length D" "j < length D"
  shows "or_bytes D off v [0..<n] ! j =
    (if off \<le> j \<and> j < off + n then D ! j OR ucast (drop_bit ((j - off) * 8) v AND 0xff) else D ! j)"
  using assms
proof (induction n)
  case (Suc n)
  then show ?case by (cases "j = off + n") (auto simp: or_bytes_append nth_list_update)
qed auto

text \<open>The bytes from the offset on, as a little-endian number.\<close>

lemma bit_of_mem_bytes_or:
  assumes "off + n \<le> length D" "LENGTH('a) = 8 * n"
  shows "of_mem_bytes (take n (drop off (or_bytes D off v [0..<n]))) =
    (of_mem_bytes (take n (drop off D)) OR ucast v :: 'a::len word)"
proof (rule bit_word_eqI)
  fix k assume k: "k < LENGTH('a)"
  then have d: "k div 8 < n" using assms(2) by (simp add: div_less_iff_less_mult)
  have u: "bit (ucast (drop_bit (k div 8 * 8) v AND 0xff) :: u8) (k mod 8) \<longleftrightarrow> bit v k"
  proof -
    have f: "bit (0xff :: u64) (k mod 8)" using bit_mask_iff [of 8 "k mod 8", where 'a = u64] by (simp add: mask_eq_exp_minus_1)
    have e: "k div 8 * 8 + k mod 8 = k" by simp
    show ?thesis using f by (simp add: bit_ucast_iff bit_and_iff bit_drop_bit_eq e)
  qed
  show "bit (of_mem_bytes (take n (drop off (or_bytes D off v [0..<n]))) :: 'a word) k =
    bit (of_mem_bytes (take n (drop off D)) OR ucast v :: 'a word) k"
    using d k assms(1) u by (simp add: bit_of_mem_bytes bit_or_iff nth_or_bytes bit_ucast_iff)
qed

lemma mem_bytes_of_mem_bytes:
  assumes "LENGTH('a::len) = 8 * n" "length bs = n"
  shows "mem_bytes (of_mem_bytes bs :: 'a word) = bs"
proof (rule nth_equalityI)
  fix i assume "i < length (mem_bytes (of_mem_bytes bs :: 'a word))"
  then have i: "i < n" using assms(1) by simp
  show "mem_bytes (of_mem_bytes bs :: 'a word) ! i = bs ! i"
  proof (rule bit_word_eqI)
    fix k assume "k < LENGTH(8)"
    then have k: "k < 8" by simp
    then have "(i * 8 + k) div 8 = i" "(i * 8 + k) mod 8 = k" "i * 8 + k < LENGTH('a)" using assms(1) i by simp_all
    then show "bit (mem_bytes (of_mem_bytes bs :: 'a word) ! i) k = bit (bs ! i) k"
      using i k assms by (simp add: mem_bytes_def bit_simps bit_of_mem_bytes ac_simps)
  qed
qed (simp add: assms)

lemma or_bytes_word:
  assumes "off + n \<le> length D" "LENGTH('a::len) = 8 * n"
  shows "or_bytes D off v [0..<n] =
    take off D @ mem_bytes (of_mem_bytes (take n (drop off D)) OR ucast v :: 'a word) @ drop (off + n) D"
proof -
  let ?R = "or_bytes D off v [0..<n]"
  have "mem_bytes (of_mem_bytes (take n (drop off ?R)) :: 'a word) = take n (drop off ?R)"
    by (rule mem_bytes_of_mem_bytes [OF assms(2)]) (use assms(1) in simp)
  then have "mem_bytes (of_mem_bytes (take n (drop off D)) OR ucast v :: 'a word) = take n (drop off ?R)"
    by (simp only: bit_of_mem_bytes_or [OF assms])
  moreover have "take off ?R = take off D"
    by (rule nth_equalityI) (use assms(1) nth_or_bytes [OF assms(1)] in auto)
  moreover have "drop (off + n) ?R = drop (off + n) D"
    by (rule nth_equalityI) (use assms(1) nth_or_bytes [OF assms(1)] in auto)
  moreover have "?R = take off ?R @ take n (drop off ?R) @ drop (off + n) ?R"
    by (metis append_take_drop_id drop_drop add.commute)
  ultimately show ?thesis by metis
qed

section \<open>The assembler's fields are the linker's\<close>

text \<open>The encoder leaves the field of an instruction zero, as if it had stored 0.\<close>

lemma zero_fields:
  "enc_jal w 0 = w AND 0xFFF" "enc_branch w 0 = w AND 0x1FFF07F"
  "enc_rvc_jump i 0 = i AND 0xE003" "enc_rvc_branch i 0 = i AND 0xE383"
  by (simp_all add: enc_jal_def enc_branch_def enc_rvc_jump_def enc_rvc_branch_def extractBits_def)

lemma zero_halves:
  "enc_hi20 w 0 = w AND 0xFFF" "enc_lo12_i w 0 = w AND 0xFFFFF" "enc_lo12_s w 0 = w AND 0x1FFF07F"
  by (simp_all add: enc_hi20_def enc_lo12_i_def enc_lo12_s_def setLO12_I_def setLO12_S_def extractBits_def)

lemma bit_mask_64: "k \<le> 64 \<Longrightarrow> bit (mask k :: u64) n \<longleftrightarrow> n < k"
  by (auto simp: bit_mask_iff)

lemma bit_low_mask:
  "bit (0x1 :: u64) n \<longleftrightarrow> n < 1" "bit (0x3 :: u64) n \<longleftrightarrow> n < 2" "bit (0x7 :: u64) n \<longleftrightarrow> n < 3"
  "bit (0xf :: u64) n \<longleftrightarrow> n < 4" "bit (0x1f :: u64) n \<longleftrightarrow> n < 5" "bit (0x3f :: u64) n \<longleftrightarrow> n < 6" "bit (0x7f :: u64) n \<longleftrightarrow> n < 7"
  "bit (0xff :: u64) n \<longleftrightarrow> n < 8" "bit (0x3ff :: u64) n \<longleftrightarrow> n < 10"
  "bit (0xfff :: u64) n \<longleftrightarrow> n < 12" "bit (0xfffff :: u64) n \<longleftrightarrow> n < 20"
  using bit_mask_64 [of 1 n] bit_mask_64 [of 2 n] bit_mask_64 [of 3 n]
    bit_mask_64 [of 4 n] bit_mask_64 [of 5 n] bit_mask_64 [of 6 n]
    bit_mask_64 [of 7 n] bit_mask_64 [of 8 n] bit_mask_64 [of 10 n]
    bit_mask_64 [of 12 n] bit_mask_64 [of 20 n]
  by (simp_all add: mask_eq_exp_minus_1)

lemma bit_twice: "bit (x * 2 :: u32) n \<longleftrightarrow> n < 32 \<and> n \<noteq> 0 \<and> bit x (n - 1)"
  using bit_double_iff [of x n] by (simp add: mult.commute)

lemma stored_jumps:
  "enc_jal w v = (w AND 0xFFF) OR ucast (push_bit 12 (adjust_jal v))"
  "enc_branch w v = (w AND 0x1FFF07F) OR ucast (push_bit 0 (adjust_branch v))"
  "enc_rvc_jump i v = (i AND 0xE003) OR ucast (push_bit 2 (adjust_rvc_jump v))"
  "enc_rvc_branch i v = (i AND 0xE383) OR ucast (push_bit 0 (adjust_rvc_branch v))"
  by (rule word_eqI_list; simp add: upts enc_jal_def enc_branch_def enc_rvc_jump_def enc_rvc_branch_def
      adjust_jal_def adjust_branch_def adjust_rvc_jump_def adjust_rvc_branch_def bit_simps bit_extractBits bit_low_mask bit_twice)+

lemma stored_halves:
  "enc_hi20 w v = (w AND 0xFFF) OR ucast (push_bit 12 (drop_bit 12 (v + 0x800) AND 0xfffff))"
  "enc_lo12_i w v = (w AND 0xFFFFF) OR ucast (push_bit 20 (v AND 0xfff))"
  "enc_lo12_s w v = (w AND 0x1FFF07F) OR ucast (push_bit 0 (push_bit 25 (drop_bit 5 v AND 0x7f) OR push_bit 7 (v AND 0x1f)))"
proof -
  show "enc_hi20 w v = (w AND 0xFFF) OR ucast (push_bit 12 (drop_bit 12 (v + 0x800) AND 0xfffff))"
    unfolding enc_hi20_def Let_def
    by (rule bit_word_eqI, simp only: bit_or_iff bit_and_iff bit_ucast_iff bit_push_bit_iff bit_drop_bit_eq comp_def
        bit_low_mask bit_0xFFFFF000) auto
  have low: "bit (v - push_bit 12 x) n \<longleftrightarrow> bit v n" if "n < 12" for n x
    using low12_of_difference that .
  show "enc_lo12_i w v = (w AND 0xFFFFF) OR ucast (push_bit 20 (v AND 0xfff))"
    unfolding enc_lo12_i_def setLO12_I_def Let_def
    by (rule bit_word_eqI, simp only: bit_or_iff bit_and_iff bit_ucast_iff bit_push_bit_iff bit_low_mask) (auto simp: low)
  show "enc_lo12_s w v = (w AND 0x1FFF07F) OR ucast (push_bit 0 (push_bit 25 (drop_bit 5 v AND 0x7f) OR push_bit 7 (v AND 0x1f)))"
    unfolding enc_lo12_s_def setLO12_S_def Let_def
    by (rule bit_word_eqI, simp only: bit_or_iff bit_and_iff bit_ucast_iff bit_push_bit_iff bit_drop_bit_eq comp_def
        bit_low_mask bit_extractBits [where b = 11, simplified] bit_extractBits [where b = 4, simplified]) (auto simp: low)
qed

section \<open>Storing a value\<close>

definition fixup_bytes :: "MCFixupKind \<Rightarrow> nat" where
  "fixup_bytes Kind =
    unat (alignTo (of_nat (TargetSize (getFixupKindInfo Kind) + TargetOffset (getFixupKindInfo Kind))) 8) div 8"

lemma applyFixup_word:
  assumes "adjustFixupValue (fixup_kind F) V = Some (v, ds)" "\<not> is_literal (fixup_kind F)" "V \<noteq> 0"
    "fixup_bytes (fixup_kind F) = n" "LENGTH('a::len) = 8 * n" "fixup_offset F + n \<le> length Data"
  shows "applyFixup F Data V =
    Some (take (fixup_offset F) Data @
      mem_bytes (of_mem_bytes (take n (drop (fixup_offset F) Data)) OR
        ucast (push_bit (TargetOffset (getFixupKindInfo (fixup_kind F))) v) :: 'a word) @
      drop (fixup_offset F + n) Data, ds)"
  using assms(1-3) or_bytes_word [OF assms(6,5)] assms(4,6)
  by (simp add: applyFixup_def Let_def fixup_bytes_def)

definition jump_fixups :: "MCFixupKind set" where
  "jump_fixups = {fixup_riscv_jal, fixup_riscv_branch, fixup_riscv_rvc_jump, fixup_riscv_rvc_branch}"

definition hi20_fixups :: "MCFixupKind set" where
  "hi20_fixups = {fixup_riscv_hi20, fixup_riscv_pcrel_hi20, fixup_riscv_tprel_hi20}"

definition lo12_i_fixups :: "MCFixupKind set" where
  "lo12_i_fixups = {fixup_riscv_lo12_i, fixup_riscv_pcrel_lo12_i, fixup_riscv_tprel_lo12_i}"

definition lo12_s_fixups :: "MCFixupKind set" where
  "lo12_s_fixups = {fixup_riscv_lo12_s, fixup_riscv_pcrel_lo12_s, fixup_riscv_tprel_lo12_s}"

definition call_fixups :: "MCFixupKind set" where
  "call_fixups = {fixup_riscv_call, fixup_riscv_call_plt}"

definition insn_fixups :: "MCFixupKind set" where
  "insn_fixups = jump_fixups \<union> hi20_fixups \<union> lo12_i_fixups \<union> lo12_s_fixups \<union> call_fixups"

lemmas fixup_sets = jump_fixups_def hi20_fixups_def lo12_i_fixups_def lo12_s_fixups_def call_fixups_def

definition fixup_reloc :: "MCFixupKind \<Rightarrow> RelType" where
  "fixup_reloc Kind = fst (getRelocType Kind False False (IsPCRel (getFixupKindInfo Kind)))"

lemma alignTo_bytes: "unat (alignTo 32 8) div 8 = 4" "unat (alignTo 13 8) div 8 = 2" "unat (alignTo 16 8) div 8 = 2"
    "unat (alignTo 64 8) div 8 = 8" "unat (alignTo 8 8) div 8 = 1"
  by code_simp+

lemma fixup_bytes_insn:
  "fixup_bytes fixup_riscv_jal = 4" "fixup_bytes fixup_riscv_branch = 4"
  "fixup_bytes fixup_riscv_rvc_jump = 2" "fixup_bytes fixup_riscv_rvc_branch = 2"
  "Kind \<in> hi20_fixups \<union> lo12_i_fixups \<union> lo12_s_fixups \<Longrightarrow> fixup_bytes Kind = 4"
  "Kind \<in> call_fixups \<Longrightarrow> fixup_bytes Kind = 8"
  by (auto simp: fixup_bytes_def getFixupKindInfo_def plain_info_def pcrel_info_def targeted_info_def fixup_sets alignTo_bytes)

lemma fixup_reloc_types:
  "fixup_reloc fixup_riscv_jal = R_RISCV_JAL" "fixup_reloc fixup_riscv_branch = R_RISCV_BRANCH"
  "fixup_reloc fixup_riscv_rvc_jump = R_RISCV_RVC_JUMP" "fixup_reloc fixup_riscv_rvc_branch = R_RISCV_RVC_BRANCH"
  "Kind \<in> hi20_fixups \<Longrightarrow> fixup_reloc Kind \<in> hi20_types"
  "Kind \<in> lo12_i_fixups \<Longrightarrow> fixup_reloc Kind \<in> lo12_i_types"
  "Kind \<in> lo12_s_fixups \<Longrightarrow> fixup_reloc Kind \<in> lo12_s_types"
  "Kind \<in> call_fixups \<Longrightarrow> fixup_reloc Kind = R_RISCV_CALL_PLT"
  by (auto simp: fixup_reloc_def getRelocType_def getRelocType_pcrel_def getRelocType_abs_def getFixupKindInfo_def
      plain_info_def pcrel_info_def targeted_info_def fixup_sets hi20_types_def lo12_i_types_def lo12_s_types_def)

text \<open>
  A little-endian accessor of words of \<open>n\<close> bytes. An instruction whose field is zero is patched by
  the assembler as the linker patches it, if the linker's encoder \<open>enc\<close> stores the adjusted value
  beside the bits of a mask.
\<close>

locale le_word =
  fixes rd :: "u8 list \<Rightarrow> 'w::len word" and wr :: "u8 list \<Rightarrow> 'w word \<Rightarrow> u8 list" and n :: nat
  assumes width: "LENGTH('w) = 8 * n"
    and rd_bytes: "rd l = of_mem_bytes (take n l)"
    and wr_bytes: "wr l w = mem_bytes w @ drop n l"
begin

lemma rd_wr: "rd (wr l w) = w"
proof -
  have "length (mem_bytes w) = n" using width by simp
  then show ?thesis using width by (simp add: rd_bytes wr_bytes of_mem_bytes_mem_bytes)
qed

lemma patch:
  fixes enc :: "'w word \<Rightarrow> u64 \<Rightarrow> 'w word"
  assumes "adjustFixupValue (fixup_kind F) V = Some (v, ds)" "\<not> is_literal (fixup_kind F)" "V \<noteq> 0"
    "fixup_bytes (fixup_kind F) = n" "fixup_offset F + n \<le> length Data"
    "\<And>w. enc w 0 = w AND m" "\<And>w. enc w V = (w AND m) OR ucast (push_bit (TargetOffset (getFixupKindInfo (fixup_kind F))) v)"
    "wr (drop (fixup_offset F) Data) (enc (rd (drop (fixup_offset F) Data)) 0) = drop (fixup_offset F) Data"
  shows "applyFixup F Data V =
    Some (take (fixup_offset F) Data @ wr (drop (fixup_offset F) Data) (enc (rd (drop (fixup_offset F) Data)) V), ds)"
proof -
  let ?l = "drop (fixup_offset F) Data"
  have "enc (rd ?l) 0 = rd ?l" using arg_cong [OF assms(8), of rd] by (simp add: rd_wr)
  then have k: "rd ?l AND m = rd ?l" by (simp only: assms(6))
  have "applyFixup F Data V = Some (take (fixup_offset F) Data @
      mem_bytes (rd ?l OR ucast (push_bit (TargetOffset (getFixupKindInfo (fixup_kind F))) v) :: 'w word) @
      drop (fixup_offset F + n) Data, ds)"
    unfolding rd_bytes by (rule applyFixup_word [OF assms(1-4) width assms(5)])
  then show ?thesis by (simp add: wr_bytes assms(7) k add.commute)
qed

end

interpretation le16: le_word read16le write16le 2
  by unfold_locales (simp_all add: read16le_def write16le_def)

interpretation le32: le_word read32le write32le 4
  by unfold_locales (simp_all add: read32le_def write32le_def)

interpretation le64: le_word read64le write64le 8
  by unfold_locales (simp_all add: read64le_def write64le_def)

text \<open>A call patches two words at once.\<close>

lemma mem_bytes_halves: "mem_bytes (x :: u64) = mem_bytes (ucast x :: u32) @ mem_bytes (ucast (drop_bit 32 x) :: u32)"
proof (rule nth_equalityI)
  fix i assume "i < length (mem_bytes x)"
  then have i: "i < 8" by simp
  show "mem_bytes x ! i = (mem_bytes (ucast x :: u32) @ mem_bytes (ucast (drop_bit 32 x) :: u32)) ! i"
  proof (cases "i < 4")
    case True
    then show ?thesis by (intro bit_word_eqI) (auto simp: mem_bytes_def nth_append bit_simps)
  next
    case False
    then obtain j where "i = 4 + j" "j < 4" using i by (metis add_less_cancel_left le_Suc_ex not_less numeral_Bit0)
    then show ?thesis by (intro bit_word_eqI) (auto simp: mem_bytes_def nth_append bit_simps ac_simps)
  qed
qed simp

lemma of_mem_bytes_halves:
  assumes "8 \<le> length l"
  shows "(ucast (of_mem_bytes (take 8 l) :: u64) :: u32) = read32le l"
    "(ucast (drop_bit 32 (of_mem_bytes (take 8 l) :: u64)) :: u32) = read32le (drop 4 l)"
proof -
  have d: "k < 32 \<Longrightarrow> k div 8 < 4" "(32 + k) div 8 = 4 + k div 8" "(32 + k) mod 8 = k mod 8" for k :: nat by presburger+
  show "(ucast (of_mem_bytes (take 8 l) :: u64) :: u32) = read32le l"
    by (rule bit_word_eqI) (use assms d in \<open>auto simp: read32le_def bit_simps bit_of_mem_bytes\<close>)
  show "(ucast (drop_bit 32 (of_mem_bytes (take 8 l) :: u64)) :: u32) = read32le (drop 4 l)"
    by (rule bit_word_eqI) (use assms d in \<open>auto simp: read32le_def bit_simps bit_of_mem_bytes\<close>)
qed

lemma applyFixup_call:
  assumes "fixup_kind F \<in> call_fixups" "V \<noteq> 0" "fixup_offset F + 8 \<le> length Data"
    "enc_hi20 (read32le (drop (fixup_offset F) Data)) 0 = read32le (drop (fixup_offset F) Data)"
    "enc_lo12_i (read32le (drop (fixup_offset F + 4) Data)) 0 = read32le (drop (fixup_offset F + 4) Data)"
  shows "applyFixup F Data V =
    Some (take (fixup_offset F) Data @ mem_bytes (enc_hi20 (read32le (drop (fixup_offset F) Data)) V) @
      write32le (drop (fixup_offset F + 4) Data) (enc_lo12_i (read32le (drop (fixup_offset F + 4) Data)) V), [])"
proof -
  let ?l = "drop (fixup_offset F) Data"
  let ?w = "of_mem_bytes (take 8 ?l) OR ucast (push_bit 0 (adjust_call V)) :: u64"
  have k: "fixup_kind F = fixup_riscv_call \<or> fixup_kind F = fixup_riscv_call_plt"
    using assms(1) by (simp add: call_fixups_def)
  have w: "applyFixup F Data V = Some (take (fixup_offset F) Data @ mem_bytes ?w @ drop (fixup_offset F + 8) Data, [])"
    using applyFixup_word [of F V "adjust_call V" "[]" 8 Data, where 'a = 64] k fixup_bytes_insn(6) [OF assms(1)] assms(2,3)
    by (auto simp: adjustFixupValue_def is_literal_def getFixupKindInfo_def pcrel_info_def)
  have l: "8 \<le> length ?l" using assms(3) by simp
  have d4: "drop 4 ?l = drop (fixup_offset F + 4) Data" by (simp add: add.commute)
  have lo: "ucast (adjust_call V) = (ucast (push_bit 12 (drop_bit 12 (V + 0x800) AND 0xfffff)) :: u32)"
    unfolding adjust_call_def Let_def
    by (rule bit_word_eqI, simp only: bit_or_iff bit_and_iff bit_ucast_iff bit_push_bit_iff bit_drop_bit_eq comp_def
        bit_low_mask bit_0xFFFFF000) auto
  have hi: "ucast (drop_bit 32 (adjust_call V)) = (ucast (push_bit 20 (V AND 0xfff)) :: u32)"
    unfolding adjust_call_def Let_def
    by (rule bit_word_eqI, simp only: bit_or_iff bit_and_iff bit_ucast_iff bit_push_bit_iff bit_drop_bit_eq comp_def
        bit_low_mask bit_0xFFFFF000) auto
  have "ucast ?w = enc_hi20 (read32le ?l) V"
    using assms(4) of_mem_bytes_halves(1) [OF l] lo stored_halves(1) [of "read32le ?l" V]
    by (simp add: zero_halves(1) unsigned_or_eq)
  moreover have "ucast (drop_bit 32 ?w) = enc_lo12_i (read32le (drop 4 ?l)) V"
    using assms(5) of_mem_bytes_halves(2) [OF l] hi stored_halves(2) [of "read32le (drop 4 ?l)" V] d4
    by (simp add: zero_halves(2) unsigned_or_eq drop_bit_or)
  ultimately have "mem_bytes ?w = mem_bytes (enc_hi20 (read32le ?l) V) @ mem_bytes (enc_lo12_i (read32le (drop 4 ?l)) V)"
    by (simp only: mem_bytes_halves)
  then show ?thesis using w d4 by (simp add: write32le_def add.commute)
qed

lemma check_branch_iff:
  assumes "0 < n" "n \<le> 64"
  shows "check_branch n V = [] \<longleftrightarrow> checkInt V n t @ checkAlignment V 2 t = []"
  by (auto simp: check_branch_def checkInt_iff checkAlignment_def isInt_SignExtend64 [OF assms])

lemma applyFixup_jump:
  assumes "fixup_kind F \<in> jump_fixups" "V \<noteq> 0"
    "fixup_offset F + patch_size (fixup_reloc (fixup_kind F)) \<le> length Data"
    "relocate c gp (drop (fixup_offset F) Data) (fixup_reloc (fixup_kind F)) 0 = Some (drop (fixup_offset F) Data, ds0)"
    "relocate c gp (drop (fixup_offset F) Data) (fixup_reloc (fixup_kind F)) V = Some (loc, [])"
  shows "applyFixup F Data V = Some (take (fixup_offset F) Data @ loc, [])"
proof -
  consider "fixup_kind F = fixup_riscv_jal" | "fixup_kind F = fixup_riscv_branch"
    | "fixup_kind F = fixup_riscv_rvc_jump" | "fixup_kind F = fixup_riscv_rvc_branch"
    using assms(1) by (auto simp: jump_fixups_def)
  then show ?thesis
  proof cases
    case 1
    have "check_branch 21 V = []"
      using assms(5) check_branch_iff [of 21 V R_RISCV_JAL] by (simp add: 1 fixup_reloc_types relocate_jumps)
    with le32.patch [of F V "adjust_jal V" "[]" Data enc_jal "0xFFF"] assms(2-5) show ?thesis
      by (simp add: 1 fixup_reloc_types relocate_jumps fixup_bytes_insn patch_size_def adjustFixupValue_def is_literal_def
          getFixupKindInfo_def pcrel_info_def zero_fields stored_jumps [of _ V])
  next
    case 2
    have "check_branch 13 V = []"
      using assms(5) check_branch_iff [of 13 V R_RISCV_BRANCH] by (simp add: 2 fixup_reloc_types relocate_jumps)
    with le32.patch [of F V "adjust_branch V" "[]" Data enc_branch "0x1FFF07F"] assms(2-5) show ?thesis
      by (simp add: 2 fixup_reloc_types relocate_jumps fixup_bytes_insn patch_size_def adjustFixupValue_def is_literal_def
          getFixupKindInfo_def pcrel_info_def zero_fields stored_jumps [of _ V])
  next
    case 3
    with le16.patch [of F V "adjust_rvc_jump V" "[]" Data enc_rvc_jump "0xE003"] assms(2-5) show ?thesis
      by (simp add: fixup_reloc_types relocate_jumps fixup_bytes_insn patch_size_def adjustFixupValue_def is_literal_def
          getFixupKindInfo_def pcrel_info_def zero_fields stored_jumps [of _ V])
  next
    case 4
    with le16.patch [of F V "adjust_rvc_branch V" "[]" Data enc_rvc_branch "0xE383"] assms(2-5) show ?thesis
      by (simp add: fixup_reloc_types relocate_jumps fixup_bytes_insn patch_size_def adjustFixupValue_def is_literal_def
          getFixupKindInfo_def pcrel_info_def zero_fields stored_jumps [of _ V])
  qed
qed

lemma applyFixup_half:
  assumes "fixup_kind F \<in> hi20_fixups \<union> lo12_i_fixups \<union> lo12_s_fixups" "V \<noteq> 0"
    "fixup_offset F + patch_size (fixup_reloc (fixup_kind F)) \<le> length Data"
    "relocate c gp (drop (fixup_offset F) Data) (fixup_reloc (fixup_kind F)) 0 = Some (drop (fixup_offset F) Data, ds0)"
    "relocate c gp (drop (fixup_offset F) Data) (fixup_reloc (fixup_kind F)) V = Some (loc, [])"
  shows "applyFixup F Data V = Some (take (fixup_offset F) Data @ loc, [])"
proof -
  have sz: "t \<in> hi20_types \<union> lo12_i_types \<union> lo12_s_types \<Longrightarrow> patch_size t = 4" for t
    by (auto simp: hi20_types_def lo12_i_types_def lo12_s_types_def patch_size_def)
  have lit: "\<not> is_literal (fixup_kind F)" using assms(1) by (auto simp: fixup_sets is_literal_def)
  consider "fixup_kind F \<in> hi20_fixups" | "fixup_kind F \<in> lo12_i_fixups" | "fixup_kind F \<in> lo12_s_fixups"
    using assms(1) by blast
  then show ?thesis
  proof cases
    case 1
    have a: "adjustFixupValue (fixup_kind F) V = Some (drop_bit 12 (V + 0x800) AND 0xfffff, [])"
      "TargetOffset (getFixupKindInfo (fixup_kind F)) = 12"
      using 1 by (auto simp: hi20_fixups_def adjustFixupValue_def getFixupKindInfo_def plain_info_def targeted_info_def)
    have t: "fixup_reloc (fixup_kind F) \<in> hi20_types" using fixup_reloc_types(5) [OF 1] .
    from le32.patch [OF a(1) lit assms(2), of Data enc_hi20 "0xFFF"] assms(3-5) show ?thesis
      by (simp add: a(2) fixup_bytes_insn(5) [OF assms(1)] sz t relocate_halves(1) [OF t] zero_halves stored_halves [of _ V])
  next
    case 2
    have a: "adjustFixupValue (fixup_kind F) V = Some (V AND 0xfff, [])"
      "TargetOffset (getFixupKindInfo (fixup_kind F)) = 20"
      using 2 by (auto simp: lo12_i_fixups_def adjustFixupValue_def getFixupKindInfo_def plain_info_def targeted_info_def)
    have t: "fixup_reloc (fixup_kind F) \<in> lo12_i_types" using fixup_reloc_types(6) [OF 2] .
    from le32.patch [OF a(1) lit assms(2), of Data enc_lo12_i "0xFFFFF"] assms(3-5) show ?thesis
      by (simp add: a(2) fixup_bytes_insn(5) [OF assms(1)] sz t relocate_halves(2) [OF t] zero_halves stored_halves [of _ V])
  next
    case 3
    have a: "adjustFixupValue (fixup_kind F) V = Some (push_bit 25 (drop_bit 5 V AND 0x7f) OR push_bit 7 (V AND 0x1f), [])"
      "TargetOffset (getFixupKindInfo (fixup_kind F)) = 0"
      using 3 by (auto simp: lo12_s_fixups_def adjustFixupValue_def getFixupKindInfo_def plain_info_def targeted_info_def)
    have t: "fixup_reloc (fixup_kind F) \<in> lo12_s_types" using fixup_reloc_types(7) [OF 3] .
    from le32.patch [OF a(1) lit assms(2), of Data enc_lo12_s "0x1FFF07F"] assms(3-5) show ?thesis
      by (simp add: a(2) fixup_bytes_insn(5) [OF assms(1)] sz t relocate_halves(3) [OF t] zero_halves stored_halves [of _ V])
  qed
qed

section \<open>The assembler and the linker agree\<close>

text \<open>C25: for every fixup of an instruction, storing a resolved value in the assembler gives the bytes
  the linker stores for the relocation the object writer would have chosen, whenever the linker accepts
  the value; the instruction was encoded with 0 in its field.\<close>
theorem assembler_matches_linker:
  assumes "fixup_kind F \<in> insn_fixups"
    "fixup_offset F + patch_size (fixup_reloc (fixup_kind F)) \<le> length Data"
    "relocate c gp (drop (fixup_offset F) Data) (fixup_reloc (fixup_kind F)) 0 = Some (drop (fixup_offset F) Data, ds0)"
    "relocate c gp (drop (fixup_offset F) Data) (fixup_reloc (fixup_kind F)) V = Some (loc, [])"
  shows "applyFixup F Data V = Some (take (fixup_offset F) Data @ loc, [])"
proof (cases "V = 0")
  case True
  then have "loc = drop (fixup_offset F) Data" using assms(3,4) by simp
  then show ?thesis using True by (simp add: applyFixup_def)
next
  case False
  consider "fixup_kind F \<in> jump_fixups" | "fixup_kind F \<in> hi20_fixups \<union> lo12_i_fixups \<union> lo12_s_fixups"
    | "fixup_kind F \<in> call_fixups"
    using assms(1) by (auto simp: insn_fixups_def)
  then show ?thesis
  proof cases
    case 1
    then show ?thesis by (rule applyFixup_jump [OF _ False assms(2-4)])
  next
    case 2
    then show ?thesis by (rule applyFixup_half [OF _ False assms(2-4)])
  next
    case 3
    let ?l = "drop (fixup_offset F) Data"
    have t: "fixup_reloc (fixup_kind F) = R_RISCV_CALL_PLT" using fixup_reloc_types(8) [OF 3] .
    then have sz: "fixup_offset F + 8 \<le> length Data" "8 \<le> length ?l" using assms(2) by (simp_all add: patch_size_def)
    note call = relocate_call_eq [OF _ sz(2), of R_RISCV_CALL_PLT c gp, simplified]
    have "isInt 20 (signed_drop_bit 12 (SignExtend64 0x800 (wordsize c * 8)))"
      by (cases "is64 c") (simp_all add: wordsize_def, code_simp+)
    then have z: "mem_bytes (enc_hi20 (read32le ?l) 0) @ write32le (drop 4 ?l) (enc_lo12_i (read32le (drop 4 ?l)) 0) = ?l"
      using assms(3) by (simp add: t call)
    have "read32le (mem_bytes (enc_hi20 (read32le ?l) 0) @ write32le (drop 4 ?l) (enc_lo12_i (read32le (drop 4 ?l)) 0)) = enc_hi20 (read32le ?l) 0"
      by (rule read32le_append)
    then have h: "enc_hi20 (read32le ?l) 0 = read32le ?l" by (simp only: z)
    have "drop 4 (mem_bytes (enc_hi20 (read32le ?l) 0) @ write32le (drop 4 ?l) (enc_lo12_i (read32le (drop 4 ?l)) 0)) =
        write32le (drop 4 ?l) (enc_lo12_i (read32le (drop 4 ?l)) 0)" by simp
    then have "write32le (drop 4 ?l) (enc_lo12_i (read32le (drop 4 ?l)) 0) = drop 4 ?l" by (simp only: z)
    from arg_cong [OF this, of read32le] have "enc_lo12_i (read32le (drop 4 ?l)) 0 = read32le (drop 4 ?l)"
      by (simp only: read_write)
    then have lo: "enc_lo12_i (read32le (drop (fixup_offset F + 4) Data)) 0 = read32le (drop (fixup_offset F + 4) Data)"
      by (simp add: add.commute)
    have "isInt 20 (signed_drop_bit 12 (SignExtend64 (V + 0x800) (wordsize c * 8)))"
    proof (rule ccontr)
      assume n: "\<not> ?thesis"
      then have "checkInt (signed_drop_bit 12 (SignExtend64 (V + 0x800) (wordsize c * 8))) 20 R_RISCV_CALL_PLT = []"
        using assms(4) by (simp add: t call)
      with n show False by (simp add: checkInt_iff isInt_SignExtend64)
    qed
    then have "loc = mem_bytes (enc_hi20 (read32le ?l) V) @ write32le (drop 4 ?l) (enc_lo12_i (read32le (drop 4 ?l)) V)"
      using assms(4) by (simp add: t call)
    then show ?thesis using applyFixup_call [OF 3 False sz(1) h lo] by (simp add: add.commute)
  qed
qed

definition ex_cfg :: config where
  "ex_cfg = \<lparr>is64 = True, cfg_relax = True, cfg_eflags = 0, writeAddends = False\<rparr>"

definition ex_fixup :: "nat \<Rightarrow> MCFixupKind \<Rightarrow> unit MCFixup" where
  "ex_fixup off Kind = \<lparr>fixup_offset = off, fixup_value = (), fixup_kind = Kind\<rparr>"

lemma assembler_matches_linker_witness:
  "applyFixup (ex_fixup 4 fixup_riscv_call_plt) [1, 2, 3, 4, 0x97, 0x00, 0, 0, 0xe7, 0x80, 0, 0] 0x12345678 =
    Some ([1, 2, 3, 4, 0x97, 0x50, 0x34, 0x12, 0xe7, 0x80, 0x80, 0x67], [])"
proof -
  let ?D = "[1, 2, 3, 4, 0x97, 0x00, 0, 0, 0xe7, 0x80, 0, 0] :: u8 list"
  have f: "fixup_kind (ex_fixup 4 fixup_riscv_call_plt) = fixup_riscv_call_plt" "fixup_offset (ex_fixup 4 fixup_riscv_call_plt) = 4"
    "drop 4 ?D = [0x97, 0x00, 0, 0, 0xe7, 0x80, 0, 0]" "take 4 ?D = [1, 2, 3, 4]"
    by (simp_all add: ex_fixup_def eval_nat_numeral)
  have t: "fixup_reloc fixup_riscv_call_plt = R_RISCV_CALL_PLT" by (simp add: fixup_reloc_types call_fixups_def)
  have 1: "relocate ex_cfg None [0x97, 0x00, 0, 0, 0xe7, 0x80, 0, 0] R_RISCV_CALL_PLT 0 = Some ([0x97, 0x00, 0, 0, 0xe7, 0x80, 0, 0], [])"
    and 2: "relocate ex_cfg None [0x97, 0x00, 0, 0, 0xe7, 0x80, 0, 0] R_RISCV_CALL_PLT 0x12345678 =
      Some ([0x97, 0x50, 0x34, 0x12, 0xe7, 0x80, 0x80, 0x67], [])"
    by code_simp+
  show ?thesis
    using assembler_matches_linker [of "ex_fixup 4 fixup_riscv_call_plt" ?D ex_cfg None "[]" "0x12345678"] 1 2
    by (simp add: f t insn_fixups_def call_fixups_def patch_size_def)
qed

text \<open>C26: a resolved branch to an even distance is relaxed exactly when the linker would reject the
  distance in the unrelaxed instruction; unrelaxed, it is stored without an error and reads back as
  the distance.\<close>
theorem relaxation_exact:
  assumes "fixup_kind F \<in> {fixup_riscv_branch, fixup_riscv_rvc_branch, fixup_riscv_rvc_jump}" "\<not> bit V 0"
    "relocate c gp (drop (fixup_offset F) Data) (fixup_reloc (fixup_kind F)) 0 = Some (drop (fixup_offset F) Data, [])"
    "fixup_offset F + patch_size (fixup_reloc (fixup_kind F)) \<le> length Data"
  shows "\<exists>loc ds. relocate c gp (drop (fixup_offset F) Data) (fixup_reloc (fixup_kind F)) V = Some (loc, ds) \<and>
    (if fixupNeedsRelaxationAdvanced (fixup_kind F) True V forced then ds \<noteq> []
     else ds = [] \<and> applyFixup F Data V = Some (take (fixup_offset F) Data @ loc, []) \<and>
       jump_offset (fixup_reloc (fixup_kind F)) loc = V)"
proof -
  let ?l = "drop (fixup_offset F) Data" and ?t = "fixup_reloc (fixup_kind F)"
  have al: "checkAlignment V 2 t = []" for t
    using assms(2) by (simp add: checkAlignment_def and_one_eq_0_iff)
  have ev: "even (sint V)" using assms(2) bit_sint_iff [of V 0] by (simp add: bit_0)
  have need: "fixupNeedsRelaxationAdvanced (fixup_kind F) True V forced \<longleftrightarrow> \<not> isInt (jump_width ?t) V"
    using assms(1) ev
    by (auto simp: fixupNeedsRelaxationAdvanced_def fixup_reloc_types jump_width_def isInt_iff_aux elim!: evenE)
  have rel: "\<exists>loc. relocate c gp ?l ?t V = Some (loc, checkInt V (jump_width ?t) ?t @ checkAlignment V 2 ?t)"
    using assms(1) by (auto simp: fixup_reloc_types relocate_jumps jump_width_def)
  then obtain loc where r: "relocate c gp ?l ?t V = Some (loc, checkInt V (jump_width ?t) ?t)"
    by (auto simp: al)
  have ok: "checkInt V (jump_width ?t) ?t = [] \<longleftrightarrow> isInt (jump_width ?t) V"
    using assms(1) by (auto simp: checkInt_iff fixup_reloc_types jump_width_def isInt_SignExtend64)
  have j: "fixup_kind F \<in> jump_fixups" "fixup_kind F \<in> insn_fixups"
    using assms(1) by (auto simp: insn_fixups_def jump_fixups_def)
  show ?thesis
  proof (cases "isInt (jump_width ?t) V")
    case True
    then have r0: "relocate c gp ?l ?t V = Some (loc, [])" using r ok by simp
    have "applyFixup F Data V = Some (take (fixup_offset F) Data @ loc, [])"
    proof (cases "V = 0")
      case True
      then have "loc = ?l" using assms(3) r0 by simp
      then show ?thesis using True by (simp add: applyFixup_def)
    next
      case False
      then show ?thesis by (rule applyFixup_jump [OF j(1) _ assms(4,3) r0])
    qed
    moreover have "jump_offset ?t loc = V"
      by (rule jump_offset_relocated [OF _ r0]) (use assms(1) in \<open>auto simp: fixup_reloc_types\<close>)
    ultimately show ?thesis using r0 need True by simp
  next
    case False
    then show ?thesis using r need ok by simp
  qed
qed

lemma relaxation_exact_witness:
  "applyFixup (ex_fixup 0 fixup_riscv_branch) [0x63, 0, 0, 0] 0xffe = Some ([0xe3, 0x0f, 0, 0x7e], []) \<and>
   fixupNeedsRelaxationAdvanced fixup_riscv_branch True 0x1000 False \<and>
   (\<exists>loc ds. relocate ex_cfg None [0x63, 0, 0, 0] R_RISCV_BRANCH 0x1000 = Some (loc, ds) \<and> ds \<noteq> [])"
proof -
  let ?F = "ex_fixup 0 fixup_riscv_branch"
  have f: "fixup_kind ?F = fixup_riscv_branch" "fixup_offset ?F = 0"
    by (simp_all add: ex_fixup_def)
  have 1: "relocate ex_cfg None [0x63, 0, 0, 0] R_RISCV_BRANCH 0 = Some ([0x63, 0, 0, 0], [])"
    and 2: "relocate ex_cfg None [0x63, 0, 0, 0] R_RISCV_BRANCH 0xffe = Some ([0xe3, 0x0f, 0, 0x7e], [])"
    by code_simp+
  have n: "\<not> fixupNeedsRelaxationAdvanced fixup_riscv_branch True 0xffe False"
    "fixupNeedsRelaxationAdvanced fixup_riscv_branch True 0x1000 False" by code_simp+
  have e: "\<not> bit (0xffe :: u64) 0" "\<not> bit (0x1000 :: u64) 0" by simp_all
  show ?thesis
    using relaxation_exact [of ?F "0xffe" ex_cfg None "[0x63, 0, 0, 0]" False]
      relaxation_exact [of ?F "0x1000" ex_cfg None "[0x63, 0, 0, 0]" False] 1 2 n e
    by (auto simp: f fixup_reloc_types patch_size_def)
qed

section \<open>Padding\<close>

definition MinNopLen :: "subtarget \<Rightarrow> nat" where
  "MinNopLen STI = (if UseCompressedNop STI then 2 else 4)"

lemma write_nops_blocks: "4 dvd n \<Longrightarrow> write_nops n = concat (replicate (n div 4) [0x13, 0, 0, 0])"
proof (induction n rule: write_nops.induct)
  case (1 n)
  show ?case
  proof (cases "4 \<le> n")
    case True
    then have "n div 4 = Suc ((n - 4) div 4)" by (simp add: le_div_geq)
    moreover have "4 dvd n - 4" using "1.prems" by (simp add: dvd_diff_nat)
    ultimately show ?thesis using "1.IH" [OF True] True by (subst write_nops.simps) simp
  next
    case False
    then have "n = 0" using "1.prems" by (auto elim!: dvdE)
    then show ?thesis by (subst write_nops.simps) simp
  qed
qed

lemma writeNopData_blocks:
  assumes "MinNopLen STI dvd n"
  shows "writeNopData STI n = (if n mod 4 = 2 then [0x01, 0] else []) @ concat (replicate (n div 4) [0x13, 0, 0, 0])"
proof -
  have n: "n mod 2 = 0" "UseCompressedNop STI \<or> 4 dvd n"
    using assms by (auto simp: MinNopLen_def split: if_splits elim: dvd_trans [rotated])
  show ?thesis
  proof (cases "n mod 4 = 2")
    case True
    then have "(n - 2) div 4 = n div 4" "4 dvd n - 2" "\<not> 4 dvd n" by presburger+
    moreover have "UseCompressedNop STI" using n(2) \<open>\<not> 4 dvd n\<close> by blast
    ultimately show ?thesis using True n by (simp add: writeNopData_def Let_def write_nops_blocks)
  next
    case False
    then have "4 dvd n" using n(1) by presburger
    then show ?thesis using False n by (simp add: writeNopData_def Let_def write_nops_blocks)
  qed
qed

lemma concat_nops_length: "length (concat (replicate k [0x13, 0, 0, 0 :: u8])) = 4 * k"
  by (induction k) simp_all

lemma MinNopLen_power: obtains m where "MinNopLen STI = 2 ^ m" "0 < m" "m \<le> 2"
proof (cases "UseCompressedNop STI")
  case True
  then show thesis by (intro that [of 1]) (simp_all add: MinNopLen_def)
next
  case False
  then show thesis by (intro that [of 2]) (simp_all add: MinNopLen_def)
qed

lemma extra_nops:
  assumes "shouldInsertExtraNopBytesForCodeAlign STI (push_bit k 1) = Some n" "k \<le> 30"
  shows "unat n = 2 ^ k - MinNopLen STI" "MinNopLen STI < 2 ^ k" "(ucast n :: u64) = of_nat (2 ^ k - MinNopLen STI)"
proof -
  let ?m = "of_nat (MinNopLen STI) :: u64" and ?A = "push_bit k 1 :: u64"
  have A: "?A = of_nat (2 ^ k)" by (simp add: push_bit_eq_mult)
  have small: "(2 :: nat) ^ k \<le> 2 ^ 30" using assms(2) by (intro power_increasing) auto
  then have u: "unat ?A = 2 ^ k" unfolding A by (intro unat_of_nat64) simp
  have um: "unat ?m = MinNopLen STI" by (simp add: MinNopLen_def)
  have n: "\<not> ?A \<le> ?m" "n = ucast (?A - ?m)"
    using assms(1) by (auto simp: shouldInsertExtraNopBytesForCodeAlign_def MinNopLen_def Let_def split: if_splits)
  then show lt: "MinNopLen STI < 2 ^ k" using u um by (simp add: word_le_nat_alt)
  have d: "?A - ?m = of_nat (2 ^ k - MinNopLen STI)" using lt by (simp add: A of_nat_diff)
  have s: "2 ^ k - MinNopLen STI < 2 ^ 32" using small by simp
  then have e: "n = of_nat (2 ^ k - MinNopLen STI)"
    unfolding n(2) d by (simp add: unsigned_of_nat take_bit_nat_eq_self)
  show "unat n = 2 ^ k - MinNopLen STI" unfolding e using s by (rule unat_of_nat32)
  show "(ucast n :: u64) = of_nat (2 ^ k - MinNopLen STI)"
    unfolding e using s by (simp add: unsigned_of_nat take_bit_nat_eq_self)
qed

text \<open>The power of two the linker computes from the padding.\<close>

lemma PowerOf2Ceil_padding:
  assumes "MinNopLen STI < 2 ^ k" "k \<le> 30"
  shows "PowerOf2Ceil (of_nat (2 ^ k - MinNopLen STI) + 2) = push_bit k 1"
proof -
  let ?a = "2 ^ k - MinNopLen STI"
  have m: "MinNopLen STI = 2 \<or> MinNopLen STI = 4" by (simp add: MinNopLen_def)
  have "1 < k"
  proof (rule ccontr)
    assume "\<not> 1 < k"
    then have "(2 :: nat) ^ k \<le> 2 ^ 1" by (intro power_increasing) auto
    then show False using assms(1) m by auto
  qed
  then have k: "k = Suc (k - 1)" by simp
  have p: "(2 :: nat) ^ k = 2 * 2 ^ (k - 1)" by (subst k) (simp only: power_Suc)
  have small: "(2 :: nat) ^ k \<le> 2 ^ 30" using assms(2) by (intro power_increasing) auto
  have "2 ^ 2 < (2 :: nat) ^ k" if "MinNopLen STI = 4" using assms(1) that by simp
  then have "2 < k" if "MinNopLen STI = 4" using that by (simp only: power_strict_increasing_iff)
  then have "(2 :: nat) ^ 2 \<le> 2 ^ (k - 1)" if "MinNopLen STI = 4" using that by (intro power_increasing) auto
  then have lo: "2 ^ (k - 1) < ?a + 2" using m p assms(1) \<open>1 < k\<close> by auto
  have hi: "?a + 2 \<le> 2 ^ k" using m assms(1) by auto
  have w: "(of_nat ?a + 2 :: u64) = of_nat (?a + 2)" by simp
  have u: "unat (of_nat (?a + 2) :: u64) = ?a + 2" using hi small by (intro unat_of_nat64) simp
  have ui: "uint (of_nat (?a + 2) :: u64) = int (?a + 2)" using u by (metis uint_nat)
  have nz: "(of_nat (?a + 2) :: u64) \<noteq> 0" using u by (metis add_is_0 unat_0 zero_neq_numeral)
  have le: "uint (of_nat (?a + 2) :: u64) \<le> 2 ^ 63"
  proof -
    have "?a + 2 \<le> 2 ^ 63" using hi small by simp
    then show ?thesis unfolding ui by (metis of_nat_le_iff of_nat_numeral of_nat_power)
  qed
  obtain j where j: "j < 64" "PowerOf2Ceil (of_nat (?a + 2)) = push_bit j 1" "uint (of_nat (?a + 2) :: u64) \<le> 2 ^ j"
    "j \<noteq> 0 \<Longrightarrow> 2 ^ (j - 1) < uint (of_nat (?a + 2) :: u64)"
    using PowerOf2Ceil_props [OF nz le] by metis
  have j1: "?a + 2 \<le> 2 ^ j" using j(3) unfolding ui by (metis of_nat_le_iff of_nat_numeral of_nat_power)
  have "2 ^ (k - 1) < (2 :: nat) ^ j" using less_le_trans [OF lo j1] .
  then have "k - 1 < j" by (simp only: power_strict_increasing_iff one_less_numeral_iff semiring_norm)
  then have "k \<le> j" by simp
  have "j \<noteq> 0" using \<open>k \<le> j\<close> \<open>1 < k\<close> by simp
  then have "2 ^ (j - 1) < ?a + 2" using j(4) unfolding ui by (metis of_nat_less_iff of_nat_numeral of_nat_power)
  from less_le_trans [OF this hi] have "j - 1 < k"
    by (simp only: power_strict_increasing_iff one_less_numeral_iff semiring_norm)
  then have "j \<le> k" by simp
  then have "j = k" using \<open>k \<le> j\<close> by simp
  then show ?thesis using j(2) by (simp only: w)
qed

text \<open>C27: the padding the assembler reserves for an alignment directive under linker relaxation is what
  the linker needs: from every instruction address the linker recovers the alignment from the
  padding, removes no more than it, and leaves the code aligned with a whole number of nops in front;
  the padding is written as nops, in full.\<close>
theorem align_padding_enough:
  assumes "shouldInsertExtraNopBytesForCodeAlign STI (push_bit k 1) = Some n" "k \<le> 30"
    "MinNopLen STI dvd unat loc"
  shows "\<exists>r. alignRemove loc (ucast n) = Some r \<and> unat r \<le> unat n \<and>
    2 ^ k dvd unat (loc + ucast n - ucast r) \<and> MinNopLen STI dvd unat n - unat r \<and>
    PowerOf2Ceil (ucast n + 2) = push_bit k 1 \<and>
    writeNopData STI (unat n) =
      (if unat n mod 4 = 2 then [0x01, 0] else []) @ concat (replicate (unat n div 4) [0x13, 0, 0, 0]) \<and>
    length (writeNopData STI (unat n)) = unat n"
proof -
  let ?a = "2 ^ k - MinNopLen STI"
  note e = extra_nops [OF assms(1,2)]
  have c: "PowerOf2Ceil (ucast n + 2) = push_bit k 1"
    unfolding e(3) by (rule PowerOf2Ceil_padding [OF e(2) assms(2)])
  have "k < 64" using assms(2) by simp
  then obtain j where j: "unat j < 2 ^ k" "(loc + push_bit k 1 - 1) AND - push_bit k 1 = loc + j" "2 ^ k dvd unat (loc + j)"
    by (rule align_up_offset)
  obtain m where m: "MinNopLen STI = 2 ^ m" "0 < m" "m \<le> 2" by (rule MinNopLen_power)
  have "(2 :: nat) ^ m < 2 ^ k" using e(2) m(1) by simp
  then have mk: "m < k" by (simp only: power_strict_increasing_iff one_less_numeral_iff semiring_norm)
  have d: "MinNopLen STI dvd 2 ^ k" "MinNopLen STI dvd (2 :: nat) ^ 64"
    unfolding m(1) using mk m(3) by (intro le_imp_power_dvd; simp)+
  have "MinNopLen STI dvd (unat loc + unat j) mod 2 ^ 64"
    using dvd_trans [OF d(1) j(3)] by (simp add: unat_word_ariths)
  then have "MinNopLen STI dvd unat loc + unat j" by (simp only: dvd_mod_iff [OF d(2)])
  then have dj: "MinNopLen STI dvd unat j" using assms(3) by (simp add: dvd_add_right_iff)
  have J: "unat j \<le> ?a"
  proof -
    obtain q r where "2 ^ k = MinNopLen STI * q" "unat j = MinNopLen STI * r" using d(1) dj by (elim dvdE)
    moreover from this have "r < q" using j(1) by (simp add: nat_mult_less_cancel_disj)
    then have "Suc r \<le> q" by simp
    then have "MinNopLen STI * Suc r \<le> MinNopLen STI * q" by (rule mult_le_mono2)
    ultimately show ?thesis by simp
  qed
  have jj: "j = of_nat (unat j)" by simp
  have small: "(2 :: nat) ^ k \<le> 2 ^ 30" using assms(2) by (intro power_increasing) auto
  have s: "?a - unat j < 2 ^ 31" using small by simp
  let ?r = "of_nat (?a - unat j) :: u32"
  have r64: "(of_nat ?a :: u64) - j = of_nat (?a - unat j)" using of_nat_diff [OF J, where 'a = u64] by simp
  have "ucast (loc + of_nat ?a - (loc + j)) = ?r"
    using s by (simp add: r64 unsigned_of_nat take_bit_nat_eq_self)
  moreover have "0 \<le> sint ?r"
  proof -
    have "sint ?r = int (?a - unat j)"
      using s sint_word_of_int_small [where 'a = 32, of "int (?a - unat j)"] by simp
    then show ?thesis by simp
  qed
  ultimately have al: "alignRemove loc (ucast n) = Some ?r"
    unfolding alignRemove_def Let_def e(3) c [unfolded e(3)] j(2) by simp
  have ur: "unat ?r = ?a - unat j" using s by (intro unat_of_nat32) simp
  have "(ucast ?r :: u64) = of_nat (?a - unat j)"
    using s by (simp add: unsigned_of_nat take_bit_nat_eq_self)
  then have bk: "loc + ucast n - ucast ?r = loc + j"
    unfolding e(3) r64 [symmetric] by simp
  have dn: "MinNopLen STI dvd unat n" unfolding e(1) using d(1) by (simp add: dvd_diff_nat)
  have "2 dvd unat n" using dn by (auto simp: MinNopLen_def split: if_splits elim: dvd_trans [rotated])
  then have "unat n mod 4 = 2 \<or> unat n mod 4 = 0" by presburger
  then have len: "length (writeNopData STI (unat n)) = unat n"
    unfolding writeNopData_blocks [OF dn] by (simp only: length_append concat_nops_length) (auto, presburger+)
  have "unat ?r \<le> unat n" "unat n - unat ?r = unat j" unfolding ur e(1) using J by simp_all
  moreover have "2 ^ k dvd unat (loc + ucast n - ucast ?r)" unfolding bk by (rule j(3))
  ultimately show ?thesis
    using al c len dj writeNopData_blocks [OF dn] by metis
qed

lemma align_padding_enough_witness:
  "\<exists>r. alignRemove 0x1002 6 = Some r \<and> unat r \<le> 6 \<and> 8 dvd unat (0x1002 + 6 - ucast r :: u64) \<and>
    writeNopData \<lparr>FeatureStdExtC = True, FeatureStdExtZca = False, FeatureRelax = True, ForceRelocs = False\<rparr> 6 =
      [0x01, 0, 0x13, 0, 0, 0]"
proof -
  let ?S = "\<lparr>FeatureStdExtC = True, FeatureStdExtZca = False, FeatureRelax = True, ForceRelocs = False\<rparr>"
  have 1: "shouldInsertExtraNopBytesForCodeAlign ?S (push_bit 3 1) = Some 6" by code_simp
  have 2: "MinNopLen ?S dvd unat (0x1002 :: u64)" by (simp add: MinNopLen_def UseCompressedNop_def)
  show ?thesis using align_padding_enough [OF 1 _ 2] by auto
qed

end
