(* ===== verification/AsmDwarfSound.thy ===== *)
theory AsmDwarfSound
  imports AsmBackendSound
begin

text \<open>
  The DWARF fragments of the assembler through the linker. The relocations of their fixups are
  applied by the linker's \<open>relocate\<close>, and the bytes are then read as the DWARF standard reads them:
  an advance of a call frame, and a line number program, which runs on an address and a line.
\<close>

section \<open>Linking the fixups of a fragment\<close>

text \<open>The relocations of the fixups, applied in order, each with the value of its symbol.\<close>

fun link_fixups :: "config \<Rightarrow> u8 list \<Rightarrow> 'e MCFixup list \<Rightarrow> u64 list \<Rightarrow> u8 list option" where
  "link_fixups c bytes (F # Fs) (v # vs) =
    (case relocate c None (drop (fixup_offset F) bytes) (fixup_reloc (fixup_kind F)) v of
       Some (l, []) \<Rightarrow> link_fixups c (take (fixup_offset F) bytes @ l) Fs vs
     | _ \<Rightarrow> None)"
| "link_fixups c bytes Fs vs = Some bytes"

lemma relocate_differences:
  "relocate c gp loc R_RISCV_SET6 v = Some (setByte loc ((hd loc AND 0xc0) OR (ucast v AND 0x3f)), [])"
  "relocate c gp loc R_RISCV_SUB6 v = Some (setByte loc ((hd loc AND 0xc0) OR (((hd loc AND 0x3f) - ucast v) AND 0x3f)), [])"
  "relocate c gp loc R_RISCV_SET8 v = Some (setByte loc (ucast v), [])"
  "relocate c gp loc R_RISCV_SUB8 v = Some (setByte loc (hd loc - ucast v), [])"
  "relocate c gp loc R_RISCV_SET16 v = Some (write16le loc (ucast v), [])"
  "relocate c gp loc R_RISCV_ADD16 v = Some (write16le loc (read16le loc + ucast v), [])"
  "relocate c gp loc R_RISCV_SUB16 v = Some (write16le loc (read16le loc - ucast v), [])"
  "relocate c gp loc R_RISCV_SET32 v = Some (write32le loc (ucast v), [])"
  "relocate c gp loc R_RISCV_ADD32 v = Some (write32le loc (read32le loc + ucast v), [])"
  "relocate c gp loc R_RISCV_SUB32 v = Some (write32le loc (read32le loc - ucast v), [])"
  "relocate c gp loc R_RISCV_ADD64 v = Some (write64le loc (read64le loc + v), [])"
  "relocate c gp loc R_RISCV_SUB64 v = Some (write64le loc (read64le loc - v), [])"
  by (subst relocate.simps, simp add: relocate_data_def Let_def)+

lemma difference_types:
  "fixup_reloc fixup_riscv_set_6b = R_RISCV_SET6" "fixup_reloc fixup_riscv_sub_6b = R_RISCV_SUB6"
  "fixup_reloc fixup_riscv_set_8 = R_RISCV_SET8" "fixup_reloc fixup_riscv_sub_8 = R_RISCV_SUB8"
  "fixup_reloc fixup_riscv_set_16 = R_RISCV_SET16" "fixup_reloc fixup_riscv_sub_16 = R_RISCV_SUB16"
  "fixup_reloc fixup_riscv_set_32 = R_RISCV_SET32" "fixup_reloc fixup_riscv_sub_32 = R_RISCV_SUB32"
  "fixup_reloc fixup_riscv_add_16 = R_RISCV_ADD16" "fixup_reloc fixup_riscv_add_32 = R_RISCV_ADD32"
  "fixup_reloc fixup_riscv_add_64 = R_RISCV_ADD64" "fixup_reloc fixup_riscv_sub_64 = R_RISCV_SUB64"
  by (simp_all add: fixup_reloc_def getRelocType_def getRelocType_abs_def getFixupKindInfo_def plain_info_def)

text \<open>A pair of fixups at one place that sets or adds the first value and subtracts the second.\<close>

lemma link_pair:
  assumes "relocate c None (drop off bytes) (fixup_reloc (fst K)) a = Some (l1, [])"
    "relocate c None l1 (fixup_reloc (snd K)) b = Some (l2, [])" "off \<le> length bytes"
  shows "link_fixups c bytes (fixup_pair off lhs rhs K) [a, b] = Some (take off bytes @ l2)"
  using assms by (simp add: fixup_pair_def)

section \<open>Advances of a call frame\<close>

definition dec_cfa :: "u8 list \<Rightarrow> nat option" where
  "dec_cfa bytes =
    (case bytes of
       [] \<Rightarrow> None
     | b # args \<Rightarrow>
         if drop_bit 6 b = 1 then Some (unat (b AND 0x3f))
         else if b = 2 then (case args of [] \<Rightarrow> None | x # _ \<Rightarrow> Some (unat x))
         else if b = 3 then Some (unat (read16le args))
         else if b = 4 then Some (unat (read32le args))
         else None)"

lemma upt_8: "[0..<8] = [0, 1, 2, 3, 4, 5, 6, 7]"
  by (simp add: upt_rec)

lemma six_bits:
  "(0x40 OR (x AND 0x3f) :: u8) AND 0xc0 = 0x40" "(0x40 OR (x AND 0x3f) :: u8) AND 0x3f = x AND 0x3f"
  "drop_bit 6 (0x40 OR (x AND 0x3f) :: u8) = 1"
  by (rule word_eqI_list; simp add: upt_8 bit_simps)+

lemma take_bit_word_of_int: "take_bit n (word_of_int k :: 'a::len word) = word_of_int (take_bit n k)"
  by (rule bit_word_eqI) (auto simp: bit_simps)

lemma diff_low6: "((x AND 0x3f) - y) AND 0x3f = (x - y :: u8) AND 0x3f"
proof -
  have low: "z AND 0x3f = take_bit 6 z" for z :: u8 by (simp add: take_bit_eq_mask mask_eq_exp_minus_1)
  have "take_bit 6 (take_bit 6 (word_of_int X) - word_of_int Y) = take_bit 6 (word_of_int X - word_of_int Y :: u8)" for X Y
  proof -
    have "take_bit 6 (take_bit 6 X - Y) = take_bit 6 (X - Y)"
      using take_bit_diff [of 6 "take_bit 6 X" Y] take_bit_diff [of 6 X Y] by (simp only: take_bit_take_bit min.idem)
    then show ?thesis by (simp only: take_bit_word_of_int wi_hom_sub)
  qed
  from this [of "uint x" "uint y"] show ?thesis by (simp only: low word_of_int_uint)
qed

lemma ucast_diff: "LENGTH('a) \<le> 64 \<Longrightarrow> ucast a - ucast b = (ucast (a - b :: u64) :: 'a::len word)"
proof -
  assume l: "LENGTH('a) \<le> 64"
  have "ucast (word_of_int (uint a - uint b) :: u64) = (word_of_int (uint a - uint b) :: 'a word)"
    using l by (intro ucast_word_of_int_down) simp
  then show ?thesis by simp
qed

lemma unat_ucast_isUInt:
  assumes "isUInt LENGTH('a) v" "LENGTH('a) \<le> 64"
  shows "unat (ucast v :: 'a::len word) = unat v"
proof -
  have "uint v < 2 ^ LENGTH('a)" using assms isUInt_iff_aux [of "LENGTH('a)" v] by simp
  then have "int (unat v) < int (2 ^ LENGTH('a))" by simp
  then have "unat v < 2 ^ LENGTH('a)" by (simp only: of_nat_less_iff)
  then show ?thesis by (simp add: unsigned_ucast_eq take_bit_nat_eq_self)
qed

lemma isUIntN_6: "isUIntN 6 v \<Longrightarrow> unat (ucast v AND 0x3f :: u8) = unat v"
proof -
  assume "isUIntN 6 v"
  moreover have "maxUIntN 6 = 63" by code_simp
  ultimately have "v \<le> 63" by (simp add: isUIntN_def)
  then have "unat v < 64" by (simp add: word_le_nat_alt)
  moreover have "ucast v AND 0x3f = (take_bit 6 (ucast v) :: u8)" by (simp add: take_bit_eq_mask mask_eq_exp_minus_1)
  ultimately show ?thesis by (simp add: unsigned_take_bit_eq unsigned_ucast_eq take_bit_nat_eq_self)
qed

text \<open>C28: a nonzero advance of the call frame that fits 32 bits becomes an instruction whose fixups the
  linker turns into exactly that advance, whatever the two addresses are; asking again with the same
  advance changes nothing.\<close>
theorem cfa_advance_linked:
  assumes "Value \<noteq> 0" "isUInt 32 Value" "a - b = Value"
  shows "\<exists>bytes fs l. relaxDwarfCFA False Value lhs rhs old = Some (True, (bytes, fs), length (fst old) \<noteq> length bytes) \<and>
    link_fixups c bytes fs [a, b] = Some l \<and> length l = length bytes \<and> dec_cfa l = Some (unat Value) \<and>
    relaxDwarfCFA False Value lhs rhs (bytes, fs) = Some (True, (bytes, fs), False)"
proof -
  consider "isUIntN 6 Value" | "\<not> isUIntN 6 Value" "isUInt 8 Value"
    | "\<not> isUIntN 6 Value" "\<not> isUInt 8 Value" "isUInt 16 Value"
    | "\<not> isUIntN 6 Value" "\<not> isUInt 8 Value" "\<not> isUInt 16 Value" by blast
  then show ?thesis
  proof cases
    case 1
    have "(((0x40 OR (ucast a AND 0x3f)) AND 0x3f) - ucast b) AND 0x3f = (ucast Value AND 0x3f :: u8)"
      using assms(3) by (simp add: six_bits diff_low6 ucast_diff)
    then have "link_fixups c [0x40] (fixup_pair 0 lhs rhs (fixup_riscv_set_6b, fixup_riscv_sub_6b)) [a, b] =
        Some [0x40 OR (ucast Value AND 0x3f)]"
      by (simp add: fixup_pair_def difference_types relocate_differences setByte_def six_bits)
    then show ?thesis using assms(1) 1
      by (simp add: relaxDwarfCFA_def dec_cfa_def six_bits isUIntN_6)
  next
    case 2
    have "link_fixups c [0x02, 0] (fixup_pair 1 lhs rhs (fixup_riscv_set_8, fixup_riscv_sub_8)) [a, b] = Some [0x02, ucast Value]"
      using assms(3) by (simp add: fixup_pair_def difference_types relocate_differences setByte_def ucast_diff)
    then show ?thesis using assms(1) 2 unat_ucast_isUInt [of Value, where 'a = 8]
      by (simp add: relaxDwarfCFA_def dec_cfa_def drop_bit_eq_div)
  next
    case 3
    have "link_fixups c [0x03, 0, 0] (fixup_pair 1 lhs rhs (fixup_riscv_set_16, fixup_riscv_sub_16)) [a, b] =
        Some (0x03 # write16le [0, 0] (ucast Value))"
      using assms(3) by (simp add: fixup_pair_def difference_types relocate_differences ucast_diff write16le_def read16le_def of_mem_bytes_mem_bytes)
    then show ?thesis using assms(1) 3 unat_ucast_isUInt [of Value, where 'a = 16]
      by (simp add: relaxDwarfCFA_def dec_cfa_def drop_bit_eq_div)
  next
    case 4
    have "link_fixups c [0x04, 0, 0, 0, 0] (fixup_pair 1 lhs rhs (fixup_riscv_set_32, fixup_riscv_sub_32)) [a, b] =
        Some (0x04 # write32le [0, 0, 0, 0] (ucast Value))"
      using assms(3) by (simp add: fixup_pair_def difference_types relocate_differences ucast_diff write32le_def read32le_def of_mem_bytes_mem_bytes)
    then show ?thesis using assms(1,2) 4 unat_ucast_isUInt [of Value, where 'a = 32]
      by (simp add: relaxDwarfCFA_def dec_cfa_def drop_bit_eq_div)
  qed
qed

lemma cfa_advance_linked_witness:
  "\<exists>bytes fs l changed. relaxDwarfCFA False 0x1234 () () ([], []) = Some (True, (bytes, fs), changed) \<and>
    link_fixups ex_cfg bytes fs [0x81234, 0x80000] = Some l \<and> dec_cfa l = Some 0x1234"
proof -
  have "isUInt 32 0x1234" by code_simp
  then show ?thesis
    using cfa_advance_linked [of "0x1234" "0x81234" "0x80000" "()" "()" "([], [])" ex_cfg] by auto
qed

section \<open>Line number programs\<close>

text \<open>The opcodes the fragments use, run on the address and line registers; a step reads at least a
  byte, so fuel one above the number of bytes is enough.\<close>

fun exec_line :: "nat \<Rightarrow> u8 list \<Rightarrow> u64 \<times> u64 \<Rightarrow> (u64 \<times> u64) option" where
  "exec_line 0 bs st = None"
| "exec_line (Suc k) [] st = Some st"
| "exec_line (Suc k) (b # bs) st =
    (if b = 1 then exec_line k bs st
     else if b = 3 then
       (case decodeSLEB128 bs of
          Decoded v n \<Rightarrow> exec_line k (drop n bs) (fst st, snd st + v)
        | _ \<Rightarrow> None)
     else if b = 9 then exec_line k (drop 2 bs) (fst st + ucast (read16le bs), snd st)
     else if b = 0 then
       (case decodeULEB128 bs of
          Decoded len n \<Rightarrow>
            (case take (unat len) (drop n bs) of
               [] \<Rightarrow> None
             | x # args \<Rightarrow>
                 if x = 1 then Some st
                 else if x = 2 then exec_line k (drop (n + unat len) bs) (of_mem_bytes args, snd st)
                 else None)
        | _ \<Rightarrow> None)
     else None)"

definition line_after :: "u64 \<Rightarrow> u64 \<Rightarrow> u64" where
  "line_after LineDelta line = (if LineDelta = INT64_MAX then line else line + LineDelta)"

definition line_head :: "u64 \<Rightarrow> u8 list" where
  "line_head LineDelta = (if LineDelta \<noteq> INT64_MAX then 3 # fst (encodeSLEB128 LineDelta 0) else [])"

definition line_tail :: "u64 \<Rightarrow> u8 list" where
  "line_tail LineDelta = (if LineDelta = INT64_MAX then [0, 1, 1] else [1])"

lemma exec_line_head:
  "exec_line (Suc (length (line_head d @ bs))) (line_head d @ bs) (addr, line) = Some st \<longleftrightarrow>
   exec_line (length (line_head d @ bs) + (if d = INT64_MAX then 1 else 0)) bs (addr, line_after d line) = Some st"
  by (simp add: line_head_def line_after_def decodeSLEB128_encoded)

lemma small_bytes: "\<not> (128 :: u8) \<le> 1" "\<not> (128 :: u8) \<le> 5" "\<not> (128 :: u8) \<le> 9"
  by code_simp+

lemma exec_line_tail: "exec_line (Suc (Suc k)) (line_tail d) st = Some st"
  by (simp add: line_tail_def decodeULEB128_def small_bytes)

lemma relaxDwarfLineAddr_parts:
  "relaxDwarfLineAddr P d V lhs rhs old =
    (case line_address P V of
       Some (op, Some K, zeros) \<Rightarrow>
         let bytes = line_head d @ op @ replicate zeros 0 @ line_tail d
         in Some ((bytes, fixup_pair (length (line_head d @ op)) lhs rhs K), length (fst old) \<noteq> length bytes)
     | _ \<Rightarrow> None)"
  by (simp add: relaxDwarfLineAddr_def line_head_def line_tail_def Let_def split: option.split prod.split)

lemma link_added:
  "link_fixups c (pre @ replicate 2 0 @ post) (fixup_pair (length pre) lhs rhs (fixup_riscv_add_16, fixup_riscv_sub_16)) [a, b] =
    Some (pre @ mem_bytes (ucast (a - b) :: u16) @ post)"
  "link_fixups c (pre @ replicate 4 0 @ post) (fixup_pair (length pre) lhs rhs (fixup_riscv_add_32, fixup_riscv_sub_32)) [a, b] =
    Some (pre @ mem_bytes (ucast (a - b) :: u32) @ post)"
  "link_fixups c (pre @ replicate 8 0 @ post) (fixup_pair (length pre) lhs rhs (fixup_riscv_add_64, fixup_riscv_sub_64)) [a, b] =
    Some (pre @ mem_bytes (a - b) @ post)"
proof -
  have z: "read16le (replicate 2 0 @ post) = 0" "read32le (replicate 4 0 @ post) = 0" "read64le (replicate 8 0 @ post) = 0"
    by (simp_all add: read16le_def read32le_def read64le_def of_mem_bytes_def eval_nat_numeral)
  show "link_fixups c (pre @ replicate 2 0 @ post) (fixup_pair (length pre) lhs rhs (fixup_riscv_add_16, fixup_riscv_sub_16)) [a, b] =
    Some (pre @ mem_bytes (ucast (a - b) :: u16) @ post)"
    using z(1) by (simp add: fixup_pair_def difference_types relocate_differences ucast_diff) (simp add: write16le_def)
  show "link_fixups c (pre @ replicate 4 0 @ post) (fixup_pair (length pre) lhs rhs (fixup_riscv_add_32, fixup_riscv_sub_32)) [a, b] =
    Some (pre @ mem_bytes (ucast (a - b) :: u32) @ post)"
    using z(2) by (simp add: fixup_pair_def difference_types relocate_differences ucast_diff) (simp add: write32le_def)
  show "link_fixups c (pre @ replicate 8 0 @ post) (fixup_pair (length pre) lhs rhs (fixup_riscv_add_64, fixup_riscv_sub_64)) [a, b] =
    Some (pre @ mem_bytes (a - b) @ post)"
    using z(3) by (simp add: fixup_pair_def difference_types relocate_differences) (simp add: write64le_def)
qed

lemma exec_line_advance:
  "exec_line (Suc (Suc (Suc k))) ([9] @ mem_bytes (w :: u16) @ line_tail d) (addr, line) = Some (addr + ucast w, line)"
proof -
  have "read16le (mem_bytes w @ line_tail d) = w" by (simp add: read16le_def of_mem_bytes_mem_bytes)
  moreover have "drop 2 (mem_bytes w @ line_tail d) = line_tail d" by simp
  ultimately show ?thesis using exec_line_tail [of k d] by (simp del: exec_line.simps) (subst exec_line.simps; simp)
qed

lemma of_mem_bytes_wider:
  assumes "8 dvd LENGTH('b)"
  shows "(of_mem_bytes (mem_bytes (w :: 'b::len word)) :: 'a::len word) = ucast w"
proof (rule bit_word_eqI)
  fix n assume n: "n < LENGTH('a)"
  obtain m where m: "LENGTH('b) = 8 * m" using assms by (elim dvdE)
  have e: "8 * (n div 8) + n mod 8 = n" by simp
  show "bit (of_mem_bytes (mem_bytes w) :: 'a word) n = bit (ucast w :: 'a word) n"
  proof (cases "n div 8 < m")
    case True
    then show ?thesis using n e by (simp add: bit_of_mem_bytes m mem_bytes_def bit_simps)
  next
    case False
    then have "LENGTH('b) \<le> n" using m by (simp add: less_mult_imp_div_less not_less div_less_iff_less_mult)
    then show ?thesis using False n bit_imp_le_length [of w n] by (auto simp: bit_of_mem_bytes m bit_simps)
  qed
qed

lemma exec_line_set:
  "exec_line (Suc (Suc (Suc k))) ([0, 5, 2] @ mem_bytes (w :: u32) @ line_tail d) (addr, line) = Some (ucast w, line)"
  "exec_line (Suc (Suc (Suc k))) ([0, 9, 2] @ mem_bytes (v :: u64) @ line_tail d) (addr, line) = Some (v, line)"
proof -
  have "decodeULEB128 ([5, 2] @ mem_bytes w @ line_tail d) = Decoded 5 1" "decodeULEB128 ([9, 2] @ mem_bytes v @ line_tail d) = Decoded 9 1"
    by (simp_all add: decodeULEB128_def small_bytes)
  moreover have "take 5 (2 # mem_bytes w @ line_tail d) = 2 # mem_bytes w" "take 9 (2 # mem_bytes v @ line_tail d) = 2 # mem_bytes v"
    by simp_all
  moreover have "drop 6 ([5, 2] @ mem_bytes w @ line_tail d) = line_tail d" "drop 10 ([9, 2] @ mem_bytes v @ line_tail d) = line_tail d"
    by simp_all
  moreover have "(of_mem_bytes (mem_bytes w) :: u64) = ucast w" "of_mem_bytes (mem_bytes v) = v"
    by (simp_all add: of_mem_bytes_wider)
  ultimately show "exec_line (Suc (Suc (Suc k))) ([0, 5, 2] @ mem_bytes w @ line_tail d) (addr, line) = Some (ucast w, line)"
    "exec_line (Suc (Suc (Suc k))) ([0, 9, 2] @ mem_bytes v @ line_tail d) (addr, line) = Some (v, line)"
    using exec_line_tail [of k d] by (simp_all del: exec_line.simps) (subst exec_line.simps; simp)+
qed

lemma line_address_near:
  "\<not> 60000 <s V \<Longrightarrow> line_address P V = Some ([9], Some (fixup_riscv_add_16, fixup_riscv_sub_16), 2)"
  by (simp add: line_address_def getRelocPairForSize_def)

lemma line_address_far:
  "60000 <s V \<Longrightarrow> line_address 4 V = Some ([0, 5, 2], Some (fixup_riscv_add_32, fixup_riscv_sub_32), 4)"
  "60000 <s V \<Longrightarrow> line_address 8 V = Some ([0, 9, 2], Some (fixup_riscv_add_64, fixup_riscv_sub_64), 8)"
proof -
  have "fst (encodeULEB128 5 0) = [5]" "fst (encodeULEB128 9 0) = [9]" by code_simp+
  then show "60000 <s V \<Longrightarrow> line_address 4 V = Some ([0, 5, 2], Some (fixup_riscv_add_32, fixup_riscv_sub_32), 4)"
    "60000 <s V \<Longrightarrow> line_address 8 V = Some ([0, 9, 2], Some (fixup_riscv_add_64, fixup_riscv_sub_64), 8)"
    by (simp_all add: line_address_def getRelocPairForSize_def)
qed

text \<open>The linked fragment runs its head, then the address operand \<open>op @ arg\<close>.\<close>

lemma exec_line_linked:
  assumes "l = line_head d @ op @ arg @ line_tail d" "2 \<le> length (op @ arg)"
    "\<And>k. exec_line (Suc (Suc (Suc k))) (op @ arg @ line_tail d) (addr, line_after d line) = Some (x, line_after d line)"
  shows "exec_line (Suc (length l)) l (addr, line) = Some (x, line_after d line)"
proof -
  have "Suc (Suc (Suc 0)) \<le> length (line_head d @ op @ arg @ line_tail d) + (if d = INT64_MAX then 1 else 0)"
    using assms(2) by (simp add: line_tail_def)
  then obtain k where k: "length (line_head d @ op @ arg @ line_tail d) + (if d = INT64_MAX then 1 else 0) = Suc (Suc (Suc k))"
    by (metis add_Suc add_0 le_Suc_ex)
  show ?thesis
    unfolding assms(1) exec_line_head k by (rule assms(3))
qed

lemma small_advance:
  assumes "0 \<le> sint (V :: u64)" "sint V \<le> 60000"
  shows "ucast (ucast V :: u16) = V" "\<not> 60000 <s V"
proof -
  have "(of_nat (nat (sint V)) :: u64) = of_int (sint V)" using assms(1) by simp
  then have "V = of_nat (nat (sint V))" by simp
  moreover have "nat (sint V) \<le> 60000" using assms(2) by simp
  ultimately obtain n where v: "V = of_nat n" "n \<le> 60000" by blast
  from v(2) have "ucast (ucast (of_nat n :: u64) :: u16) = (of_nat n :: u64)"
    by (simp add: unsigned_of_nat take_bit_nat_eq_self)
  then show "ucast (ucast V :: u16) = V" by (simp only: v(1))
  show "\<not> 60000 <s V" using assms(2) by (simp add: word_sless_alt)
qed

text \<open>C29: for an address advance from 0 to 60000 the line table fragment, its fixups applied by the
  linker, runs from the one address to the other and advances the line by the delta, whatever the
  addresses are; an end of sequence leaves the line alone.\<close>
theorem line_advance_linked:
  assumes "0 \<le> sint Value" "sint Value \<le> 60000" "a - b = Value"
  shows "\<exists>bytes fs l. relaxDwarfLineAddr PtrSize LineDelta Value lhs rhs old = Some ((bytes, fs), length (fst old) \<noteq> length bytes) \<and>
    link_fixups c bytes fs [a, b] = Some l \<and> length l = length bytes \<and>
    exec_line (Suc (length l)) l (b, line) = Some (a, line_after LineDelta line)"
proof -
  note s = small_advance [OF assms(1,2)]
  let ?w = "ucast (a - b) :: u16"
  let ?l = "line_head LineDelta @ [9] @ mem_bytes ?w @ line_tail LineDelta"
  have "link_fixups c ((line_head LineDelta @ [9]) @ replicate 2 0 @ line_tail LineDelta)
      (fixup_pair (length (line_head LineDelta @ [9])) lhs rhs (fixup_riscv_add_16, fixup_riscv_sub_16)) [a, b] =
    Some ((line_head LineDelta @ [9]) @ mem_bytes ?w @ line_tail LineDelta)"
    by (rule link_added)
  moreover have "exec_line (Suc (length ?l)) ?l (b, line) = Some (b + ucast ?w, line_after LineDelta line)"
    by (rule exec_line_linked [OF refl]) (simp, rule exec_line_advance)
  moreover have "b + ucast ?w = a" using assms(3) s(1) by (simp add: algebra_simps)
  ultimately show ?thesis
    unfolding relaxDwarfLineAddr_parts line_address_near [OF s(2)] by (simp add: Let_def)
qed

lemma line_advance_linked_witness:
  "\<exists>bytes fs l changed. relaxDwarfLineAddr 8 3 40 () () ([], []) = Some ((bytes, fs), changed) \<and>
    link_fixups ex_cfg bytes fs [0x10028, 0x10000] = Some l \<and> exec_line (Suc (length l)) l (0x10000, 7) = Some (0x10028, 10)"
  using line_advance_linked [of 40 "0x10028" "0x10000" 8 3 "()" "()" "([], [])" ex_cfg 7]
  by (auto simp: line_after_def INT64_MAX_def)

text \<open>C30: beyond 60000 the fragment sets the address, but its fixups make the linker store the distance
  between the two addresses: the program continues at the distance (of which a 4-byte pointer keeps
  32 bits) and not at the address it should have reached, unless it started at 0.\<close>
theorem line_far_address:
  assumes "60000 < sint Value" "a - b = Value" "PtrSize = 4 \<or> PtrSize = 8"
  shows "\<exists>bytes fs l x. relaxDwarfLineAddr PtrSize LineDelta Value lhs rhs old = Some ((bytes, fs), length (fst old) \<noteq> length bytes) \<and>
    link_fixups c bytes fs [a, b] = Some l \<and> length l = length bytes \<and>
    exec_line (Suc (length l)) l (b, line) = Some (x, line_after LineDelta line) \<and>
    x = take_bit (8 * PtrSize) (a - b) \<and> (PtrSize = 8 \<longrightarrow> x = a \<longrightarrow> b = 0)"
proof -
  have f: "60000 <s Value" using assms(1) by (simp add: word_sless_alt)
  show ?thesis
  proof (cases "PtrSize = 4")
    case True
    let ?w = "ucast (a - b) :: u32"
    let ?l = "line_head LineDelta @ [0, 5, 2] @ mem_bytes ?w @ line_tail LineDelta"
    have "link_fixups c ((line_head LineDelta @ [0, 5, 2]) @ replicate 4 0 @ line_tail LineDelta)
        (fixup_pair (length (line_head LineDelta @ [0, 5, 2])) lhs rhs (fixup_riscv_add_32, fixup_riscv_sub_32)) [a, b] =
      Some ((line_head LineDelta @ [0, 5, 2]) @ mem_bytes ?w @ line_tail LineDelta)"
      by (rule link_added)
    moreover have "exec_line (Suc (length ?l)) ?l (b, line) = Some (ucast ?w, line_after LineDelta line)"
      by (rule exec_line_linked [OF refl]) (simp, rule exec_line_set)
    moreover have "ucast ?w = take_bit 32 (a - b)"
      by (rule bit_word_eqI) (auto simp: bit_simps)
    ultimately show ?thesis
      unfolding relaxDwarfLineAddr_parts True line_address_far(1) [OF f] by (simp add: Let_def add.assoc add.commute add.left_commute)
  next
    case False
    then have 8: "PtrSize = 8" using assms(3) by simp
    let ?l = "line_head LineDelta @ [0, 9, 2] @ mem_bytes (a - b) @ line_tail LineDelta"
    have "link_fixups c ((line_head LineDelta @ [0, 9, 2]) @ replicate 8 0 @ line_tail LineDelta)
        (fixup_pair (length (line_head LineDelta @ [0, 9, 2])) lhs rhs (fixup_riscv_add_64, fixup_riscv_sub_64)) [a, b] =
      Some ((line_head LineDelta @ [0, 9, 2]) @ mem_bytes (a - b) @ line_tail LineDelta)"
      by (rule link_added)
    moreover have "exec_line (Suc (length ?l)) ?l (b, line) = Some (a - b, line_after LineDelta line)"
      by (rule exec_line_linked [OF refl]) (simp, rule exec_line_set)
    moreover have "take_bit 64 (a - b) = a - b"
      by (rule bit_word_eqI) (simp add: bit_simps)
    moreover have "a - b = a \<longrightarrow> b = 0" by (simp add: diff_eq_eq)
    ultimately show ?thesis
      unfolding relaxDwarfLineAddr_parts 8 line_address_far(2) [OF f] by (simp add: Let_def add.assoc add.commute add.left_commute)
  qed
qed

lemma line_far_address_witness:
  "\<exists>bytes fs l changed. relaxDwarfLineAddr 8 3 0x10000 () () ([], []) = Some ((bytes, fs), changed) \<and>
    link_fixups ex_cfg bytes fs [0x90000, 0x80000] = Some l \<and> exec_line (Suc (length l)) l (0x80000, 7) = Some (0x10000, 10)"
proof -
  have "take_bit (8 * 8) (0x90000 - 0x80000) = (0x10000 :: u64)" by code_simp
  then show ?thesis
    using line_far_address [of "0x10000" "0x90000" "0x80000" 8 3 "()" "()" "([], [])" ex_cfg 7]
    by (auto simp: line_after_def INT64_MAX_def)
qed

end
