(* ===== verification/AsmLayout.thy ===== *)
theory AsmLayout
  imports AsmBackend
begin

text \<open>
  The layout of a code section, \<open>llvm/lib/MC/MCAssembler.cpp\<close> and the cache of offsets of
  \<open>MCFragment.cpp\<close>: the sizes of fragments, the offsets computed on demand and invalidated after a
  pass, the relaxation of instructions and the repetition of passes until nothing changes, and the
  relaxation of a LEB128 value.

  A section is a list of fragments (data, relaxable instructions, alignments); a symbol is a label in
  the section or undefined, and an expression is a symbol reference plus a constant, as the targets of
  branches are. The instruction encoder and \<open>uncompress\<close> are generated from the instruction tables and
  are part of the environment. The cache is the list of the offsets of the valid fragments, a prefix
  of the section. \<open>None\<close> is a failed assertion or an \<open>llvm_unreachable\<close>. Bundles are not enabled.
  The check of \<open>getFragmentOffset\<close> that an offset has been set, that it is not \<open>2 ^ 64 - 1\<close>, holds after
  \<open>ensureValid\<close> for every section shorter than that and is left out.
\<close>

section \<open>State\<close>

record asm_expr =
  ex_symbol :: "(bool \<times> nat) option"
  ex_addend :: u64

datatype 'o fragment =
    FT_Data "u8 list"
  | FT_Relaxable "'o MCInst" "u8 list" "asm_expr MCFixup list"
  | FT_Align u64 bool u32

record 'o asm_env =
  env_sti :: subtarget
  useCodeAlign :: bool
  env_label :: "nat \<Rightarrow> (nat \<times> u64) option"
  env_local :: "nat \<Rightarrow> bool"
  env_uncompress :: "'o MCInst \<Rightarrow> 'o MCInst option"
  encodeInstruction :: "'o MCInst \<Rightarrow> u8 list \<times> asm_expr MCFixup list"

section \<open>Offsets\<close>

text \<open>The minimum nop of the target is one byte, so the padding need not be stretched to a nop.\<close>

definition offsetToAlignment :: "u64 \<Rightarrow> u64 \<Rightarrow> u64" where
  "offsetToAlignment v Alignment = alignToPowerOf2 v Alignment - v"

definition computeFragmentSize :: "'o asm_env \<Rightarrow> 'o fragment \<Rightarrow> u64 \<Rightarrow> u64" where
  "computeFragmentSize S F off =
    (case F of
       FT_Data bytes \<Rightarrow> of_nat (length bytes)
     | FT_Relaxable Inst bytes Fixups \<Rightarrow> of_nat (length bytes)
     | FT_Align Alignment EmitNops MaxBytesToEmit \<Rightarrow>
         let Offset = ucast off :: u32;
             Size = ucast (offsetToAlignment (ucast Offset) Alignment) :: u32;
             extra = shouldInsertExtraNopBytesForCodeAlign (env_sti S) Alignment
         in if useCodeAlign S \<and> EmitNops \<and> extra \<noteq> None then ucast (the extra)
            else if Size > MaxBytesToEmit then 0
            else ucast Size)"

text \<open>The cache: \<open>layoutFragment\<close> appends the offset of the first invalid fragment.\<close>

definition layoutFragment :: "'o asm_env \<Rightarrow> 'o fragment list \<Rightarrow> u64 list \<Rightarrow> u64 list" where
  "layoutFragment S fs valid =
    (if valid = [] then [0]
     else valid @ [last valid + computeFragmentSize S (fs ! (length valid - 1)) (last valid)])"

function ensureValid :: "'o asm_env \<Rightarrow> 'o fragment list \<Rightarrow> nat \<Rightarrow> u64 list \<Rightarrow> u64 list" where
  "ensureValid S fs i valid =
    (if i < length valid then valid else ensureValid S fs i (layoutFragment S fs valid))"
  by pat_completeness auto
termination
  by (relation "measure (\<lambda>(S, fs, i, valid). Suc i - length valid)") (auto simp: layoutFragment_def)

declare ensureValid.simps [simp del]

definition getFragmentOffset :: "'o asm_env \<Rightarrow> 'o fragment list \<Rightarrow> nat \<Rightarrow> u64 list \<Rightarrow> (u64 \<times> u64 list) option" where
  "getFragmentOffset S fs i valid =
    (if i < length fs then let v = ensureValid S fs i valid in Some (v ! i, v) else None)"

definition invalidateFragmentsFrom :: "nat \<Rightarrow> u64 list \<Rightarrow> u64 list" where
  "invalidateFragmentsFrom i valid = (if i < length valid then take i valid else valid)"

section \<open>Relaxing a fragment\<close>

text \<open>The target of a fixup, with the offset of its label.\<close>

definition fixup_target ::
  "'o asm_env \<Rightarrow> 'o fragment list \<Rightarrow> asm_expr \<Rightarrow> u64 list \<Rightarrow> (MCValue \<times> u64 list) option" where
  "fixup_target S fs e valid =
    (case ex_symbol e of
       None \<Rightarrow> Some (\<lparr>SymA = None, SymB = None, Constant = ex_addend e\<rparr>, valid)
     | Some (VK_None, s) \<Rightarrow>
        (case env_label S s of
           None \<Rightarrow>
             Some (\<lparr>SymA = Some (VK_None, \<lparr>sym_id = s, sym_undefined = True, sym_offset = 0\<rparr>), SymB = None,
                    Constant = ex_addend e\<rparr>, valid)
         | Some (fr, off) \<Rightarrow>
            (case getFragmentOffset S fs fr valid of
               None \<Rightarrow> None
             | Some (o', v) \<Rightarrow>
                 Some (\<lparr>SymA = Some (VK_None, \<lparr>sym_id = s, sym_undefined = False, sym_offset = o' + off\<rparr>), SymB = None,
                        Constant = ex_addend e\<rparr>, v))))"

definition evaluate_in_section ::
  "'o asm_env \<Rightarrow> 'o fragment list \<Rightarrow> nat \<Rightarrow> asm_expr MCFixup \<Rightarrow> u64 list \<Rightarrow> (evaluated \<times> u64 list) option" where
  "evaluate_in_section S fs i Fixup valid =
    (case fixup_target S fs (fixup_value Fixup) valid of
       None \<Rightarrow> None
     | Some (Target, v1) \<Rightarrow>
        (case getFragmentOffset S fs i v1 of
           None \<Rightarrow> None
         | Some (o', v2) \<Rightarrow>
             let DF = \<lparr>fragment_offset = o', has_writer = True, fully_resolved = (\<lambda>s. env_local S (sym_id s))\<rparr>
             in map_option (\<lambda>(e, r). (r, v2)) (evaluateFixup (env_sti S) (\<lambda>_. 0) Fixup DF (Some Target) None)))"

definition fixupNeedsRelaxation ::
  "'o asm_env \<Rightarrow> 'o fragment list \<Rightarrow> nat \<Rightarrow> asm_expr MCFixup \<Rightarrow> u64 list \<Rightarrow> (bool \<times> u64 list) option" where
  "fixupNeedsRelaxation S fs i Fixup valid =
    (case evaluate_in_section S fs i Fixup valid of
       None \<Rightarrow> None
     | Some (r, v) \<Rightarrow>
         Some (fixupNeedsRelaxationAdvanced (fixup_kind Fixup) (Resolved r) (FixedValue r) (WasForced r), v))"

fun any_fixup_needs ::
  "'o asm_env \<Rightarrow> 'o fragment list \<Rightarrow> nat \<Rightarrow> asm_expr MCFixup list \<Rightarrow> u64 list \<Rightarrow> (bool \<times> u64 list) option" where
  "any_fixup_needs S fs i [] valid = Some (False, valid)"
| "any_fixup_needs S fs i (Fixup # Fixups) valid =
    (case fixupNeedsRelaxation S fs i Fixup valid of
       None \<Rightarrow> None
     | Some (True, v) \<Rightarrow> Some (True, v)
     | Some (False, v) \<Rightarrow> any_fixup_needs S fs i Fixups v)"

definition fragmentNeedsRelaxation ::
  "'o asm_env \<Rightarrow> 'o fragment list \<Rightarrow> nat \<Rightarrow> 'o MCInst \<Rightarrow> asm_expr MCFixup list \<Rightarrow> u64 list \<Rightarrow> (bool \<times> u64 list) option" where
  "fragmentNeedsRelaxation S fs i Inst Fixups valid =
    (if \<not> mayNeedRelaxation Inst then Some (False, valid) else any_fixup_needs S fs i Fixups valid)"

text \<open>\<open>MCAssembler::relaxInstruction\<close> and \<open>relaxFragment\<close> on the fragment at \<open>i\<close>.\<close>

definition relaxFragment ::
  "'o asm_env \<Rightarrow> nat \<Rightarrow> 'o fragment list \<Rightarrow> u64 list \<Rightarrow> (bool \<times> 'o fragment list \<times> u64 list) option" where
  "relaxFragment S i fs valid =
    (case fs ! i of
       FT_Relaxable Inst bytes Fixups \<Rightarrow>
         (case fragmentNeedsRelaxation S fs i Inst Fixups valid of
            None \<Rightarrow> None
          | Some (needs, v) \<Rightarrow>
              if \<not> needs then Some (False, fs, v)
              else
                (case relaxInstruction (env_uncompress S) Inst of
                   None \<Rightarrow> None
                 | Some Relaxed \<Rightarrow>
                     let (bytes', Fixups') = encodeInstruction S Relaxed
                     in Some (True, fs[i := FT_Relaxable Relaxed bytes' Fixups'], v)))
     | _ \<Rightarrow> Some (False, fs, valid))"

section \<open>Passes\<close>

text \<open>One pass from fragment \<open>i\<close> on, \<open>n\<close> fragments being left; \<open>First\<close> is the first relaxed one.\<close>

fun relax_pass ::
  "'o asm_env \<Rightarrow> nat \<Rightarrow> nat \<Rightarrow> nat option \<Rightarrow> 'o fragment list \<Rightarrow> u64 list \<Rightarrow>
   (nat option \<times> 'o fragment list \<times> u64 list) option" where
  "relax_pass S 0 i First fs valid = Some (First, fs, valid)"
| "relax_pass S (Suc n) i First fs valid =
    (case relaxFragment S i fs valid of
       None \<Rightarrow> None
     | Some (RelaxedFrag, fs', v) \<Rightarrow>
         relax_pass S n (Suc i) (if RelaxedFrag \<and> First = None then Some i else First) fs' v)"

definition layoutSectionOnce ::
  "'o asm_env \<Rightarrow> 'o fragment list \<Rightarrow> u64 list \<Rightarrow> (bool \<times> 'o fragment list \<times> u64 list) option" where
  "layoutSectionOnce S fs valid =
    (case relax_pass S (length fs) 0 None fs valid of
       None \<Rightarrow> None
     | Some (None, fs', v) \<Rightarrow> Some (False, fs', v)
     | Some (Some i, fs', v) \<Rightarrow> Some (True, fs', invalidateFragmentsFrom i v))"

text \<open>How a loop over rounds ends: with a result, with a failed assertion, or not within the fuel.\<close>

datatype 'a rounds = Ended 'a | Failed | OutOfFuel

text \<open>The loop of \<open>layoutOnce\<close> over one section.\<close>

fun layoutOnce ::
  "nat \<Rightarrow> 'o asm_env \<Rightarrow> bool \<Rightarrow> 'o fragment list \<Rightarrow> u64 list \<Rightarrow> (bool \<times> 'o fragment list \<times> u64 list) rounds" where
  "layoutOnce 0 S WasRelaxed fs valid = OutOfFuel"
| "layoutOnce (Suc fuel) S WasRelaxed fs valid =
    (case layoutSectionOnce S fs valid of
       None \<Rightarrow> Failed
     | Some (True, fs', v) \<Rightarrow> layoutOnce fuel S True fs' v
     | Some (False, fs', v) \<Rightarrow> Ended (WasRelaxed, fs', v))"

text \<open>The loop of \<open>layout\<close>; all offsets are invalidated between the rounds.\<close>

fun layout_section :: "nat \<Rightarrow> 'o asm_env \<Rightarrow> 'o fragment list \<Rightarrow> u64 list \<Rightarrow> ('o fragment list \<times> u64 list) rounds" where
  "layout_section 0 S fs valid = OutOfFuel"
| "layout_section (Suc fuel) S fs valid =
    (case layoutOnce (Suc fuel) S False fs valid of
       Failed \<Rightarrow> Failed
     | OutOfFuel \<Rightarrow> OutOfFuel
     | Ended (WasRelaxed, fs', v) \<Rightarrow>
         if WasRelaxed then layout_section fuel S fs' (invalidateFragmentsFrom 0 v) else Ended (fs', v))"

section \<open>A LEB128 value\<close>

text \<open>The value of a LEB128 fragment is an expression, a constant in particular. The evaluation of other
  expressions, \<open>evaluateAsAbsolute\<close> and \<open>evaluateKnownAbsolute\<close> at the current layout, is a parameter:
  whether the expression is absolute, and the value, which is also set where it is not. A constant is
  the fast path of both.\<close>

datatype 'e leb_expr = MCConstantExpr u64 | MCOtherExpr 'e

record 'e MCLEBFragment =
  LEBSigned :: bool
  LEBValue :: "'e leb_expr"
  LEBContents :: "u8 list"
  LEBFixups :: "'e leb_expr MCFixup list"

definition evaluateAsAbsolute :: "('e \<Rightarrow> bool \<times> u64) \<Rightarrow> 'e leb_expr \<Rightarrow> bool \<times> u64" where
  "evaluateAsAbsolute eval Expr = (case Expr of MCConstantExpr c \<Rightarrow> (True, c) | MCOtherExpr e \<Rightarrow> eval e)"

text \<open>\<open>MCAssembler::relaxLEB\<close>: the fragment afterwards, whether it changed its size, and whether the
  expression was reported not to be absolute; after the report the value is the constant 0.\<close>

definition relaxLEB ::
  "bool \<Rightarrow> ('e \<Rightarrow> bool \<times> u64) \<Rightarrow> ('e \<Rightarrow> bool \<times> u64) \<Rightarrow> 'e MCLEBFragment \<Rightarrow> 'e MCLEBFragment \<times> bool \<times> bool" where
  "relaxLEB ULEB128Reloc evalAbsolute evalKnown LF =
    (let OldSize = length (LEBContents LF);
         (Abs, Value) = evaluateAsAbsolute evalAbsolute (LEBValue LF);
         ((Relaxed, UseZeroPad), Fixups, Value') =
           (if Abs then ((True, False), [], Value)
            else relaxLEB128 ULEB128Reloc (LEBSigned LF) (LEBValue LF)
              (evaluateAsAbsolute evalKnown (LEBValue LF)) Value []);
         Expr = (if Relaxed then LEBValue LF else MCConstantExpr 0);
         PadTo = (if Abs then OldSize else max OldSize (snd (encodeULEB128_buf Value' 0)));
         Value'' = (if UseZeroPad then 0 else Value');
         Data = (if LEBSigned LF then fst (encodeSLEB128 Value'' PadTo) else fst (encodeULEB128 Value'' PadTo))
     in (LF\<lparr>LEBValue := Expr, LEBContents := Data, LEBFixups := Fixups\<rparr>, OldSize \<noteq> length Data, \<not> Relaxed))"

end
