(* ===== verification/AsmLayoutSound.thy ===== *)
theory AsmLayoutSound
  imports AsmLayout AsmBackendSound
begin

text \<open>
  The layout of a section ends and is settled. The offsets of a section are given by a recursion over
  its fragments; the cache of valid offsets agrees with them up to the first relaxed fragment of a
  pass, and entirely between passes. Every relaxation lowers the rank of a section, the number of times
  its instructions can still be relaxed, which bounds the number of passes. The pass that changes
  nothing has looked at every fixup at its final offset.
\<close>

section \<open>The offsets of a section\<close>

fun offsets :: "'o asm_env \<Rightarrow> u64 \<Rightarrow> 'o fragment list \<Rightarrow> u64 list" where
  "offsets S off [] = []"
| "offsets S off (F # fs) = off # offsets S (off + computeFragmentSize S F off) fs"

lemma length_offsets [simp]: "length (offsets S off fs) = length fs"
  by (induction S off fs rule: offsets.induct) simp_all

lemma offsets_0 [simp]: "fs \<noteq> [] \<Longrightarrow> offsets S off fs ! 0 = off"
  by (cases fs) simp_all

lemma offsets_Suc:
  "Suc i < length fs \<Longrightarrow>
    offsets S off fs ! Suc i = offsets S off fs ! i + computeFragmentSize S (fs ! i) (offsets S off fs ! i)"
proof (induction fs arbitrary: i off)
  case (Cons F fs)
  then show ?case by (cases i) (cases fs, auto)
qed simp

lemma offsets_update:
  "j \<le> i \<Longrightarrow> j < length fs \<Longrightarrow> offsets S off (fs[i := F]) ! j = offsets S off fs ! j"
proof (induction fs arbitrary: i j off)
  case (Cons G fs)
  then show ?case by (cases i; cases j) auto
qed simp

text \<open>The first \<open>m\<close> entries of the cache are right.\<close>

definition cache_upto :: "nat \<Rightarrow> 'o asm_env \<Rightarrow> 'o fragment list \<Rightarrow> u64 list \<Rightarrow> bool" where
  "cache_upto m S fs valid \<longleftrightarrow>
    length valid \<le> length fs \<and> (\<forall>j < length valid. j < m \<longrightarrow> valid ! j = offsets S 0 fs ! j)"

lemma cache_upto_Nil [simp]: "cache_upto m S fs []"
  by (simp add: cache_upto_def)

lemma cache_upto_mono: "cache_upto m S fs valid \<Longrightarrow> n \<le> m \<Longrightarrow> cache_upto n S fs valid"
  by (auto simp: cache_upto_def)

lemma cache_upto_layoutFragment:
  assumes "cache_upto m S fs valid" "length valid < length fs"
  shows "cache_upto m S fs (layoutFragment S fs valid)" "length (layoutFragment S fs valid) = Suc (length valid)"
proof -
  show "length (layoutFragment S fs valid) = Suc (length valid)" by (simp add: layoutFragment_def)
  show "cache_upto m S fs (layoutFragment S fs valid)"
  proof (cases "valid = []")
    case True
    then show ?thesis using assms by (auto simp: cache_upto_def layoutFragment_def Suc_le_eq)
  next
    case False
    then obtain n where n: "length valid = Suc n" by (cases valid) auto
    have l: "last valid = valid ! n" using False n by (simp add: last_conv_nth)
    have "(layoutFragment S fs valid) ! j = offsets S 0 fs ! j" if j: "j \<le> Suc n" "j < m" for j
    proof (cases "j = Suc n")
      case True
      have "valid ! n = offsets S 0 fs ! n" using assms(1) n j True by (simp add: cache_upto_def)
      then show ?thesis using True assms(2) n
        by (simp add: layoutFragment_def False nth_append l offsets_Suc)
    next
      case neq: False
      then have "j < length valid" using j n by simp
      then show ?thesis using assms(1) j False by (simp add: layoutFragment_def nth_append cache_upto_def)
    qed
    then show ?thesis using assms n by (auto simp: cache_upto_def layoutFragment_def less_Suc_eq_le)
  qed
qed

lemma cache_upto_ensureValid:
  assumes "cache_upto m S fs valid" "i < length fs"
  shows "cache_upto m S fs (ensureValid S fs i valid) \<and> i < length (ensureValid S fs i valid)"
  using assms
proof (induction S fs i valid rule: ensureValid.induct)
  case (1 S fs i valid)
  show ?case
  proof (cases "i < length valid")
    case True
    then show ?thesis using "1.prems" by (subst (1 2) ensureValid.simps) simp
  next
    case False
    then have "cache_upto m S fs (layoutFragment S fs valid)"
      using "1.prems" by (intro cache_upto_layoutFragment) auto
    then show ?thesis using "1.IH" [OF False _ "1.prems"(2)] False by (subst (1 2) ensureValid.simps) simp
  qed
qed

lemma getFragmentOffset_some:
  assumes "cache_upto m S fs valid" "i < length fs"
  obtains o' v where "getFragmentOffset S fs i valid = Some (o', v)" "cache_upto m S fs v"
    "i < m \<longrightarrow> o' = offsets S 0 fs ! i"
proof
  note e = cache_upto_ensureValid [OF assms]
  show "getFragmentOffset S fs i valid = Some (ensureValid S fs i valid ! i, ensureValid S fs i valid)"
    using assms(2) by (simp add: getFragmentOffset_def Let_def)
  show "cache_upto m S fs (ensureValid S fs i valid)" using e by simp
  show "i < m \<longrightarrow> ensureValid S fs i valid ! i = offsets S 0 fs ! i"
    using e by (simp add: cache_upto_def)
qed

section \<open>Evaluating a fixup at the offsets of the section\<close>

definition labels_ok :: "'o asm_env \<Rightarrow> nat \<Rightarrow> bool" where
  "labels_ok S n \<longleftrightarrow> (\<forall>s fr off. env_label S s = Some (fr, off) \<longrightarrow> fr < n)"

definition section_target :: "'o asm_env \<Rightarrow> u64 list \<Rightarrow> asm_expr \<Rightarrow> MCValue" where
  "section_target S offs e =
    \<lparr>SymA =
       map_option
         (\<lambda>(VK_None, s). (VK_None,
           case env_label S s of
             None \<Rightarrow> \<lparr>sym_id = s, sym_undefined = True, sym_offset = 0\<rparr>
           | Some (fr, off) \<Rightarrow> \<lparr>sym_id = s, sym_undefined = False, sym_offset = offs ! fr + off\<rparr>))
         (ex_symbol e),
     SymB = None, Constant = ex_addend e\<rparr>"

definition section_view :: "'o asm_env \<Rightarrow> u64 list \<Rightarrow> nat \<Rightarrow> fragment_view" where
  "section_view S offs i =
    \<lparr>fragment_offset = offs ! i, has_writer = True, fully_resolved = (\<lambda>s. env_local S (sym_id s))\<rparr>"

definition section_eval :: "'o asm_env \<Rightarrow> u64 list \<Rightarrow> nat \<Rightarrow> asm_expr MCFixup \<Rightarrow> evaluated option" where
  "section_eval S offs i Fixup =
    map_option snd
      (evaluateFixup (env_sti S) (\<lambda>_. 0) Fixup (section_view S offs i)
        (Some (section_target S offs (fixup_value Fixup))) None)"

text \<open>A value without a subtracted symbol is always evaluated.\<close>

lemma evaluateFixup_some:
  assumes "SymB Target = None"
  obtains e r where "evaluateFixup STI rec Fixup DF (Some Target) None = Some (e, r)"
proof -
  have "evaluateFixup STI rec Fixup DF (Some Target) None \<noteq> None"
  proof (cases "IsTarget (getFixupKindInfo (fixup_kind Fixup))")
    case True
    then have "fixup_kind Fixup \<in> {fixup_riscv_pcrel_hi20, fixup_riscv_pcrel_lo12_i, fixup_riscv_pcrel_lo12_s}"
      by (cases "fixup_kind Fixup")
        (simp_all add: getFixupKindInfo_def builtinFixupKindInfo_def plain_info_def pcrel_info_def)
    then have "evaluateTargetFixup STI Fixup DF Target None \<noteq> None"
      by (cases "evaluate_auipc STI (fixup_offset Fixup) (fixup_kind Fixup) DF Target") (auto simp: evaluateTargetFixup_def)
    then show ?thesis using True assms by (simp add: evaluateFixup_def Let_def del: not_None_eq)
  next
    case False
    then show ?thesis using assms by (simp add: evaluateFixup_def Let_def del: not_None_eq split: option.splits prod.splits)
  qed
  then show ?thesis using that by (cases "evaluateFixup STI rec Fixup DF (Some Target) None") auto
qed

lemma fixup_target_some:
  assumes "cache_upto m S fs valid" "labels_ok S (length fs)"
  obtains Target v where "fixup_target S fs e valid = Some (Target, v)" "cache_upto m S fs v" "SymB Target = None"
    "length fs \<le> m \<longrightarrow> Target = section_target S (offsets S 0 fs) e"
proof (cases "ex_symbol e")
  case None
  then show ?thesis using that assms(1) by (simp add: fixup_target_def section_target_def)
next
  case (Some ref)
  obtain vk s where r: "ref = (vk, s)" by (cases ref)
  show ?thesis
  proof (cases "env_label S s")
    case None
    then show ?thesis using that assms(1) Some r by (simp add: fixup_target_def section_target_def)
  next
    case l: (Some lab)
    obtain fr off where lab: "lab = (fr, off)" by (cases lab)
    then have fr: "fr < length fs" using assms(2) l by (auto simp: labels_ok_def)
    obtain o' v where g: "getFragmentOffset S fs fr valid = Some (o', v)" "cache_upto m S fs v"
      "fr < m \<longrightarrow> o' = offsets S 0 fs ! fr"
      by (rule getFragmentOffset_some [OF assms(1) fr])
    show ?thesis
      by (rule that) (use g fr Some r l lab in \<open>auto simp: fixup_target_def section_target_def\<close>)
  qed
qed

lemma evaluate_in_section_some:
  assumes "cache_upto m S fs valid" "labels_ok S (length fs)" "i < length fs"
  obtains r v where "evaluate_in_section S fs i Fixup valid = Some (r, v)" "cache_upto m S fs v"
    "length fs \<le> m \<longrightarrow> section_eval S (offsets S 0 fs) i Fixup = Some r"
proof -
  obtain Target v1 where t: "fixup_target S fs (fixup_value Fixup) valid = Some (Target, v1)" "cache_upto m S fs v1"
    "SymB Target = None" "length fs \<le> m \<longrightarrow> Target = section_target S (offsets S 0 fs) (fixup_value Fixup)"
    by (rule fixup_target_some [OF assms(1,2), where e = "fixup_value Fixup"])
  obtain o' v2 where g: "getFragmentOffset S fs i v1 = Some (o', v2)" "cache_upto m S fs v2"
    "i < m \<longrightarrow> o' = offsets S 0 fs ! i"
    by (rule getFragmentOffset_some [OF t(2) assms(3)])
  let ?DF = "\<lparr>fragment_offset = o', has_writer = True, fully_resolved = (\<lambda>s. env_local S (sym_id s))\<rparr>"
  obtain e r where ev: "evaluateFixup (env_sti S) (\<lambda>_. 0) Fixup ?DF (Some Target) None = Some (e, r)"
    by (rule evaluateFixup_some [OF t(3)])
  show ?thesis
  proof (rule that)
    show "evaluate_in_section S fs i Fixup valid = Some (r, v2)"
      using t(1) g(1) ev by (simp add: evaluate_in_section_def Let_def)
    show "cache_upto m S fs v2" by (rule g(2))
    show "length fs \<le> m \<longrightarrow> section_eval S (offsets S 0 fs) i Fixup = Some r"
      using assms(3) t(4) g(3) ev by (auto simp: section_eval_def section_view_def)
  qed
qed

text \<open>Whether a fixup would be relaxed at the offsets of the section.\<close>

definition needs_relaxation :: "'o asm_env \<Rightarrow> u64 list \<Rightarrow> nat \<Rightarrow> asm_expr MCFixup \<Rightarrow> bool" where
  "needs_relaxation S offs i Fixup =
    (case section_eval S offs i Fixup of
       None \<Rightarrow> False
     | Some r \<Rightarrow> fixupNeedsRelaxationAdvanced (fixup_kind Fixup) (Resolved r) (FixedValue r) (WasForced r))"

lemma fixupNeedsRelaxation_some:
  assumes "cache_upto m S fs valid" "labels_ok S (length fs)" "i < length fs"
  obtains b v where "fixupNeedsRelaxation S fs i Fixup valid = Some (b, v)" "cache_upto m S fs v"
    "length fs \<le> m \<longrightarrow> b = needs_relaxation S (offsets S 0 fs) i Fixup"
proof -
  obtain r v where e: "evaluate_in_section S fs i Fixup valid = Some (r, v)" "cache_upto m S fs v"
    "length fs \<le> m \<longrightarrow> section_eval S (offsets S 0 fs) i Fixup = Some r"
    by (rule evaluate_in_section_some [OF assms, where Fixup = Fixup])
  show ?thesis
    by (rule that) (use e in \<open>auto simp: fixupNeedsRelaxation_def needs_relaxation_def\<close>)
qed

lemma any_fixup_needs_some:
  assumes "cache_upto m S fs valid" "labels_ok S (length fs)" "i < length fs"
  shows "\<exists>b v. any_fixup_needs S fs i Fixups valid = Some (b, v) \<and> cache_upto m S fs v \<and>
    (length fs \<le> m \<longrightarrow> b = (\<exists>F \<in> set Fixups. needs_relaxation S (offsets S 0 fs) i F))"
  using assms(1)
proof (induction Fixups arbitrary: valid)
  case Nil
  then show ?case by (intro exI [of _ False] exI [of _ valid]) simp
next
  case (Cons F Fixups)
  obtain b v where e: "fixupNeedsRelaxation S fs i F valid = Some (b, v)" "cache_upto m S fs v"
    "length fs \<le> m \<longrightarrow> b = needs_relaxation S (offsets S 0 fs) i F"
    by (rule fixupNeedsRelaxation_some [OF Cons.prems assms(2,3), where Fixup = F])
  show ?case
  proof (cases b)
    case True
    then show ?thesis using e by auto
  next
    case False
    then show ?thesis using e Cons.IH [OF e(2)] by auto
  qed
qed

section \<open>Passes\<close>

text \<open>What a relaxation makes of a fragment.\<close>

inductive relax_step :: "'o asm_env \<Rightarrow> 'o fragment \<Rightarrow> 'o fragment \<Rightarrow> bool" for S where
  relax_step: "mayNeedRelaxation Inst \<Longrightarrow> relaxInstruction (env_uncompress S) Inst = Some Relaxed \<Longrightarrow>
    encodeInstruction S Relaxed = (bytes', Fixups') \<Longrightarrow>
    relax_step S (FT_Relaxable Inst bytes Fixups) (FT_Relaxable Relaxed bytes' Fixups')"

text \<open>What the generated \<open>uncompress\<close> makes of a compressed branch when it accepts it: the instruction
  that \<open>getRelaxedOpcode\<close> names, a conditional branch with its three operands. It rejects an
  instruction whose operands or features do not match its table.\<close>

definition uncompress_law :: "'o asm_env \<Rightarrow> bool" where
  "uncompress_law S \<longleftrightarrow>
    (\<forall>Inst R. Opcode Inst \<in> {C_BEQZ, C_BNEZ, C_J, C_JAL} \<longrightarrow> env_uncompress S Inst = Some R \<longrightarrow>
      Opcode R = getRelaxedOpcode (Opcode Inst) \<and>
      (Opcode Inst \<in> {C_BEQZ, C_BNEZ} \<longrightarrow> 3 \<le> length (Operands R)))"

definition rejected :: "'o asm_env \<Rightarrow> 'o fragment \<Rightarrow> bool" where
  "rejected S F =
    (case F of
       FT_Relaxable Inst bytes Fixups \<Rightarrow> Opcode Inst \<in> {C_BEQZ, C_BNEZ, C_J, C_JAL} \<and> env_uncompress S Inst = None
     | _ \<Rightarrow> False)"

definition inst_ok :: "'o MCInst \<Rightarrow> bool" where
  "inst_ok Inst \<longleftrightarrow> (Opcode Inst \<in> {BEQ, BNE, BLT, BGE, BLTU, BGEU} \<longrightarrow> 3 \<le> length (Operands Inst))"

fun fragment_ok :: "'o fragment \<Rightarrow> bool" where
  "fragment_ok (FT_Relaxable Inst bytes Fixups) \<longleftrightarrow> inst_ok Inst"
| "fragment_ok _ \<longleftrightarrow> True"

definition relax_rank :: "branch_opcode \<Rightarrow> nat" where
  "relax_rank Op = (if Op \<in> {C_BEQZ, C_BNEZ} then 2 else if getRelaxedOpcode Op \<noteq> Op then 1 else 0)"

fun fragment_rank :: "'o fragment \<Rightarrow> nat" where
  "fragment_rank (FT_Relaxable Inst bytes Fixups) = relax_rank (Opcode Inst)"
| "fragment_rank _ = 0"

definition section_rank :: "'o fragment list \<Rightarrow> nat" where
  "section_rank fs = sum_list (map fragment_rank fs)"

lemma relax_rank_less: "getRelaxedOpcode Op \<noteq> Op \<Longrightarrow> relax_rank (getRelaxedOpcode Op) < relax_rank Op"
  by (cases Op) (simp_all add: relax_rank_def getRelaxedOpcode_def)

lemma relaxable_opcodes:
  "getRelaxedOpcode Op \<noteq> Op \<longleftrightarrow> Op \<in> {C_BEQZ, C_BNEZ, C_J, C_JAL} \<or> Op \<in> {BEQ, BNE, BLT, BGE, BLTU, BGEU}"
  by (cases Op) (simp_all add: getRelaxedOpcode_def)

lemma relaxInstruction_cases:
  assumes "uncompress_law S" "inst_ok Inst" "mayNeedRelaxation Inst"
  obtains (relaxed) R where "relaxInstruction (env_uncompress S) Inst = Some R" "inst_ok R"
      "relax_rank (Opcode R) < relax_rank (Opcode Inst)"
    | (fails) "relaxInstruction (env_uncompress S) Inst = None" "rejected S (FT_Relaxable Inst bytes Fixups)"
proof -
  have ne: "getRelaxedOpcode (Opcode Inst) \<noteq> Opcode Inst" using assms(3) by (simp add: mayNeedRelaxation_def)
  then consider (rvc) "Opcode Inst \<in> {C_BEQZ, C_BNEZ, C_J, C_JAL}" | (branch) "Opcode Inst \<in> {BEQ, BNE, BLT, BGE, BLTU, BGEU}"
    using relaxable_opcodes by blast
  then show ?thesis
  proof cases
    case rvc
    show ?thesis
    proof (cases "env_uncompress S Inst")
      case None
      then show ?thesis using fails rvc by (simp add: relaxInstruction_def rejected_def)
    next
      case (Some R)
      then have R: "Opcode R = getRelaxedOpcode (Opcode Inst)"
        "Opcode Inst \<in> {C_BEQZ, C_BNEZ} \<longrightarrow> 3 \<le> length (Operands R)"
        using assms(1) rvc unfolding uncompress_law_def by blast+
      have "inst_ok R" using R rvc by (auto simp: inst_ok_def getRelaxedOpcode_def)
      then show ?thesis using relaxed [of R] Some R(1) rvc relax_rank_less [OF ne] by (simp add: relaxInstruction_def)
    qed
  next
    case branch
    let ?R = "\<lparr>Opcode = getRelaxedOpcode (Opcode Inst), Operands = take 3 (Operands Inst)\<rparr>"
    have "relaxInstruction (env_uncompress S) Inst = Some ?R"
      using branch assms(2) by (auto simp: relaxInstruction_def inst_ok_def)
    moreover have "inst_ok ?R" using branch by (auto simp: inst_ok_def getRelaxedOpcode_def)
    ultimately show ?thesis using relaxed [of ?R] relax_rank_less [OF ne] by simp
  qed
qed

text \<open>A relaxed form is not compressed, so what is rejected at the end was in the section.\<close>

lemma relax_step_not_rejected:
  assumes "relax_step S G F" "uncompress_law S"
  shows "\<not> rejected S F"
  using assms(1)
proof cases
  case (relax_step Inst Relaxed bytes' Fixups' bytes Fixups)
  have "Opcode Relaxed = getRelaxedOpcode (Opcode Inst)"
  proof (cases "Opcode Inst \<in> {C_BEQZ, C_BNEZ, C_J, C_JAL}")
    case True
    then have "env_uncompress S Inst = Some Relaxed" using relax_step(4) by (simp only: relaxInstruction_def if_True)
    then show ?thesis using assms(2) True unfolding uncompress_law_def by blast
  next
    case False
    then have "(if Opcode Inst \<in> {BEQ, BNE, BLT, BGE, BLTU, BGEU}
        then if 3 \<le> length (Operands Inst)
          then Some \<lparr>Opcode = getRelaxedOpcode (Opcode Inst), Operands = take 3 (Operands Inst)\<rparr> else None
        else None) = Some Relaxed"
      using relax_step(4) by (simp only: relaxInstruction_def if_False)
    then have "Relaxed = \<lparr>Opcode = getRelaxedOpcode (Opcode Inst), Operands = take 3 (Operands Inst)\<rparr>"
      by (simp only: split: if_split_asm) (simp_all only: option.inject option.distinct)
    then show ?thesis by simp
  qed
  moreover have "getRelaxedOpcode Op \<notin> {C_BEQZ, C_BNEZ, C_J, C_JAL}" if "getRelaxedOpcode Op \<noteq> Op" for Op
    using that by (cases Op) (simp_all add: getRelaxedOpcode_def)
  ultimately have "Opcode Relaxed \<notin> {C_BEQZ, C_BNEZ, C_J, C_JAL}"
    using relax_step(3) by (simp only: mayNeedRelaxation_def)
  then show ?thesis unfolding relax_step(2) rejected_def by simp
qed

lemma section_rank_update:
  "i < length fs \<Longrightarrow> fragment_rank F < fragment_rank (fs ! i) \<Longrightarrow> section_rank (fs[i := F]) < section_rank fs"
  by (induction fs arbitrary: i) (auto simp: section_rank_def nth_Cons split: nat.splits)

lemma cache_upto_update:
  "cache_upto m S fs v \<Longrightarrow> n \<le> m \<Longrightarrow> n \<le> Suc i \<Longrightarrow> cache_upto n S (fs[i := F]) v"
  by (auto simp: cache_upto_def offsets_update)

lemma cache_upto_invalidate: "cache_upto k S fs v \<Longrightarrow> cache_upto n S fs (invalidateFragmentsFrom k v)"
  by (auto simp: cache_upto_def invalidateFragmentsFrom_def)

definition fragment_needs :: "'o asm_env \<Rightarrow> u64 list \<Rightarrow> nat \<Rightarrow> 'o fragment \<Rightarrow> bool" where
  "fragment_needs S offs i F =
    (case F of
       FT_Relaxable Inst bytes Fixups \<Rightarrow> mayNeedRelaxation Inst \<and> (\<exists>x \<in> set Fixups. needs_relaxation S offs i x)
     | _ \<Rightarrow> False)"

text \<open>The section as a pass finds it.\<close>

definition section_ok :: "'o asm_env \<Rightarrow> 'o fragment list \<Rightarrow> bool" where
  "section_ok S fs \<longleftrightarrow> uncompress_law S \<and> labels_ok S (length fs) \<and> (\<forall>F \<in> set fs. fragment_ok F)"

lemma relaxFragment_cases:
  assumes "section_ok S fs" "cache_upto m S fs valid" "i < length fs"
  shows "relaxFragment S i fs valid = None \<and> rejected S (fs ! i) \<or>
    (\<exists>b fs' v. relaxFragment S i fs valid = Some (b, fs', v) \<and> cache_upto m S fs v \<and>
    (if b then \<exists>F. fs' = fs[i := F] \<and> relax_step S (fs ! i) F \<and> fragment_ok F \<and> fragment_rank F < fragment_rank (fs ! i)
     else fs' = fs) \<and>
    (length fs \<le> m \<longrightarrow> b = fragment_needs S (offsets S 0 fs) i (fs ! i)))"
proof (cases "fs ! i")
  case (FT_Relaxable Inst bytes Fixups)
  have ok: "labels_ok S (length fs)" "uncompress_law S" "inst_ok Inst"
    using assms(1,3) FT_Relaxable nth_mem [OF assms(3)] by (auto simp: section_ok_def)
  show ?thesis
  proof (cases "mayNeedRelaxation Inst")
    case True
    obtain b v where n: "any_fixup_needs S fs i Fixups valid = Some (b, v)" "cache_upto m S fs v"
      "length fs \<le> m \<longrightarrow> b = (\<exists>x \<in> set Fixups. needs_relaxation S (offsets S 0 fs) i x)"
      using any_fixup_needs_some [OF assms(2) ok(1) assms(3), of Fixups] by blast
    show ?thesis
    proof (cases b)
      case False
      then show ?thesis using FT_Relaxable True n
        by (intro disjI2 exI [of _ False] exI [of _ fs] exI [of _ v])
          (simp add: relaxFragment_def fragmentNeedsRelaxation_def fragment_needs_def)
    next
      case b: True
      show ?thesis
      proof (cases rule: relaxInstruction_cases [OF ok(2,3) True, where bytes = bytes and Fixups = Fixups])
        case (1 R)
        note relaxed = this
        obtain bytes' Fixups' where e: "encodeInstruction S R = (bytes', Fixups')" by (cases "encodeInstruction S R")
        have "relax_step S (fs ! i) (FT_Relaxable R bytes' Fixups')"
          unfolding FT_Relaxable by (rule relax_step.intros [OF True relaxed(1) e])
        then have "\<exists>F. fs[i := FT_Relaxable R bytes' Fixups'] = fs[i := F] \<and> relax_step S (fs ! i) F \<and> fragment_ok F \<and>
            fragment_rank F < fragment_rank (fs ! i)"
          using relaxed FT_Relaxable by (intro exI [of _ "FT_Relaxable R bytes' Fixups'"]) simp
        then show ?thesis
          using FT_Relaxable True b n relaxed(1) e
          by (intro disjI2 exI [of _ True] exI [of _ "fs[i := FT_Relaxable R bytes' Fixups']"] exI [of _ v])
            (simp add: relaxFragment_def fragmentNeedsRelaxation_def fragment_needs_def)
      next
        case 2
        then show ?thesis using FT_Relaxable True b n
          by (intro disjI1) (simp add: relaxFragment_def fragmentNeedsRelaxation_def)
      qed
    qed
  next
    case False
    then show ?thesis using FT_Relaxable assms(2)
      by (intro disjI2 exI [of _ False] exI [of _ fs] exI [of _ valid])
        (simp add: relaxFragment_def fragmentNeedsRelaxation_def fragment_needs_def)
  qed
qed (use assms(2) in \<open>auto simp: relaxFragment_def fragment_needs_def intro: exI [of _ False]\<close>)

lemma section_ok_update: "section_ok S fs \<Longrightarrow> fragment_ok F \<Longrightarrow> section_ok S (fs[i := F])"
  using set_update_subset_insert [of fs i F] by (auto simp: section_ok_def)

definition steps_from :: "'o asm_env \<Rightarrow> 'o fragment list \<Rightarrow> 'o fragment list \<Rightarrow> bool" where
  "steps_from S = list_all2 (relax_step S)\<^sup>*\<^sup>*"

lemma steps_from_refl [simp]: "steps_from S fs fs"
  by (simp add: steps_from_def list_all2_refl)

lemma steps_from_trans: "steps_from S fs gs \<Longrightarrow> steps_from S gs hs \<Longrightarrow> steps_from S fs hs"
  unfolding steps_from_def by (erule (1) list_all2_trans [rotated]) (rule rtranclp_trans)

lemma steps_from_length: "steps_from S fs gs \<Longrightarrow> length gs = length fs"
  by (simp add: steps_from_def list_all2_lengthD)

lemma steps_from_update: "relax_step S (fs ! i) F \<Longrightarrow> steps_from S fs (fs[i := F])"
  by (cases "i < length fs") (auto simp: steps_from_def list_all2_conv_all_nth nth_list_update)

lemma steps_from_rejected:
  assumes "steps_from S fs fs'" "F \<in> set fs'" "rejected S F" "uncompress_law S"
  shows "F \<in> set fs"
proof -
  obtain G where G: "G \<in> set fs" "(relax_step S)\<^sup>*\<^sup>* G F"
    using assms(1,2) unfolding steps_from_def by (metis in_set_conv_nth list_all2_conv_all_nth)
  from G(2) have "G = F"
    by (cases rule: rtranclp.cases) (use relax_step_not_rejected assms(3,4) in blast)+
  then show ?thesis using G(1) by simp
qed

text \<open>The part of the cache that is right during a pass.\<close>

definition right_upto :: "nat option \<Rightarrow> nat \<Rightarrow> nat" where
  "right_upto First n = (case First of None \<Rightarrow> n | Some k \<Rightarrow> Suc k)"

lemma relax_pass_cases:
  assumes "section_ok S fs" "cache_upto (right_upto First (length fs)) S fs valid" "i + n = length fs"
    "\<And>k. First = Some k \<Longrightarrow> k < i"
  shows "relax_pass S n i First fs valid = None \<and> (\<exists>F\<in>set fs. rejected S F) \<or>
    (\<exists>First' fs' v. relax_pass S n i First fs valid = Some (First', fs', v) \<and>
    section_ok S fs' \<and> steps_from S fs fs' \<and> cache_upto (right_upto First' (length fs)) S fs' v \<and>
    section_rank fs' \<le> section_rank fs \<and>
    (if First' = None then First = None \<and> fs' = fs \<and>
       (\<forall>j. i \<le> j \<and> j < length fs \<longrightarrow> \<not> fragment_needs S (offsets S 0 fs) j (fs ! j))
     else First \<noteq> None \<or> section_rank fs' < section_rank fs))"
  using assms
proof (induction n arbitrary: i First fs valid)
  case 0
  then show ?case by (auto split: if_splits)
next
  case (Suc n)
  have i: "i < length fs" "Suc i + n = length fs" using Suc.prems(3) by simp_all
  show ?case
  proof (cases "relaxFragment S i fs valid")
    case None
    then have "rejected S (fs ! i)" using relaxFragment_cases [OF Suc.prems(1,2) i(1)] by simp
    then show ?thesis using None nth_mem [OF i(1)] by (intro disjI1) (simp, blast)
  next
    case (Some res)
    then obtain b fs1 v where r: "relaxFragment S i fs valid = Some (b, fs1, v)"
      "cache_upto (right_upto First (length fs)) S fs v"
      "if b then \<exists>F. fs1 = fs[i := F] \<and> relax_step S (fs ! i) F \<and> fragment_ok F \<and> fragment_rank F < fragment_rank (fs ! i)
       else fs1 = fs"
      "length fs \<le> right_upto First (length fs) \<longrightarrow> b = fragment_needs S (offsets S 0 fs) i (fs ! i)"
      using relaxFragment_cases [OF Suc.prems(1,2) i(1)] by (metis option.distinct(1))
    show ?thesis
    proof (cases b)
      case True
      then obtain F where F: "fs1 = fs[i := F]" "relax_step S (fs ! i) F" "fragment_ok F"
        "fragment_rank F < fragment_rank (fs ! i)" using r(3) by auto
      define First1 where "First1 = (if First = None then Some i else First)"
      have l: "length fs1 = length fs" by (simp add: F(1))
      have k: "k < Suc i" if "First1 = Some k" for k
        using that Suc.prems(4) by (auto simp: First1_def less_Suc_eq split: if_splits)
      have "cache_upto (right_upto First1 (length fs1)) S fs1 v" unfolding F(1)
        by (rule cache_upto_update [OF r(2)])
          (use i Suc.prems(4) in \<open>auto simp: First1_def right_upto_def less_Suc_eq split: option.splits\<close>)
      note IH = Suc.IH [OF section_ok_update [OF Suc.prems(1) F(3), of i, folded F(1)] this _ k]
      have eq: "relax_pass S (Suc n) i First fs valid = relax_pass S n (Suc i) First1 fs1 v"
        using r(1) True by (simp add: First1_def)
      have st: "steps_from S fs fs1" unfolding F(1) by (rule steps_from_update [OF F(2)])
      show ?thesis
      proof (cases "relax_pass S n (Suc i) First1 fs1 v")
        case None
        then obtain G where "G \<in> set fs1" "rejected S G" using IH i(2) l by auto
        then have "\<exists>F\<in>set fs. rejected S F"
          using steps_from_rejected [OF st] Suc.prems(1) unfolding section_ok_def by blast
        then show ?thesis using None unfolding eq by blast
      next
        case (Some res')
        then obtain First' fs' v' where IH': "relax_pass S n (Suc i) First1 fs1 v = Some (First', fs', v')"
          "section_ok S fs'" "steps_from S fs1 fs'" "cache_upto (right_upto First' (length fs)) S fs' v'"
          "section_rank fs' \<le> section_rank fs1" "First' \<noteq> None"
          using IH i(2) l by (auto simp: First1_def split: if_splits)
        have "section_rank fs1 < section_rank fs" unfolding F(1) by (rule section_rank_update [OF i(1) F(4)])
        with IH'(5) have less: "section_rank fs' < section_rank fs" by simp
        show ?thesis
          unfolding eq by (intro disjI2 exI conjI, rule IH'(1))
            (use IH' steps_from_trans [OF st IH'(3)] less in \<open>simp_all del: not_None_eq\<close>)
      qed
    next
      case False
      then have fs1: "fs1 = fs" using r(3) by simp
      have k: "k < Suc i" if "First = Some k" for k using Suc.prems(4) [OF that] by simp
      have eq: "relax_pass S (Suc n) i First fs valid = relax_pass S n (Suc i) First fs v"
        using r(1) False by (simp add: fs1)
      note IH = Suc.IH [OF Suc.prems(1) r(2) i(2) k]
      show ?thesis
      proof (cases "relax_pass S n (Suc i) First fs v")
        case None
        then show ?thesis using IH unfolding eq by auto
      next
        case (Some res')
        then obtain First' fs' v' where IH': "relax_pass S n (Suc i) First fs v = Some (First', fs', v')"
          "section_ok S fs'" "steps_from S fs fs'" "cache_upto (right_upto First' (length fs)) S fs' v'"
          "section_rank fs' \<le> section_rank fs"
          "if First' = None then First = None \<and> fs' = fs \<and>
             (\<forall>j. Suc i \<le> j \<and> j < length fs \<longrightarrow> \<not> fragment_needs S (offsets S 0 fs) j (fs ! j))
           else First \<noteq> None \<or> section_rank fs' < section_rank fs"
          using IH by (metis option.distinct(1))
        have "\<not> fragment_needs S (offsets S 0 fs) i (fs ! i)" if "First = None"
          using r(4) False that by (simp add: right_upto_def)
        then have last: "if First' = None then First = None \<and> fs' = fs \<and>
             (\<forall>j. i \<le> j \<and> j < length fs \<longrightarrow> \<not> fragment_needs S (offsets S 0 fs) j (fs ! j))
           else First \<noteq> None \<or> section_rank fs' < section_rank fs"
          using IH'(6) by (auto split: if_splits) (metis Suc_leI le_neq_implies_less)
        show ?thesis
          unfolding eq by (intro disjI2 exI conjI, rule IH'(1), (rule IH' last)+)
      qed
    qed
  qed
qed

text \<open>A section none of whose fragments is to be relaxed.\<close>

definition settled :: "'o asm_env \<Rightarrow> 'o fragment list \<Rightarrow> bool" where
  "settled S fs \<longleftrightarrow> (\<forall>j < length fs. \<not> fragment_needs S (offsets S 0 fs) j (fs ! j))"

lemma layoutSectionOnce_cases:
  assumes "section_ok S fs" "cache_upto (length fs) S fs valid"
  shows "layoutSectionOnce S fs valid = None \<and> (\<exists>F\<in>set fs. rejected S F) \<or>
    (\<exists>b fs' v. layoutSectionOnce S fs valid = Some (b, fs', v) \<and> section_ok S fs' \<and> steps_from S fs fs' \<and>
    cache_upto (length fs') S fs' v \<and>
    (if b then section_rank fs' < section_rank fs else fs' = fs \<and> settled S fs))"
proof (cases "relax_pass S (length fs) 0 None fs valid")
  case None
  then show ?thesis
    using relax_pass_cases [OF assms(1), of None valid 0 "length fs"] assms(2)
    by (simp add: right_upto_def layoutSectionOnce_def)
next
  case (Some res)
  then obtain First fs' v where r: "relax_pass S (length fs) 0 None fs valid = Some (First, fs', v)"
    "section_ok S fs'" "steps_from S fs fs'" "cache_upto (right_upto First (length fs)) S fs' v"
    "if First = None then fs' = fs \<and> (\<forall>j. 0 \<le> j \<and> j < length fs \<longrightarrow> \<not> fragment_needs S (offsets S 0 fs) j (fs ! j))
     else section_rank fs' < section_rank fs"
    using relax_pass_cases [OF assms(1), of None valid 0 "length fs"] assms(2)
    by (simp add: right_upto_def) metis
  show ?thesis
  proof (cases First)
    case None
    then show ?thesis using r by (auto simp: layoutSectionOnce_def settled_def right_upto_def intro: exI [of _ False])
  next
    case (Some k)
    have "cache_upto k S fs' v" by (rule cache_upto_mono [OF r(4)]) (simp add: Some right_upto_def)
    then show ?thesis using r Some by (auto simp: layoutSectionOnce_def cache_upto_invalidate intro: exI [of _ True])
  qed
qed

lemma layoutOnce_cases:
  assumes "section_ok S fs" "cache_upto (length fs) S fs valid" "section_rank fs < fuel"
  shows "layoutOnce fuel S W fs valid = Failed \<and> (\<exists>F\<in>set fs. rejected S F) \<or>
    (\<exists>b fs' v. layoutOnce fuel S W fs valid = Ended (b, fs', v) \<and> section_ok S fs' \<and> steps_from S fs fs' \<and>
    cache_upto (length fs') S fs' v \<and> settled S fs' \<and> section_rank fs' \<le> section_rank fs \<and>
    (b \<longrightarrow> W \<or> section_rank fs' < section_rank fs))"
  using assms
proof (induction fuel S W fs valid rule: layoutOnce.induct)
  case (2 fuel S W fs valid)
  show ?case
  proof (cases "layoutSectionOnce S fs valid")
    case None
    then show ?thesis using layoutSectionOnce_cases [OF "2.prems"(1,2)] by simp
  next
    case (Some res)
    then obtain b fs1 v where s: "layoutSectionOnce S fs valid = Some (b, fs1, v)" "section_ok S fs1" "steps_from S fs fs1"
      "cache_upto (length fs1) S fs1 v" "if b then section_rank fs1 < section_rank fs else fs1 = fs \<and> settled S fs"
      using layoutSectionOnce_cases [OF "2.prems"(1,2)] by (metis option.distinct(1))
    show ?thesis
    proof (cases b)
      case True
      then have r: "section_rank fs1 < section_rank fs" using s(5) by simp
      then have "section_rank fs1 < fuel" using "2.prems"(3) by simp
      note IH = "2.IH" [OF s(1) refl eqTrueI [OF True] refl s(2,4) this]
      have eq: "layoutOnce (Suc fuel) S W fs valid = layoutOnce fuel S True fs1 v" using s(1) True by simp
      have rej: "\<exists>F\<in>set fs. rejected S F" if "\<exists>F\<in>set fs1. rejected S F"
        using that steps_from_rejected [OF s(3)] s(2) unfolding section_ok_def by blast
      have le: "section_rank fs' \<le> section_rank fs \<and> (b' \<longrightarrow> W \<or> section_rank fs' < section_rank fs)"
        if "section_rank fs' \<le> section_rank fs1" for fs' b'
        using that r by simp
      show ?thesis unfolding eq using IH rej steps_from_trans [OF s(3)] le by blast
    next
      case False
      then show ?thesis using s by auto
    qed
  qed
qed simp

lemma layout_section_cases:
  assumes "section_ok S fs" "cache_upto (length fs) S fs valid" "section_rank fs < fuel"
  shows "layout_section fuel S fs valid = Failed \<and> (\<exists>F\<in>set fs. rejected S F) \<or>
    (\<exists>fs' v. layout_section fuel S fs valid = Ended (fs', v) \<and> section_ok S fs' \<and> steps_from S fs fs' \<and>
    cache_upto (length fs') S fs' v \<and> settled S fs')"
  using assms
proof (induction fuel S fs valid rule: layout_section.induct)
  case (2 fuel S fs valid)
  from layoutOnce_cases [OF "2.prems", of False] show ?case
  proof (elim disjE conjE exE)
    fix b fs1 v
    assume s: "layoutOnce (Suc fuel) S False fs valid = Ended (b, fs1, v)" "section_ok S fs1"
      "steps_from S fs fs1" "cache_upto (length fs1) S fs1 v" "settled S fs1"
      "b \<longrightarrow> False \<or> section_rank fs1 < section_rank fs"
    show ?thesis
    proof (cases b)
      case True
      have c: "cache_upto (length fs1) S fs1 (invalidateFragmentsFrom 0 v)"
        by (rule cache_upto_invalidate [OF cache_upto_mono [OF s(4)]]) simp
      have f: "section_rank fs1 < fuel" using s(6) True "2.prems"(3) by simp
      have eq: "layout_section (Suc fuel) S fs valid = layout_section fuel S fs1 (invalidateFragmentsFrom 0 v)"
        using s(1) True by (simp del: layoutOnce.simps)
      have rej: "\<exists>F\<in>set fs. rejected S F" if "\<exists>F\<in>set fs1. rejected S F"
        using that steps_from_rejected [OF s(3)] s(2) unfolding section_ok_def by blast
      have "layout_section fuel S fs1 (invalidateFragmentsFrom 0 v) = Failed \<and> (\<exists>F\<in>set fs1. rejected S F) \<or>
        (\<exists>fs' v'. layout_section fuel S fs1 (invalidateFragmentsFrom 0 v) = Ended (fs', v') \<and> section_ok S fs' \<and>
          steps_from S fs1 fs' \<and> cache_upto (length fs') S fs' v' \<and> settled S fs')"
        by (rule "2.IH" [OF s(1) refl refl True s(2) c f])
      then show ?thesis unfolding eq using rej steps_from_trans [OF s(3)] by blast
    next
      case False
      then show ?thesis using s by (simp del: layoutOnce.simps)
    qed
  qed (simp del: layoutOnce.simps)
qed simp

section \<open>What a settled section promises\<close>

lemma getFragmentOffset_right:
  assumes "cache_upto (length fs) S fs v" "i < length fs"
  shows "\<exists>w. getFragmentOffset S fs i v = Some (offsets S 0 fs ! i, w)"
  using getFragmentOffset_some [OF assms] assms(2) by metis

text \<open>The distance a reference to a label covers.\<close>

definition distance :: "'o asm_env \<Rightarrow> 'o fragment list \<Rightarrow> nat \<Rightarrow> asm_expr MCFixup \<Rightarrow> nat \<times> u64 \<Rightarrow> u64" where
  "distance S fs j F lab =
    offsets S 0 fs ! fst lab + snd lab + ex_addend (fixup_value F) - (offsets S 0 fs ! j + of_nat (fixup_offset F))"

definition relaxable_fixups :: "MCFixupKind set" where
  "relaxable_fixups = {fixup_riscv_branch, fixup_riscv_rvc_branch, fixup_riscv_rvc_jump}"

text \<open>A local reference is resolved to the distance, unless relocations are kept for the linker.\<close>

lemma section_eval_local:
  assumes "fixup_kind F \<in> relaxable_fixups" "ex_symbol (fixup_value F) = Some (True, s)"
    "env_label S s = Some lab" "env_local S s" "\<not> FeatureRelax (env_sti S)" "\<not> ForceRelocs (env_sti S)"
  shows "section_eval S (offsets S 0 fs) j F = Some (eval_result True (distance S fs j F lab) False)"
proof -
  have "IsPCRel (getFixupKindInfo (fixup_kind F))" "\<not> IsTarget (getFixupKindInfo (fixup_kind F))"
    "\<not> is_literal (fixup_kind F)"
    using assms(1) by (auto simp: relaxable_fixups_def getFixupKindInfo_def pcrel_info_def is_literal_def)
  moreover have "fixup_kind F \<notin> {fixup_riscv_got_hi20, fixup_riscv_tls_got_hi20, fixup_riscv_tls_gd_hi20}"
    "fixup_kind F \<notin> {FK_Data_1, FK_Data_2, FK_Data_4, FK_Data_8, FK_Data_leb128}"
    using assms(1) by (auto simp: relaxable_fixups_def)
  ultimately show ?thesis
    using assms(2-6)
    by (cases lab)
      (simp add: section_eval_def evaluateFixup_def Let_def section_target_def section_view_def pcrel_resolved_def
        shouldForceRelocation_def symbol_part_def distance_def add.commute)
qed

text \<open>A reference to a symbol outside is left to the linker, without being forced.\<close>

lemma section_eval_outside:
  assumes "fixup_kind F \<in> relaxable_fixups" "ex_symbol (fixup_value F) = Some (True, s)"
    "env_label S s = None \<or> \<not> env_local S s"
  shows "\<exists>V. section_eval S offs j F = Some (eval_result False V False)"
proof -
  have "IsPCRel (getFixupKindInfo (fixup_kind F))" "\<not> IsTarget (getFixupKindInfo (fixup_kind F))"
    using assms(1) by (auto simp: relaxable_fixups_def getFixupKindInfo_def pcrel_info_def)
  then show ?thesis
    using assms(2,3)
    by (auto simp: section_eval_def evaluateFixup_def Let_def section_target_def section_view_def pcrel_resolved_def
        split: option.splits)
qed

lemma settled_fixup:
  assumes "settled S fs" "j < length fs" "fs ! j = FT_Relaxable Inst bytes Fixups" "mayNeedRelaxation Inst"
    "F \<in> set Fixups" "section_eval S (offsets S 0 fs) j F = Some r"
  shows "\<not> fixupNeedsRelaxationAdvanced (fixup_kind F) (Resolved r) (FixedValue r) (WasForced r)"
proof -
  have "\<not> needs_relaxation S (offsets S 0 fs) j F" using assms(1-5) by (auto simp: settled_def fragment_needs_def)
  then show ?thesis using assms(6) by (simp add: needs_relaxation_def)
qed

definition reach :: "MCFixupKind \<Rightarrow> int \<times> int" where
  "reach Kind =
    (if Kind = fixup_riscv_branch then (- 4096, 4095)
     else if Kind = fixup_riscv_rvc_branch then (- 256, 254) else (- 2048, 2046))"

lemma not_relaxed_reach:
  assumes "K \<in> relaxable_fixups" "\<not> fixupNeedsRelaxationAdvanced K True V forced"
  shows "fst (reach K) \<le> sint V \<and> sint V \<le> snd (reach K)"
  using assms
  by (auto simp: relaxable_fixups_def fixupNeedsRelaxationAdvanced_def reach_def isInt_iff_aux Let_def)

section \<open>The layout ends\<close>

text \<open>C31: the layout of a section ends: one round more than the instructions can still be relaxed is
  enough fuel, whatever \<open>uncompress\<close> accepts, and each fragment ends as it was or as an encoded relaxed
  form of its instruction. The only assertion that can fail on the way is ``Can't uncompress
  instruction'', and only in a section with a compressed branch that \<open>uncompress\<close> rejects.\<close>
theorem layout_ends:
  assumes "uncompress_law S" "labels_ok S (length fs)" "\<forall>F \<in> set fs. fragment_ok F" "section_rank fs < fuel"
  shows "layout_section fuel S fs [] = Failed \<and> (\<exists>F \<in> set fs. rejected S F) \<or>
    (\<exists>fs' v. layout_section fuel S fs [] = Ended (fs', v) \<and> list_all2 (relax_step S)\<^sup>*\<^sup>* fs fs')"
proof -
  have "section_ok S fs" using assms(1-3) by (simp add: section_ok_def)
  from layout_section_cases [OF this _ assms(4), of "[]"] show ?thesis
    unfolding steps_from_def by auto
qed

text \<open>A section with a compressed branch over an alignment to 512 bytes, for the witnesses; \<open>uncompress\<close>
  rejects \<open>c.jal\<close>, as it does on RV64, and wrong numbers of operands.\<close>

definition ex_encode :: "unit MCInst \<Rightarrow> u8 list \<times> asm_expr MCFixup list" where
  "ex_encode Inst =
    (let ref = (\<lambda>K. \<lparr>fixup_offset = 0, fixup_value = \<lparr>ex_symbol = Some (True, 0), ex_addend = 0\<rparr>, fixup_kind = K\<rparr>) in
     if Opcode Inst = C_BEQZ then ([0x01, 0xc1], [ref fixup_riscv_rvc_branch])
     else if Opcode Inst = BEQ then ([0x63, 0, 0x05, 0], [ref fixup_riscv_branch])
     else ([0, 0, 0, 0], []))"

definition ex_env :: "unit asm_env" where
  "ex_env =
    \<lparr>env_sti = \<lparr>FeatureStdExtC = True, FeatureStdExtZca = False, FeatureRelax = False, ForceRelocs = False\<rparr>,
     useCodeAlign = True, env_label = (\<lambda>s. if s = 0 then Some (2, 0) else None), env_local = (\<lambda>s. True),
     env_uncompress = (\<lambda>Inst. if Opcode Inst \<in> {C_BEQZ, C_BNEZ, C_J} \<and> length (Operands Inst) \<le> 2
       then Some \<lparr>Opcode = getRelaxedOpcode (Opcode Inst), Operands = replicate 3 ()\<rparr> else None),
     encodeInstruction = ex_encode\<rparr>"

definition ex_inst :: "branch_opcode \<Rightarrow> unit MCInst" where
  "ex_inst Op = \<lparr>Opcode = Op, Operands = replicate (if Op = C_BEQZ then 2 else 3) ()\<rparr>"

definition ex_branch :: "branch_opcode \<Rightarrow> unit fragment" where
  "ex_branch Op = (case ex_encode (ex_inst Op) of (bytes, Fixups) \<Rightarrow> FT_Relaxable (ex_inst Op) bytes Fixups)"

definition ex_section :: "branch_opcode \<Rightarrow> unit fragment list" where
  "ex_section Op = [ex_branch Op, FT_Align 512 True 512, FT_Data [0x82, 0x80]]"

lemma ex_section_ok:
  "uncompress_law ex_env" "labels_ok ex_env (length (ex_section C_BEQZ))" "\<forall>F \<in> set (ex_section C_BEQZ). fragment_ok F"
  "section_rank (ex_section C_BEQZ) < 3"
proof -
  show "uncompress_law ex_env" by (auto simp: uncompress_law_def ex_env_def split: if_splits)
  show "labels_ok ex_env (length (ex_section C_BEQZ))" by (auto simp: labels_ok_def ex_env_def ex_section_def)
  have b: "ex_branch C_BEQZ = FT_Relaxable (ex_inst C_BEQZ) (fst (ex_encode (ex_inst C_BEQZ))) (snd (ex_encode (ex_inst C_BEQZ)))"
    by (simp add: ex_branch_def split_beta)
  show "\<forall>F \<in> set (ex_section C_BEQZ). fragment_ok F" "section_rank (ex_section C_BEQZ) < 3"
    by (simp_all add: ex_section_def b inst_ok_def ex_inst_def section_rank_def relax_rank_def)
qed

lemma ex_layout: "layout_section 3 ex_env (ex_section C_BEQZ) [] = Ended (ex_section BEQ, [0, 4, 512])"
  by code_simp

lemma layout_ends_witness:
  "list_all2 (relax_step ex_env)\<^sup>*\<^sup>* (ex_section C_BEQZ) (ex_section BEQ)"
  using layout_ends [OF ex_section_ok] by (auto simp: ex_layout)

text \<open>C32: with neither linker relaxation nor forced relocations, once the layout has ended, every branch that could still be relaxed to a label of the section
  reaches it at the offsets the writer will use, and none of the compressed branches is left to a
  symbol outside, which the linker could not lengthen.\<close>
theorem layout_settled:
  assumes "uncompress_law S" "labels_ok S (length fs)" "\<forall>F \<in> set fs. fragment_ok F" "section_rank fs < fuel"
    "layout_section fuel S fs [] = Ended (fs', v)" "\<not> FeatureRelax (env_sti S)" "\<not> ForceRelocs (env_sti S)"
    "j < length fs'" "fs' ! j = FT_Relaxable Inst bytes Fixups" "mayNeedRelaxation Inst"
    "F \<in> set Fixups" "fixup_kind F \<in> relaxable_fixups" "ex_symbol (fixup_value F) = Some (True, s)"
  shows "\<exists>w. getFragmentOffset S fs' j v = Some (offsets S 0 fs' ! j, w) \<and>
    (case env_label S s of
       Some lab \<Rightarrow>
         if env_local S s
         then fst (reach (fixup_kind F)) \<le> sint (distance S fs' j F lab) \<and>
           sint (distance S fs' j F lab) \<le> snd (reach (fixup_kind F))
         else fixup_kind F = fixup_riscv_branch
     | None \<Rightarrow> fixup_kind F = fixup_riscv_branch)"
proof -
  have "section_ok S fs" using assms(1-3) by (simp add: section_ok_def)
  from layout_section_cases [OF this _ assms(4), of "[]"] assms(5)
  have l: "cache_upto (length fs') S fs' v" "settled S fs'" by simp_all
  note sf = settled_fixup [OF l(2) assms(8-11)]
  obtain w where w: "getFragmentOffset S fs' j v = Some (offsets S 0 fs' ! j, w)"
    using getFragmentOffset_right [OF l(1) assms(8)] by blast
  show ?thesis
  proof (cases "env_label S s \<noteq> None \<and> env_local S s")
    case True
    then obtain lab where lab: "env_label S s = Some lab" "env_local S s" by auto
    from sf [OF section_eval_local [OF assms(12,13) lab assms(6,7)]]
    have "fst (reach (fixup_kind F)) \<le> sint (distance S fs' j F lab) \<and> sint (distance S fs' j F lab) \<le> snd (reach (fixup_kind F))"
      by (intro not_relaxed_reach [OF assms(12)]) (simp add: eval_result_def)
    then show ?thesis using w lab by simp
  next
    case False
    then have "env_label S s = None \<or> \<not> env_local S s" by blast
    from section_eval_outside [OF assms(12,13) this, of "offsets S 0 fs'" j]
    obtain V where "section_eval S (offsets S 0 fs') j F = Some (eval_result False V False)" by blast
    from sf [OF this] have "fixup_kind F = fixup_riscv_branch"
      by (simp add: eval_result_def fixupNeedsRelaxationAdvanced_def Let_def split: if_splits)
    then show ?thesis using w False by (auto split: option.splits)
  qed
qed

lemma layout_settled_witness:
  "\<exists>w. getFragmentOffset ex_env (ex_section BEQ) 0 [0, 4, 512] = Some (0, w) \<and>
    - 4096 \<le> sint (512 :: u64) \<and> sint (512 :: u64) \<le> 4095"
proof -
  obtain bytes F where f: "ex_section BEQ ! 0 = FT_Relaxable (ex_inst BEQ) bytes [F]"
    "F = \<lparr>fixup_offset = 0, fixup_value = \<lparr>ex_symbol = Some (True, 0), ex_addend = 0\<rparr>, fixup_kind = fixup_riscv_branch\<rparr>"
    by (simp add: ex_section_def ex_branch_def ex_encode_def ex_inst_def)
  have o': "offsets ex_env 0 (ex_section BEQ) = [0, 4, 512]" by code_simp
  have d: "distance ex_env (ex_section BEQ) 0 F (2, 0) = 512"
    by (simp add: distance_def o' f(2))
  have e: "\<not> FeatureRelax (env_sti ex_env)" "\<not> ForceRelocs (env_sti ex_env)" "0 < length (ex_section BEQ)"
    "mayNeedRelaxation (ex_inst BEQ)" "F \<in> set [F]" "fixup_kind F \<in> relaxable_fixups"
    "ex_symbol (fixup_value F) = Some (True, 0)"
    by (simp_all add: ex_env_def ex_section_def mayNeedRelaxation_def ex_inst_def getRelaxedOpcode_def f(2) relaxable_fixups_def)
  have l: "env_label ex_env 0 = Some (2, 0)" "env_local ex_env 0" by (simp_all add: ex_env_def)
  show ?thesis
    using layout_settled [OF ex_section_ok ex_layout e(1-3) f(1) e(4-7)]
    by (simp add: l d o' reach_def f(2))
qed

section \<open>LEB128 values\<close>

lemma encodeULEB128_loop_repad:
  "encodeULEB128_loop v c pad = (bs, n) \<Longrightarrow> pad \<le> n \<Longrightarrow> pad' \<le> n \<Longrightarrow> encodeULEB128_loop v c pad' = (bs, n)"
proof (induction v c pad arbitrary: bs n rule: encodeULEB128_loop.induct)
  case (1 v c pad)
  show ?case
  proof (cases "drop_bit 7 v = 0")
    case True
    then show ?thesis using "1.prems" by (auto simp: encodeULEB128_loop.simps [of v] Let_def)
  next
    case False
    obtain bs' n' where rec: "encodeULEB128_loop (drop_bit 7 v) (Suc c) pad = (bs', n')" by fastforce
    have n: "n' = n" using "1.prems"(1) False rec by (auto simp: encodeULEB128_loop.simps [of v] Let_def)
    have "encodeULEB128_loop (drop_bit 7 v) (Suc c) pad' = (bs', n')"
      by (rule "1.IH" [OF refl refl refl]) (use False rec "1.prems"(2,3) n in simp_all)
    then show ?thesis using "1.prems"(1) False rec by (simp add: encodeULEB128_loop.simps [of v] Let_def)
  qed
qed

lemma encodeSLEB128_loop_repad:
  "encodeSLEB128_loop v c pad = (bs, n, w) \<Longrightarrow> pad \<le> n \<Longrightarrow> pad' \<le> n \<Longrightarrow> encodeSLEB128_loop v c pad' = (bs, n, w)"
proof (induction v c pad arbitrary: bs n w rule: encodeSLEB128_loop.induct)
  case (1 v c pad)
  show ?case
  proof (cases "sext_more v")
    case False
    then show ?thesis using "1.prems" by (auto simp: encodeSLEB128_loop_unfold [of v] Let_def)
  next
    case True
    obtain bs' n' w' where rec: "encodeSLEB128_loop (signed_drop_bit 7 v) (Suc c) pad = (bs', n', w')"
      using prod_cases3 by blast
    have n: "n' = n" using "1.prems"(1) True rec by (auto simp: encodeSLEB128_loop_unfold [of v] Let_def)
    have "encodeSLEB128_loop (signed_drop_bit 7 v) (Suc c) pad' = (bs', n', w')"
      by (rule "1.IH" [OF refl refl refl refl])
        (use True rec "1.prems"(2,3) n in \<open>simp_all add: septet_sign sext_more_def\<close>)
    then show ?thesis using "1.prems"(1) True rec by (simp add: encodeSLEB128_loop_unfold [of v] Let_def)
  qed
qed

text \<open>A padded encoding is at least as long as the padding, and its own length is padding enough.\<close>

lemma encodeULEB128_padded:
  "pad \<le> length (fst (encodeULEB128 v pad))" "length (fst (encodeULEB128 v pad)) \<le> max pad 10"
  "fst (encodeULEB128 v (length (fst (encodeULEB128 v pad)))) = fst (encodeULEB128 v pad)"
proof -
  obtain bs n where e: "encodeULEB128_loop v 0 pad = (bs, n)" by fastforce
  note len = encodeULEB128_loop_length [OF e]
  have c: "length (fst (encodeULEB128 v pad)) = max pad n" using len e by (auto simp: encodeULEB128_def)
  then show "pad \<le> length (fst (encodeULEB128 v pad))" "length (fst (encodeULEB128 v pad)) \<le> max pad 10"
    using len(3) by simp_all
  show "fst (encodeULEB128 v (length (fst (encodeULEB128 v pad)))) = fst (encodeULEB128 v pad)"
  proof (cases "n < pad")
    case False
    then show ?thesis using encodeULEB128_loop_repad [OF e, of n] e len(1)
      by (simp add: encodeULEB128_def)
  qed (simp add: c max_def)
qed

lemma encodeSLEB128_padded:
  "pad \<le> length (fst (encodeSLEB128 v pad))" "length (fst (encodeSLEB128 v pad)) \<le> max pad 10"
  "fst (encodeSLEB128 v (length (fst (encodeSLEB128 v pad)))) = fst (encodeSLEB128 v pad)"
proof -
  obtain bs n w where e: "encodeSLEB128_loop v 0 pad = (bs, n, w)" using prod_cases3 by blast
  note len = encodeSLEB128_loop_length [OF e]
  have c: "length (fst (encodeSLEB128 v pad)) = max pad n" using len e by (auto simp: encodeSLEB128_def Let_def)
  then show "pad \<le> length (fst (encodeSLEB128 v pad))" "length (fst (encodeSLEB128 v pad)) \<le> max pad 10"
    using len(2) by simp_all
  show "fst (encodeSLEB128 v (length (fst (encodeSLEB128 v pad)))) = fst (encodeSLEB128 v pad)"
  proof (cases "n < pad")
    case False
    then show ?thesis using encodeSLEB128_loop_repad [OF e, of n] e len(1)
      by (simp add: encodeSLEB128_def)
  qed (simp add: c max_def)
qed

text \<open>The value a LEB128 fragment encodes: of the second evaluation where the first finds the expression
  not absolute and the value is unsigned.\<close>

definition leb_encoded :: "('e \<Rightarrow> bool \<times> u64) \<Rightarrow> ('e \<Rightarrow> bool \<times> u64) \<Rightarrow> 'e MCLEBFragment \<Rightarrow> u64" where
  "leb_encoded evalAbsolute evalKnown LF =
    (if fst (evaluateAsAbsolute evalAbsolute (LEBValue LF)) \<or> LEBSigned LF
     then snd (evaluateAsAbsolute evalAbsolute (LEBValue LF)) else snd (evaluateAsAbsolute evalKnown (LEBValue LF)))"

definition leb_pad :: "bool \<Rightarrow> u64 \<Rightarrow> nat \<Rightarrow> nat" where
  "leb_pad Abs v n = (if Abs then n else max n (length (fst (encodeULEB128 v 0))))"

definition leb_bytes :: "bool \<Rightarrow> u64 \<Rightarrow> nat \<Rightarrow> u8 list" where
  "leb_bytes isSigned v pad = (if isSigned then fst (encodeSLEB128 v pad) else fst (encodeULEB128 v pad))"

lemma relaxLEB_eq:
  "relaxLEB ULEB128Reloc evalAbsolute evalKnown LF =
    (let Abs = fst (evaluateAsAbsolute evalAbsolute (LEBValue LF));
         v = leb_encoded evalAbsolute evalKnown LF;
         err = (\<not> Abs \<and> (LEBSigned LF \<or> \<not> fst (evaluateAsAbsolute evalKnown (LEBValue LF))));
         Data = leb_bytes (LEBSigned LF) v (leb_pad Abs v (length (LEBContents LF)))
     in (LF\<lparr>LEBValue := (if err then MCConstantExpr 0 else LEBValue LF), LEBContents := Data,
           LEBFixups := (if Abs \<or> LEBSigned LF \<or> \<not> ULEB128Reloc then []
             else [\<lparr>fixup_offset = 0, fixup_value = LEBValue LF, fixup_kind = FK_Data_leb128\<rparr>])\<rparr>,
         length (LEBContents LF) \<noteq> length Data, err))"
  by (cases "evaluateAsAbsolute evalAbsolute (LEBValue LF)"; cases "evaluateAsAbsolute evalKnown (LEBValue LF)")
    (simp add: relaxLEB_def relaxLEB128_def leb_encoded_def leb_pad_def leb_bytes_def encodeULEB128_buf_0 Let_def)

lemma leb_bytes_padded:
  assumes "pad \<le> 10"
  shows "pad \<le> length (leb_bytes sg v pad)" "length (leb_bytes sg v pad) \<le> 10"
    "leb_bytes sg v (length (leb_bytes sg v pad)) = leb_bytes sg v pad"
    "(if sg then decodeSLEB128 (leb_bytes sg v pad) else decodeULEB128 (leb_bytes sg v pad)) =
      Decoded v (length (leb_bytes sg v pad))"
  using encodeULEB128_padded [where pad = pad and v = v] encodeSLEB128_padded [where pad = pad and v = v] assms
    decodeULEB128_encoded [OF assms, of v "[]"] decodeSLEB128_encoded [OF assms, of v "[]"]
  by (simp_all add: leb_bytes_def)

text \<open>Zero fills any number of bytes.\<close>

lemma leb_bytes_0: "1 \<le> pad \<Longrightarrow> length (leb_bytes sg 0 pad) = pad"
  by (auto simp: leb_bytes_def encodeULEB128_def encodeSLEB128_def encodeULEB128_loop.simps [of 0]
      encodeSLEB128_loop_unfold [of 0] sext_more_def Let_def)

text \<open>C33: relaxing a LEB128 fragment of one to ten bytes never shrinks it and never makes it longer than
  ten bytes, its bytes decode to the value the expression was evaluated to and nothing else, and growth
  is what is reported. Without an error, a second round at the same layout changes nothing. After the
  error that the expression is not absolute, the value of the fragment is the constant 0: the second
  round writes it in the same number of bytes and reports no error.\<close>
theorem relaxLEB_stable:
  assumes "relaxLEB ULEB128Reloc evalAbsolute evalKnown LF = (LF', changed, err)"
    "LEBContents LF \<noteq> []" "length (LEBContents LF) \<le> 10"
  shows "length (LEBContents LF) \<le> length (LEBContents LF') \<and> length (LEBContents LF') \<le> 10 \<and>
    (changed \<longleftrightarrow> length (LEBContents LF) < length (LEBContents LF')) \<and>
    (if LEBSigned LF then decodeSLEB128 (LEBContents LF') else decodeULEB128 (LEBContents LF')) =
      Decoded (leb_encoded evalAbsolute evalKnown LF) (length (LEBContents LF')) \<and>
    (if err
     then LEBValue LF' = MCConstantExpr 0 \<and>
       (\<exists>LF''. relaxLEB ULEB128Reloc evalAbsolute evalKnown LF' = (LF'', False, False) \<and>
         length (LEBContents LF'') = length (LEBContents LF') \<and> LEBFixups LF'' = [] \<and>
         (if LEBSigned LF then decodeSLEB128 (LEBContents LF'') else decodeULEB128 (LEBContents LF'')) =
           Decoded 0 (length (LEBContents LF'')))
     else relaxLEB ULEB128Reloc evalAbsolute evalKnown LF' = (LF', False, False))"
proof -
  define A where "A = fst (evaluateAsAbsolute evalAbsolute (LEBValue LF))"
  define v where "v = leb_encoded evalAbsolute evalKnown LF"
  define p where "p = leb_pad A v (length (LEBContents LF))"
  define D where "D = leb_bytes (LEBSigned LF) v p"
  have LF': "LEBContents LF' = D" "LEBSigned LF' = LEBSigned LF" "changed \<longleftrightarrow> length (LEBContents LF) \<noteq> length D"
    "LEBValue LF' = (if err then MCConstantExpr 0 else LEBValue LF)"
    using assms(1) by (auto simp: relaxLEB_eq Let_def A_def v_def p_def D_def)
  have p: "length (LEBContents LF) \<le> p" "p \<le> 10"
    using assms(3) encodeULEB128_padded(2) [of v 0] by (simp_all add: p_def leb_pad_def)
  note D = leb_bytes_padded [OF p(2), of "LEBSigned LF" v, folded D_def]
  have second: "relaxLEB ULEB128Reloc evalAbsolute evalKnown LF' = (LF', False, False)" if "\<not> err"
  proof -
    have "leb_pad A v (length D) = length D" using D(1) by (auto simp: p_def leb_pad_def split: if_splits)
    moreover have "leb_encoded evalAbsolute evalKnown LF' = v" using LF'(2,4) that by (simp add: leb_encoded_def v_def)
    ultimately show ?thesis
      using assms(1) that D(3) by (auto simp: relaxLEB_eq Let_def A_def [symmetric] v_def [symmetric] p_def [symmetric] D_def [symmetric])
  qed
  have zero: "\<exists>LF''. relaxLEB ULEB128Reloc evalAbsolute evalKnown LF' = (LF'', False, False) \<and>
      LEBContents LF'' = leb_bytes (LEBSigned LF) 0 (length D) \<and> LEBFixups LF'' = []" if err
  proof -
    have "1 \<le> length D" using p(1) D(1) assms(2) by (cases "LEBContents LF") simp_all
    then have "length (leb_bytes (LEBSigned LF) 0 (length D)) = length D" by (rule leb_bytes_0)
    then show ?thesis
      using LF' that by (simp add: relaxLEB_eq Let_def evaluateAsAbsolute_def leb_encoded_def leb_pad_def)
  qed
  have "1 \<le> length D" using p(1) D(1) assms(2) by (cases "LEBContents LF") simp_all
  note Z = leb_bytes_0 [OF this, of "LEBSigned LF"] leb_bytes_padded(4) [OF D(2), of "LEBSigned LF" 0]
  show ?thesis
    using p(1) D(1,2,4) LF' second zero Z unfolding v_def [symmetric] by auto
qed

lemma relaxLEB_stable_witness:
  "relaxLEB True (\<lambda>e. (False, 5)) (\<lambda>e. (e, 300)) \<lparr>LEBSigned = False, LEBValue = MCOtherExpr False, LEBContents = [0], LEBFixups = []\<rparr> =
     (\<lparr>LEBSigned = False, LEBValue = MCConstantExpr 0, LEBContents = [0xac, 0x02],
       LEBFixups = [\<lparr>fixup_offset = 0, fixup_value = MCOtherExpr False, fixup_kind = FK_Data_leb128\<rparr>]\<rparr>, True, True) \<and>
   decodeULEB128 [0xac, 0x02] = Decoded 300 2"
proof -
  let ?F = "\<lparr>LEBSigned = False, LEBValue = MCOtherExpr False, LEBContents = [0], LEBFixups = []\<rparr>"
  have 1: "relaxLEB True (\<lambda>e. (False, 5)) (\<lambda>e. (e, 300)) ?F =
     (\<lparr>LEBSigned = False, LEBValue = MCConstantExpr 0, LEBContents = [0xac, 0x02],
       LEBFixups = [\<lparr>fixup_offset = 0, fixup_value = MCOtherExpr False, fixup_kind = FK_Data_leb128\<rparr>]\<rparr>, True, True)"
    by code_simp
  show ?thesis using relaxLEB_stable [OF 1] 1 by (simp add: leb_encoded_def evaluateAsAbsolute_def)
qed

end
