(* ===== verification/StringSearch.thy ===== *)
theory StringSearch
  imports Strings "HOL-Library.Monad_Syntax"
begin

text \<open>
  Searching, splitting, comparing and reading strings: the rest of \<open>llvm/lib/Support/StringRef.cpp\<close> and
  the inline operations of \<open>llvm/ADT/StringRef.h\<close> it goes with, and the edit distance of
  \<open>llvm/ADT/edit_distance.h\<close>.

  A position is a natural number and \<open>npos\<close> is \<open>None\<close>. Where a loop is not bounded by its form, the
  outer \<open>option\<close> of the result tells whether it returns at all, and without undefined behaviour. Assertions are those of a build without
  them: \<open>drop_front\<close> clamps.
\<close>

section \<open>Substrings and case\<close>

definition substr :: "string \<Rightarrow> nat \<Rightarrow> nat option \<Rightarrow> string" where
  "substr s Start N =
    (let Start' = min Start (length s);
         N' = (case N of None \<Rightarrow> length s - Start' | Some n \<Rightarrow> min n (length s - Start'))
     in take N' (drop Start' s))"

definition slice :: "string \<Rightarrow> nat \<Rightarrow> nat option \<Rightarrow> string" where
  "slice s Start End =
    (let Start' = min Start (length s);
         End' = (case End of None \<Rightarrow> length s | Some e \<Rightarrow> min (max e Start') (length s))
     in take (End' - Start') (drop Start' s))"

definition toLower :: "char \<Rightarrow> char" where
  "toLower x =
    (if CHR ''A'' \<le> x \<and> x \<le> CHR ''Z'' then char_of (char_code x - char_code (CHR ''A'') + char_code (CHR ''a'')) else x)"

definition toUpper :: "char \<Rightarrow> char" where
  "toUpper x =
    (if CHR ''a'' \<le> x \<and> x \<le> CHR ''z'' then char_of (char_code x - char_code (CHR ''a'') + char_code (CHR ''A'')) else x)"

definition lower :: "string \<Rightarrow> string" where "lower s = map toLower s"

definition upper :: "string \<Rightarrow> string" where "upper s = map toUpper s"

section \<open>Comparing\<close>

text \<open>\<open>compareMemory\<close> and \<open>ascii_strncasecmp\<close> on the first bytes of two strings; only the sign counts.\<close>

fun compareMemory :: "string \<Rightarrow> string \<Rightarrow> nat \<Rightarrow> int" where
  "compareMemory (a # as) (b # bs) (Suc n) = (if a < b then - 1 else if b < a then 1 else compareMemory as bs n)"
| "compareMemory _ _ _ = 0"

fun ascii_strncasecmp :: "string \<Rightarrow> string \<Rightarrow> nat \<Rightarrow> int" where
  "ascii_strncasecmp (a # as) (b # bs) (Suc n) =
    (let LHC = toLower a; RHC = toLower b in
     if LHC \<noteq> RHC then if LHC < RHC then - 1 else 1 else ascii_strncasecmp as bs n)"
| "ascii_strncasecmp _ _ _ = 0"

definition by_length :: "string \<Rightarrow> string \<Rightarrow> int" where
  "by_length s RHS = (if length s = length RHS then 0 else if length s < length RHS then - 1 else 1)"

definition compare_str :: "string \<Rightarrow> string \<Rightarrow> int" where
  "compare_str s RHS =
    (let Res = compareMemory s RHS (min (length s) (length RHS)) in
     if Res \<noteq> 0 then if Res < 0 then - 1 else 1 else by_length s RHS)"

definition compare_insensitive :: "string \<Rightarrow> string \<Rightarrow> int" where
  "compare_insensitive s RHS =
    (let Res = ascii_strncasecmp s RHS (min (length s) (length RHS)) in
     if Res \<noteq> 0 then Res else by_length s RHS)"

definition equals_insensitive :: "string \<Rightarrow> string \<Rightarrow> bool" where
  "equals_insensitive s RHS \<longleftrightarrow> length s = length RHS \<and> compare_insensitive s RHS = 0"

definition starts_with_insensitive :: "string \<Rightarrow> string \<Rightarrow> bool" where
  "starts_with_insensitive s Prefix \<longleftrightarrow> length s \<ge> length Prefix \<and> ascii_strncasecmp s Prefix (length Prefix) = 0"

definition ends_with_insensitive :: "string \<Rightarrow> string \<Rightarrow> bool" where
  "ends_with_insensitive s Suffix \<longleftrightarrow>
    length s \<ge> length Suffix \<and> ascii_strncasecmp (drop (length s - length Suffix) s) Suffix (length Suffix) = 0"

definition consume_front_insensitive :: "string \<Rightarrow> string \<Rightarrow> bool \<times> string" where
  "consume_front_insensitive s Prefix =
    (if \<not> starts_with_insensitive s Prefix then (False, s) else (True, substr s (length Prefix) None))"

definition consume_back_insensitive :: "string \<Rightarrow> string \<Rightarrow> bool \<times> string" where
  "consume_back_insensitive s Suffix =
    (if \<not> ends_with_insensitive s Suffix then (False, s) else (True, substr s 0 (Some (length s - length Suffix))))"

text \<open>\<open>compare_numeric\<close>: the inner loop finds the end of two runs of digits of the same length, or that one
  run is longer; the outer loop goes on behind equal runs. The inner loop stops at the end of the
  shorter string at the latest.\<close>

function digit_run :: "string \<Rightarrow> string \<Rightarrow> nat \<Rightarrow> nat \<Rightarrow> int + nat" where
  "digit_run s RHS E J =
    (if J \<ge> E + 1 then Inr J
     else
       let ld = (J < length s \<and> isDigit (s ! J)); rd = (J < length RHS \<and> isDigit (RHS ! J)) in
       if ld \<noteq> rd then Inl (if rd then - 1 else 1)
       else if \<not> rd then Inr J
       else digit_run s RHS E (J + 1))"
  by pat_completeness auto
termination
  by (relation "measure (\<lambda>(s, RHS, E, J). E + 1 - J)") auto

declare digit_run.simps [simp del]

lemma digit_run_forward: "digit_run s RHS E J = Inr K \<Longrightarrow> J \<le> K"
proof (induction "E + 1 - J" arbitrary: J)
  case (Suc n)
  have "K = J \<or> digit_run s RHS E (J + 1) = Inr K"
    using Suc.prems by (subst (asm) digit_run.simps) (simp add: Let_def split: if_splits)
  moreover have "n = E + 1 - (J + 1)" using Suc.hyps(2) by simp
  ultimately show ?case using Suc.hyps(1) [of "J + 1"] by auto
qed (simp add: digit_run.simps)

function numeric_loop :: "string \<Rightarrow> string \<Rightarrow> nat \<Rightarrow> nat \<Rightarrow> int" where
  "numeric_loop s RHS E I =
    (if I \<ge> E then by_length s RHS
     else if isDigit (s ! I) \<and> isDigit (RHS ! I) then
       (case digit_run s RHS E (I + 1) of
          Inl r \<Rightarrow> r
        | Inr J \<Rightarrow>
            let Res = compareMemory (drop I s) (drop I RHS) (J - I) in
            if Res \<noteq> 0 then if Res < 0 then - 1 else 1 else numeric_loop s RHS E J)
     else if s ! I \<noteq> RHS ! I then if s ! I < RHS ! I then - 1 else 1
     else numeric_loop s RHS E (I + 1))"
  by pat_completeness auto
termination
  by (relation "measure (\<lambda>(s, RHS, E, I). E - I)") (auto dest: digit_run_forward)

declare numeric_loop.simps [simp del]

definition compare_numeric :: "string \<Rightarrow> string \<Rightarrow> int" where
  "compare_numeric s RHS = numeric_loop s RHS (min (length s) (length RHS)) 0"

section \<open>Searching for a character\<close>

fun find_if_loop :: "(char \<Rightarrow> bool) \<Rightarrow> string \<Rightarrow> nat \<Rightarrow> nat option" where
  "find_if_loop F [] i = None"
| "find_if_loop F (c # S) i = (if F c then Some i else find_if_loop F S (Suc i))"

definition find_if :: "string \<Rightarrow> (char \<Rightarrow> bool) \<Rightarrow> nat \<Rightarrow> nat option" where
  "find_if s F From = find_if_loop F (drop From s) (min From (length s))"

definition find_if_not :: "string \<Rightarrow> (char \<Rightarrow> bool) \<Rightarrow> nat \<Rightarrow> nat option" where
  "find_if_not s F From = find_if s (\<lambda>c. \<not> F c) From"

definition find_char :: "string \<Rightarrow> char \<Rightarrow> nat \<Rightarrow> nat option" where
  "find_char s C From = find_if s (\<lambda>D. D = C) From"

definition find_char_insensitive :: "string \<Rightarrow> char \<Rightarrow> nat \<Rightarrow> nat option" where
  "find_char_insensitive s C From = (let L = toLower C in find_if s (\<lambda>D. toLower D = L) From)"

text \<open>The sets of characters are bit sets of 256 bits.\<close>

definition CharBits :: "string \<Rightarrow> bool list" where
  "CharBits Chars = fold (\<lambda>C bits. bits[char_code C := True]) Chars (replicate 256 False)"

definition find_first_of :: "string \<Rightarrow> string \<Rightarrow> nat \<Rightarrow> nat option" where
  "find_first_of s Chars From = (let bits = CharBits Chars in find_if s (\<lambda>D. bits ! char_code D) From)"

definition find_first_not_of :: "string \<Rightarrow> string \<Rightarrow> nat \<Rightarrow> nat option" where
  "find_first_not_of s Chars From = (let bits = CharBits Chars in find_if s (\<lambda>D. \<not> bits ! char_code D) From)"

text \<open>The loops from the back: the position below \<open>From\<close>, going down.\<close>

fun rfind_loop :: "(char \<Rightarrow> bool) \<Rightarrow> string \<Rightarrow> nat \<Rightarrow> nat option" where
  "rfind_loop F s 0 = None"
| "rfind_loop F s (Suc i) = (if F (s ! i) then Some i else rfind_loop F s i)"

definition rfind_char :: "string \<Rightarrow> char \<Rightarrow> nat \<Rightarrow> nat option" where
  "rfind_char s C From = rfind_loop (\<lambda>D. D = C) s (min From (length s))"

definition rfind_char_insensitive :: "string \<Rightarrow> char \<Rightarrow> nat \<Rightarrow> nat option" where
  "rfind_char_insensitive s C From = rfind_loop (\<lambda>D. toLower D = toLower C) s (min From (length s))"

definition find_last_of :: "string \<Rightarrow> string \<Rightarrow> nat \<Rightarrow> nat option" where
  "find_last_of s Chars From = (let bits = CharBits Chars in rfind_loop (\<lambda>D. bits ! char_code D) s (min From (length s)))"

definition find_last_not_of :: "string \<Rightarrow> string \<Rightarrow> nat \<Rightarrow> nat option" where
  "find_last_not_of s Chars From = (let bits = CharBits Chars in rfind_loop (\<lambda>D. \<not> bits ! char_code D) s (min From (length s)))"

definition find_last_not_of_char :: "string \<Rightarrow> char \<Rightarrow> nat \<Rightarrow> nat option" where
  "find_last_not_of_char s C From = rfind_loop (\<lambda>D. D \<noteq> C) s (min From (length s))"

definition ltrim :: "string \<Rightarrow> string \<Rightarrow> string" where
  "ltrim s Chars = drop (case find_first_not_of s Chars 0 of None \<Rightarrow> length s | Some i \<Rightarrow> min (length s) i) s"

text \<open>\<open>npos + 1\<close> is 0.\<close>

definition rtrim :: "string \<Rightarrow> string \<Rightarrow> string" where
  "rtrim s Chars =
    (let i = (case find_last_not_of s Chars (length s) of None \<Rightarrow> 0 | Some i \<Rightarrow> i + 1)
     in substr s 0 (Some (length s - (length s - min (length s) i))))"

definition trim :: "string \<Rightarrow> string \<Rightarrow> string" where
  "trim s Chars = rtrim (ltrim s Chars) Chars"

section \<open>Searching for a string\<close>

function naive_find :: "string \<Rightarrow> string \<Rightarrow> nat \<Rightarrow> nat \<Rightarrow> nat option" where
  "naive_find s Needle Start Stop =
    (if take (length Needle) (drop Start s) = Needle then Some Start
     else if Start + 1 < Stop then naive_find s Needle (Start + 1) Stop
     else None)"
  by pat_completeness auto
termination
  by (relation "measure (\<lambda>(s, Needle, Start, Stop). Stop - Start)") auto

declare naive_find.simps [simp del]

text \<open>The table of skips: bytes, filled from the left.\<close>

definition BadCharSkip :: "string \<Rightarrow> u8 list" where
  "BadCharSkip Str =
    (let N = length Str in
     fold (\<lambda>i T. T[char_code (Str ! i) := of_nat (N - 1 - i)]) [0..<N - 1] (replicate 256 (of_nat N)))"

partial_function (option) skip_find ::
  "u8 list \<Rightarrow> string \<Rightarrow> string \<Rightarrow> nat \<Rightarrow> nat \<Rightarrow> nat option option" where
  "skip_find T s Needle Start Stop =
    (let N = length Needle; Last = s ! (Start + (N - 1)) in
     if Last = Needle ! (N - 1) \<and> take (N - 1) (drop Start s) = take (N - 1) Needle then Some (Some Start)
     else
       let Start' = Start + unat (T ! char_code Last) in
       if Start' < Stop then skip_find T s Needle Start' Stop else Some None)"

definition find_str :: "string \<Rightarrow> string \<Rightarrow> nat \<Rightarrow> nat option option" where
  "find_str s Str From =
    (if From > length s then Some None
     else
       let Size = length s - From; N = length Str in
       if N = 0 then Some (Some From)
       else if Size < N then Some None
       else if N = 1 then Some (find_char s (Str ! 0) From)
       else
         let Stop = From + (Size - N + 1) in
         if N = 2 then Some (naive_find s Str From Stop)
         else if Size < 16 \<or> N > 255 then Some (naive_find s Str From Stop)
         else skip_find (BadCharSkip Str) s Str From Stop)"

definition contains :: "string \<Rightarrow> string \<Rightarrow> bool option" where
  "contains s Other = map_option (\<lambda>r. r \<noteq> None) (find_str s Other 0)"

text \<open>The case-insensitive search tries every suffix.\<close>

function find_insensitive_loop :: "string \<Rightarrow> string \<Rightarrow> nat \<Rightarrow> nat option" where
  "find_insensitive_loop Str This From =
    (if length This \<ge> length Str then
       if starts_with_insensitive This Str then Some From
       else find_insensitive_loop Str (drop 1 This) (From + 1)
     else None)"
  by pat_completeness auto
termination
  by (relation "measure (\<lambda>(Str, This, From). length This)")
    (auto simp: starts_with_insensitive_def neq_Nil_conv intro!: diff_less)

declare find_insensitive_loop.simps [simp del]

definition find_insensitive :: "string \<Rightarrow> string \<Rightarrow> nat \<Rightarrow> nat option" where
  "find_insensitive s Str From = find_insensitive_loop Str (substr s From None) From"

fun rfind_insensitive_loop :: "string \<Rightarrow> string \<Rightarrow> nat \<Rightarrow> nat option" where
  "rfind_insensitive_loop s Str 0 = None"
| "rfind_insensitive_loop s Str (Suc i) =
    (if equals_insensitive (substr s i (Some (length Str))) Str then Some i else rfind_insensitive_loop s Str i)"

definition rfind_insensitive :: "string \<Rightarrow> string \<Rightarrow> nat option" where
  "rfind_insensitive s Str =
    (if length Str > length s then None else rfind_insensitive_loop s Str (length s - length Str + 1))"

partial_function (option) count_loop :: "string \<Rightarrow> string \<Rightarrow> nat \<Rightarrow> nat \<Rightarrow> nat option" where
  "count_loop s Str Pos Count =
    do { r \<leftarrow> find_str s Str Pos;
         case r of None \<Rightarrow> Some Count | Some Pos' \<Rightarrow> count_loop s Str (Pos' + length Str) (Count + 1) }"

definition count_str :: "string \<Rightarrow> string \<Rightarrow> nat option" where
  "count_str s Str = (if length Str = 0 then Some 0 else count_loop s Str 0 0)"

section \<open>Splitting\<close>

definition split_once :: "string \<Rightarrow> string \<Rightarrow> (string \<times> string) option" where
  "split_once s Separator =
    map_option (\<lambda>r. case r of None \<Rightarrow> (s, []) | Some Idx \<Rightarrow> (slice s 0 (Some Idx), slice s (Idx + length Separator) None))
      (find_str s Separator 0)"

text \<open>The loop of both overloads of \<open>split\<close>, for a search and the length of the separator. The count is
  an \<open>int\<close> of 32 bits that is decremented at every test; decrementing the least one is undefined.\<close>

partial_function (option) split_loop ::
  "(string \<Rightarrow> nat option option) \<Rightarrow> nat \<Rightarrow> bool \<Rightarrow> u32 \<Rightarrow> string \<Rightarrow> string list \<Rightarrow> string list option" where
  "split_loop search w KeepEmpty MaxSplit S A =
    (let tail = A @ (if KeepEmpty \<or> S \<noteq> [] then [S] else []) in
     if sint MaxSplit = - (2 ^ 31) then None
     else if MaxSplit = 0 then Some tail
     else
       do { r \<leftarrow> search S;
            case r of
              None \<Rightarrow> Some tail
            | Some Idx \<Rightarrow>
                split_loop search w KeepEmpty (MaxSplit - 1) (slice S (Idx + w) None)
                  (A @ (if KeepEmpty \<or> Idx > 0 then [slice S 0 (Some Idx)] else [])) })"

definition split_str :: "string \<Rightarrow> string \<Rightarrow> u32 \<Rightarrow> bool \<Rightarrow> string list option" where
  "split_str s Separator MaxSplit KeepEmpty =
    split_loop (\<lambda>S. find_str S Separator 0) (length Separator) KeepEmpty MaxSplit s []"

definition split_char :: "string \<Rightarrow> char \<Rightarrow> u32 \<Rightarrow> bool \<Rightarrow> string list option" where
  "split_char s Separator MaxSplit KeepEmpty =
    split_loop (\<lambda>S. Some (find_char S Separator 0)) 1 KeepEmpty MaxSplit s []"

definition detectEOL :: "string \<Rightarrow> string" where
  "detectEOL s =
    (let CR = char_of (13 :: nat); LF = char_of (10 :: nat) in
     case find_char s CR 0 of
       None \<Rightarrow> [LF]
     | Some Pos \<Rightarrow>
         if Pos + 1 < length s \<and> s ! (Pos + 1) = LF then [CR, LF]
         else if Pos > 0 \<and> s ! (Pos - 1) = LF then [LF, CR]
         else [CR])"

section \<open>Signed integers\<close>

text \<open>The value as a 64-bit word and the rest.\<close>

definition consumeSignedInteger :: "string \<Rightarrow> u64 \<Rightarrow> (u64 \<times> string) option" where
  "consumeSignedInteger Str Radix =
    (if Str = [] \<or> hd Str \<noteq> CHR ''-'' then
       (case consumeUnsignedInteger Str Radix of
          None \<Rightarrow> None
        | Some (ULLVal, Rest) \<Rightarrow> if ULLVal <s 0 then None else Some (ULLVal, Rest))
     else
       (case consumeUnsignedInteger (drop 1 Str) Radix of
          None \<Rightarrow> None
        | Some (ULLVal, Rest) \<Rightarrow> if 0 <s - ULLVal then None else Some (- ULLVal, Rest)))"

definition getAsSignedInteger :: "string \<Rightarrow> u64 \<Rightarrow> u64 option" where
  "getAsSignedInteger Str Radix =
    (case consumeSignedInteger Str Radix of
       None \<Rightarrow> None
     | Some (Result, Rest) \<Rightarrow> if Rest \<noteq> [] then None else Some Result)"

section \<open>Integers of any width\<close>

text \<open>\<open>consumeInteger\<close> into an \<open>APInt\<close> of \<open>width\<close> bits: an \<open>APInt\<close> is its width and a number below
  \<open>2 ^ width\<close>. The digits are shifted in when the radix is a power of two, multiplied in otherwise.\<close>

function Log2Radix :: "nat \<Rightarrow> nat \<Rightarrow> nat" where
  "Log2Radix Radix k = (if 2 ^ k < Radix then Log2Radix Radix (k + 1) else k)"
  by pat_completeness auto
termination
  by (relation "measure (\<lambda>(Radix, k). Radix - k)") (auto intro: diff_less_mono2 less_trans [OF less_exp])

declare Log2Radix.simps [simp del]

primrec ap_digits :: "nat \<Rightarrow> nat \<Rightarrow> nat \<Rightarrow> bool \<Rightarrow> string \<Rightarrow> nat \<Rightarrow> nat \<times> string" where
  "ap_digits W Radix L IsPowerOf2Radix [] Result = (Result, [])"
| "ap_digits W Radix L IsPowerOf2Radix (c # Str) Result =
    (case char_val c of
       None \<Rightarrow> (Result, c # Str)
     | Some CharVal \<Rightarrow>
         if CharVal \<ge> Radix then (Result, c # Str)
         else ap_digits W Radix L IsPowerOf2Radix Str
           (if IsPowerOf2Radix then take_bit W (take_bit W (push_bit L Result) OR CharVal)
            else take_bit W (take_bit W (Result * take_bit W Radix) + take_bit W CharVal)))"

definition consumeInteger_APInt :: "nat \<Rightarrow> string \<Rightarrow> u64 \<Rightarrow> (nat \<times> nat \<times> string) option" where
  "consumeInteger_APInt width s Radix =
    (let (Radix', Str) = (if Radix = 0 then GetAutoSenseRadix s else (Radix, s)) in
     if Str = [] then None
     else
       let Str1 = dropWhile (\<lambda>c. c = CHR ''0'') Str in
       if Str1 = [] then Some (64, 0, Str1)
       else
         let R = unat Radix'; L = Log2Radix R 0; BitWidth = L * length Str1;
             W = (if BitWidth < width then width else BitWidth);
             (Result, Rest) = ap_digits W R L (2 ^ L = R) Str1 0
         in if length s = length Rest then None else Some (W, Result, Rest))"

definition getAsInteger_APInt :: "nat \<Rightarrow> string \<Rightarrow> u64 \<Rightarrow> (nat \<times> nat) option" where
  "getAsInteger_APInt width s Radix =
    (case consumeInteger_APInt width s Radix of
       None \<Rightarrow> None
     | Some (W, Result, Rest) \<Rightarrow> if Rest \<noteq> [] then None else Some (W, Result))"

section \<open>Edit distance\<close>

text \<open>\<open>ComputeMappedEditDistance\<close> keeps one row; the inner loop goes from \<open>x\<close> on over the rest of the second
  sequence, the outer one from \<open>y\<close> on over the rest of the first.\<close>

primrec edit_row ::
  "bool \<Rightarrow> ('a \<Rightarrow> 'b) \<Rightarrow> 'b \<Rightarrow> 'a list \<Rightarrow> nat \<Rightarrow> u32 list \<Rightarrow> u32 \<Rightarrow> u32 \<Rightarrow> u32 list \<times> u32" where
  "edit_row AllowReplacements Map CurItem [] x Row Previous BestThisRow = (Row, BestThisRow)"
| "edit_row AllowReplacements Map CurItem (b # To) x Row Previous BestThisRow =
    (let OldRow = Row ! x;
         Entry =
           (if AllowReplacements then
              min (Previous + (if CurItem = Map b then 0 else 1)) (min (Row ! (x - 1)) (Row ! x) + 1)
            else if CurItem = Map b then Previous
            else min (Row ! (x - 1)) (Row ! x) + 1)
     in edit_row AllowReplacements Map CurItem To (x + 1) (Row[x := Entry]) OldRow (min BestThisRow Entry))"

primrec edit_rows :: "bool \<Rightarrow> ('a \<Rightarrow> 'b) \<Rightarrow> u32 \<Rightarrow> 'a list \<Rightarrow> 'a list \<Rightarrow> nat \<Rightarrow> u32 list \<Rightarrow> u32" where
  "edit_rows AllowReplacements Map MaxEditDistance ToArray [] y Row = Row ! length ToArray"
| "edit_rows AllowReplacements Map MaxEditDistance ToArray (a # From) y Row =
    (let Row0 = Row[0 := of_nat y];
         (Row', BestThisRow) = edit_row AllowReplacements Map (Map a) ToArray 1 Row0 (of_nat (y - 1)) (Row0 ! 0)
     in if MaxEditDistance \<noteq> 0 \<and> BestThisRow > MaxEditDistance then MaxEditDistance + 1
        else edit_rows AllowReplacements Map MaxEditDistance ToArray From (y + 1) Row')"

definition ComputeMappedEditDistance :: "'a list \<Rightarrow> 'a list \<Rightarrow> ('a \<Rightarrow> 'b) \<Rightarrow> bool \<Rightarrow> u32 \<Rightarrow> u32" where
  "ComputeMappedEditDistance FromArray ToArray Map AllowReplacements MaxEditDistance =
    (let m = length FromArray; n = length ToArray; AbsDiff = (if m > n then m - n else n - m) in
     if MaxEditDistance \<noteq> 0 \<and> AbsDiff > unat MaxEditDistance then MaxEditDistance + 1
     else edit_rows AllowReplacements Map MaxEditDistance ToArray FromArray 1 (map of_nat [0..<n + 1]))"

definition edit_distance :: "string \<Rightarrow> string \<Rightarrow> bool \<Rightarrow> u32 \<Rightarrow> u32" where
  "edit_distance s Other = ComputeMappedEditDistance s Other (\<lambda>X. X)"

definition edit_distance_insensitive :: "string \<Rightarrow> string \<Rightarrow> bool \<Rightarrow> u32 \<Rightarrow> u32" where
  "edit_distance_insensitive s Other = ComputeMappedEditDistance s Other toLower"

end
