(* ===== verification/StringSearchSound.thy ===== *)
theory StringSearchSound
  imports StringSearch
begin

text \<open>
  The searches find what they should: every search from the front gives the first position of its
  predicate, every one from the back the last, and the skipping search for a string returns and agrees
  with the naive one. Splitting is proved once for any search that finds the first separator, and
  holds for the string and the character separator; reading an integer is exact up to overflow.
\<close>

section \<open>First and last positions\<close>

definition is_first :: "(nat \<Rightarrow> bool) \<Rightarrow> nat \<Rightarrow> nat option \<Rightarrow> bool" where
  "is_first P From r \<longleftrightarrow>
    (case r of
       None \<Rightarrow> \<forall>i \<ge> From. \<not> P i
     | Some i \<Rightarrow> From \<le> i \<and> P i \<and> (\<forall>j. From \<le> j \<and> j < i \<longrightarrow> \<not> P j))"

definition is_last :: "(nat \<Rightarrow> bool) \<Rightarrow> nat \<Rightarrow> nat option \<Rightarrow> bool" where
  "is_last P bound r \<longleftrightarrow>
    (case r of
       None \<Rightarrow> \<forall>i < bound. \<not> P i
     | Some i \<Rightarrow> i < bound \<and> P i \<and> (\<forall>j. i < j \<and> j < bound \<longrightarrow> \<not> P j))"

definition occurs_at :: "string \<Rightarrow> string \<Rightarrow> nat \<Rightarrow> bool" where
  "occurs_at p s i \<longleftrightarrow> i + length p \<le> length s \<and> take (length p) (drop i s) = p"

lemma is_first_here: "P From \<Longrightarrow> is_first P From (Some From)"
  by (auto simp: is_first_def)

lemma is_first_next: "\<forall>j. From \<le> j \<and> j < n \<longrightarrow> \<not> P j \<Longrightarrow> From \<le> n \<Longrightarrow> is_first P n r \<Longrightarrow> is_first P From r"
  by (auto simp: is_first_def not_le split: option.splits) (meson leI le_trans)+

lemma is_first_none: "\<forall>j \<ge> From. \<not> P j \<Longrightarrow> is_first P From None"
  by (simp add: is_first_def)

lemma find_if_loop_first: "is_first (\<lambda>i. i - n < length S \<and> F (S ! (i - n))) n (find_if_loop F S n)"
proof (induction S arbitrary: n)
  case (Cons c S)
  show ?case
  proof (cases "F c")
    case False
    have "is_first (\<lambda>i. i - n < length (c # S) \<and> F ((c # S) ! (i - n))) (Suc n) (find_if_loop F S (Suc n)) \<longleftrightarrow>
        is_first (\<lambda>i. i - Suc n < length S \<and> F (S ! (i - Suc n))) (Suc n) (find_if_loop F S (Suc n))"
    proof -
      have "i - n < length (c # S) \<and> F ((c # S) ! (i - n)) \<longleftrightarrow> i - Suc n < length S \<and> F (S ! (i - Suc n))" if "Suc n \<le> i" for i
      proof -
        obtain k where "i = Suc n + k" using \<open>Suc n \<le> i\<close> le_Suc_ex by blast
        then show ?thesis by (simp add: Suc_diff_le)
      qed
      then show ?thesis unfolding is_first_def by (auto split: option.splits)
    qed
    then have "is_first (\<lambda>i. i - n < length (c # S) \<and> F ((c # S) ! (i - n))) (Suc n) (find_if_loop F S (Suc n))"
      using Cons.IH [of "Suc n"] by simp
    from is_first_next [OF _ _ this, of n] show ?thesis using False by (auto simp: less_Suc_eq_le)
  qed (simp add: is_first_here)
qed (simp add: is_first_none)

lemma find_if_first: "is_first (\<lambda>i. i < length s \<and> F (s ! i)) From (find_if s F From)"
proof (cases "From \<le> length s")
  case True
  have "i - From < length (drop From s) \<and> F (drop From s ! (i - From)) \<longleftrightarrow> i < length s \<and> F (s ! i)" if "From \<le> i" for i
    using that by auto
  then show ?thesis
    using find_if_loop_first [of From "drop From s" F] True
    unfolding find_if_def is_first_def by (auto split: option.splits)
qed (simp add: find_if_def is_first_def)

lemma rfind_loop_last: "is_last (\<lambda>i. F (s ! i)) n (rfind_loop F s n)"
proof (induction n)
  case (Suc n)
  then show ?case by (auto simp: is_last_def less_Suc_eq split: option.splits)
qed (simp add: is_last_def)

section \<open>Sets of characters\<close>

lemma char_code_less [simp]: "char_code c < 256"
  by (simp add: char_code_def)

lemma char_code_eq [simp]: "char_code c = char_code d \<longleftrightarrow> c = d"
  by (simp add: char_code_def)

lemma fold_bits: "length bits = 256 \<Longrightarrow>
  length (fold (\<lambda>C bits. bits[char_code C := True]) Cs bits) = 256 \<and>
  fold (\<lambda>C bits. bits[char_code C := True]) Cs bits ! char_code D = (bits ! char_code D \<or> D \<in> set Cs)"
  by (induction Cs arbitrary: bits) (auto simp: nth_list_update)

lemma CharBits_nth: "CharBits Cs ! char_code D \<longleftrightarrow> D \<in> set Cs"
  using fold_bits [of "replicate 256 False" Cs D] by (simp add: CharBits_def)

section \<open>Searching for a string\<close>

lemma occurs_at_first: "occurs_at p s i \<Longrightarrow> i < length s + 1 - length p"
  by (auto simp: occurs_at_def)

lemma naive_find_first:
  assumes "Start < Stop" "Stop + length Needle = length s + 1"
  shows "is_first (occurs_at Needle s) Start (naive_find s Needle Start Stop)"
  using assms
proof (induction "Stop - Start" arbitrary: Start)
  case (Suc n)
  have o: "take (length Needle) (drop Start s) = Needle \<longleftrightarrow> occurs_at Needle s Start"
    using Suc.prems by (auto simp: occurs_at_def)
  show ?case
  proof (cases "occurs_at Needle s Start")
    case True
    then show ?thesis using o by (subst naive_find.simps) (simp add: is_first_here)
  next
    case False
    then have eq: "naive_find s Needle Start Stop = (if Start + 1 < Stop then naive_find s Needle (Start + 1) Stop else None)"
      using o by (subst naive_find.simps) simp
    show ?thesis
    proof (cases "Start + 1 < Stop")
      case True
      have "is_first (occurs_at Needle s) (Start + 1) (naive_find s Needle (Start + 1) Stop)"
        by (rule Suc.hyps(1)) (use Suc True in auto)
      moreover have "\<forall>j. Start \<le> j \<and> j < Start + 1 \<longrightarrow> \<not> occurs_at Needle s j"
        using False by (auto simp: less_Suc_eq_le dest!: le_antisym)
      ultimately show ?thesis using is_first_next [of Start "Start + 1"] True eq by simp
    next
      case no: False
      have "\<not> occurs_at Needle s j" if "Start \<le> j" for j
        using that False no Suc.prems occurs_at_first [of Needle s j] by (cases "j = Start") auto
      then show ?thesis using no eq by (simp add: is_first_none)
    qed
  qed
qed simp

text \<open>The table: never 0, and no character of the needle it skips is the one it is asked for.\<close>

lemma skip_table:
  assumes "length Str \<le> 255" "m < length Str"
  defines "T \<equiv> fold (\<lambda>i T. T[char_code (Str ! i) := of_nat (length Str - 1 - i)]) [0..<m]
    (replicate 256 (of_nat (length Str) :: u8))"
  shows "length T = 256 \<and> 1 \<le> unat (T ! char_code c) \<and> unat (T ! char_code c) \<le> length Str \<and>
    (\<forall>i < m. length Str - 1 - i < unat (T ! char_code c) \<longrightarrow> Str ! i \<noteq> c)"
  using assms(2) unfolding T_def
proof (induction m)
  case 0
  have "unat (of_nat (length Str) :: u8) = length Str"
    using assms(1) by (simp add: unat_of_nat)
  then show ?case using 0 by (simp add: Suc_le_eq)
next
  case (Suc m)
  let ?T = "fold (\<lambda>i T. T[char_code (Str ! i) := of_nat (length Str - 1 - i)]) [0..<m] (replicate 256 (of_nat (length Str) :: u8))"
  have IH: "length ?T = 256" "1 \<le> unat (?T ! char_code c)" "unat (?T ! char_code c) \<le> length Str"
    "\<forall>i < m. length Str - 1 - i < unat (?T ! char_code c) \<longrightarrow> Str ! i \<noteq> c"
    using Suc.IH Suc.prems by simp_all
  have u: "unat (of_nat (length Str - 1 - m) :: u8) = length Str - 1 - m"
    using assms(1) by (simp add: unat_of_nat)
  show ?case
  proof (cases "Str ! m = c")
    case True
    then show ?thesis using IH(1) u Suc.prems by (auto simp: less_Suc_eq)
  next
    case False
    then show ?thesis using IH by (auto simp: less_Suc_eq)
  qed
qed

lemma BadCharSkip_props:
  assumes "length Str \<le> 255" "0 < length Str"
  shows "1 \<le> unat (BadCharSkip Str ! char_code c)" "unat (BadCharSkip Str ! char_code c) \<le> length Str"
    "0 < k \<Longrightarrow> k < unat (BadCharSkip Str ! char_code c) \<Longrightarrow> Str ! (length Str - 1 - k) \<noteq> c"
proof -
  note t = skip_table [OF assms(1), of "length Str - 1" c]
  show "1 \<le> unat (BadCharSkip Str ! char_code c)" and le: "unat (BadCharSkip Str ! char_code c) \<le> length Str"
    using t assms(2) by (simp_all add: BadCharSkip_def Let_def)
  assume k: "0 < k" "k < unat (BadCharSkip Str ! char_code c)"
  then have "length Str - 1 - k < length Str - 1" "length Str - 1 - (length Str - 1 - k) = k"
    using le by auto
  then show "Str ! (length Str - 1 - k) \<noteq> c"
    using t assms(2) k(2) by (simp add: BadCharSkip_def Let_def)
qed

lemma occurs_at_nth: "occurs_at p s i \<Longrightarrow> k < length p \<Longrightarrow> s ! (i + k) = p ! k"
  by (auto simp: occurs_at_def) (metis add_leD1 nth_drop nth_take)

lemma occurs_at_last:
  assumes "0 < length p" "i + length p \<le> length s"
  shows "occurs_at p s i \<longleftrightarrow> s ! (i + (length p - 1)) = p ! (length p - 1) \<and> take (length p - 1) (drop i s) = take (length p - 1) p"
proof -
  obtain n where n: "length p = Suc n" using assms(1) by (cases "length p") auto
  have p: "p = take n p @ [p ! n]" using n by (metis lessI order_refl take_Suc_conv_app_nth take_all)
  have "take (Suc n) (drop i s) = take n (drop i s) @ [s ! (i + n)]"
    using assms(2) n by (subst take_Suc_conv_app_nth) auto
  then have "occurs_at p s i \<longleftrightarrow> take n (drop i s) @ [s ! (i + n)] = take n p @ [p ! n]"
    using assms(2) n p by (auto simp: occurs_at_def)
  then show ?thesis using n assms(2) by auto
qed

lemma skip_find_first:
  assumes "Start < Stop" "Stop + length Needle = length s + 1" "0 < length Needle" "length Needle \<le> 255"
  shows "\<exists>r. skip_find (BadCharSkip Needle) s Needle Start Stop = Some r \<and> is_first (occurs_at Needle s) Start r"
  using assms(1,2)
proof (induction "Stop - Start" arbitrary: Start rule: less_induct)
  case less
  let ?N = "length Needle"
  define Last where "Last = s ! (Start + (?N - 1))"
  define d where "d = unat (BadCharSkip Needle ! char_code Last)"
  note T = BadCharSkip_props [OF assms(4,3), where c = Last, folded d_def]
  have fit: "Start + ?N \<le> length s" using less.prems by simp
  have o: "Last = Needle ! (?N - 1) \<and> take (?N - 1) (drop Start s) = take (?N - 1) Needle \<longleftrightarrow> occurs_at Needle s Start"
    using occurs_at_last [OF assms(3) fit] by (simp add: Last_def)
  show ?case
  proof (cases "occurs_at Needle s Start")
    case True
    then have "skip_find (BadCharSkip Needle) s Needle Start Stop = Some (Some Start)"
      using o by (subst skip_find.simps) (simp add: Let_def Last_def)
    then show ?thesis using True by (simp add: is_first_here)
  next
    case False
    then have eq: "skip_find (BadCharSkip Needle) s Needle Start Stop =
        (if Start + d < Stop then skip_find (BadCharSkip Needle) s Needle (Start + d) Stop else Some None)"
      using o by (subst skip_find.simps) (auto simp: Let_def Last_def d_def)
    have skipped: "\<not> occurs_at Needle s j" if j: "Start \<le> j" "j < Start + d" for j
    proof
      assume "occurs_at Needle s j"
      then have k: "0 < j - Start" "j - Start < d" using False j by (auto simp: nat_less_le)
      define m where "m = ?N - 1 - (j - Start)"
      have "s ! (j + m) = Needle ! m"
        unfolding m_def by (intro occurs_at_nth \<open>occurs_at Needle s j\<close>) (use assms(3) in linarith)
      moreover have "j + m = Start + (?N - 1)" using k j T(2) by (auto simp: m_def)
      moreover have "Needle ! m \<noteq> Last" unfolding m_def by (rule T(3) [OF k])
      ultimately show False unfolding Last_def by metis
    qed
    show ?thesis
    proof (cases "Start + d < Stop")
      case True
      have "Stop - (Start + d) < Stop - Start" using T(1) True by simp
      from less.hyps [OF this True less.prems(2)]
      obtain r where rec: "skip_find (BadCharSkip Needle) s Needle (Start + d) Stop = Some r"
        "is_first (occurs_at Needle s) (Start + d) r" by blast
      from is_first_next [OF _ _ rec(2), of Start] show ?thesis using rec(1) eq True skipped by auto
    next
      case no: False
      have "\<not> occurs_at Needle s j" if "Start \<le> j" for j
        using skipped [OF that] occurs_at_first [of Needle s j] no less.prems(2) by fastforce
      then show ?thesis using eq no by (simp add: is_first_none)
    qed
  qed
qed

lemma find_char_first: "is_first (occurs_at [C] s) From (find_char s C From)"
proof -
  have "occurs_at [C] s i \<longleftrightarrow> i < length s \<and> s ! i = C" for i
    by (auto simp: occurs_at_def take_Suc_conv_app_nth Suc_le_eq hd_drop_conv_nth take_Suc)
  then have "occurs_at [C] s = (\<lambda>i. i < length s \<and> s ! i = C)" by blast
  then show ?thesis using find_if_first [of s "\<lambda>D. D = C" From] by (simp add: find_char_def)
qed

lemma find_str_some: "\<exists>r. find_str s Str From = Some r \<and> is_first (occurs_at Str s) From r"
proof -
  let ?N = "length Str" and ?Stop = "From + (length s - From - length Str + 1)"
  consider (far) "From > length s" | (empty) "From \<le> length s" "?N = 0" | (long) "From \<le> length s" "0 < ?N" "length s - From < ?N"
    | (fits) "From + ?N \<le> length s" "0 < ?N" by linarith
  then show ?thesis
  proof cases
    case far
    then show ?thesis by (auto simp: find_str_def is_first_def occurs_at_def)
  next
    case empty
    then show ?thesis by (simp add: find_str_def is_first_here occurs_at_def)
  next
    case long
    then show ?thesis by (auto simp: find_str_def is_first_def occurs_at_def)
  next
    case fits
    have stop: "From < ?Stop" "?Stop + ?N = length s + 1" using fits by simp_all
    show ?thesis
    proof (cases "?N = 1")
      case True
      then obtain C where "Str = [C]" by (metis One_nat_def length_0_conv length_Suc_conv)
      then show ?thesis using fits find_char_first [of C s From] by (simp add: find_str_def)
    next
      case n: False
      show ?thesis
      proof (cases "?N = 2 \<or> length s - From < 16 \<or> ?N > 255")
        case True
        then show ?thesis using fits n naive_find_first [OF stop] by (auto simp: find_str_def Let_def)
      next
        case False
        then show ?thesis using fits n skip_find_first [OF stop fits(2)] by (auto simp: find_str_def Let_def)
      qed
    qed
  qed
qed

text \<open>C37: \<open>StringRef::find\<close> returns for every haystack, needle and starting position, whichever of its
  four algorithms it takes, and what it returns is the first occurrence of the needle at or after the
  starting position, or nothing when there is none.\<close>
theorem find_str_first: "\<exists>r. find_str s Str From = Some r \<and> is_first (occurs_at Str s) From r"
  by (rule find_str_some)

section \<open>Splitting\<close>

fun join :: "string \<Rightarrow> string list \<Rightarrow> string" where
  "join sep [] = []"
| "join sep [w] = w"
| "join sep (w # ws) = w @ sep @ join sep ws"

lemma join_Cons: "ws \<noteq> [] \<Longrightarrow> join sep (w # ws) = w @ sep @ join sep ws"
  by (cases ws) simp_all

lemma sint_dec:
  fixes x :: u32
  assumes "sint x \<noteq> - (2 ^ 31)"
  shows "sint (x - 1) = sint x - 1"
proof -
  have "- (2 ^ 31) \<le> sint x" "sint x < 2 ^ 31"
    using sint_greater_eq [of x] sint_less [of x] by simp_all
  then have "signed_take_bit 31 (sint x - 1) = sint x - 1"
    using assms by (intro signed_take_bit_int_eq_self) simp_all
  then show ?thesis by (simp add: sint_word_ariths)
qed

lemma slice_halves: "slice S 0 (Some i) = take i S" "slice S i None = drop i S"
  by (simp_all add: slice_def Let_def min_def)

text \<open>What splitting relies on: a search that returns the first separator.\<close>

locale separator_search =
  fixes search :: "string \<Rightarrow> nat option option" and sep :: string
  assumes search: "\<exists>r. search S = Some r \<and> is_first (occurs_at sep S) 0 r"
begin

lemma split_loop_some:
  fixes MaxSplit :: u32
  assumes "sep \<noteq> []" "0 \<le> sint MaxSplit \<or> int (length S) < 2 ^ 31 + sint MaxSplit"
  shows "\<exists>ws. ws \<noteq> [] \<and> join sep ws = S \<and> (0 \<le> sint MaxSplit \<longrightarrow> int (length ws) \<le> sint MaxSplit + 1) \<and>
    (sint MaxSplit < 0 \<longrightarrow> (\<forall>w \<in> set ws. \<forall>i. \<not> occurs_at sep w i)) \<and>
    (\<forall>A. split_loop search (length sep) True MaxSplit S A = Some (A @ ws)) \<and>
    (\<forall>A. split_loop search (length sep) False MaxSplit S A = Some (A @ filter (\<lambda>w. w \<noteq> []) ws))"
  using assms(2)
proof (induction "length S" arbitrary: S MaxSplit rule: less_induct)
  case less
  let ?tail = "\<lambda>K A. A @ (if K \<or> S \<noteq> [] then [S] else [])"
  obtain r where r: "search S = Some r" "is_first (occurs_at sep S) 0 r" using search by blast
  have min: "sint MaxSplit \<noteq> - (2 ^ 31)" using less.prems by auto
  have unfold: "split_loop search (length sep) K MaxSplit S A =
      (if MaxSplit = 0 then Some (?tail K A)
       else case r of
           None \<Rightarrow> Some (?tail K A)
         | Some Idx \<Rightarrow> split_loop search (length sep) K (MaxSplit - 1) (drop (Idx + length sep) S)
             (A @ (if K \<or> Idx > 0 then [take Idx S] else [])))" for K A
    using min by (subst split_loop.simps) (simp add: r(1) Let_def slice_halves split: option.splits)
  show ?case
  proof (cases "MaxSplit = 0 \<or> r = None")
    case True
    then have u: "split_loop search (length sep) K MaxSplit S A = Some (?tail K A)" for K A
      using unfold [of K A] by auto
    have "sint MaxSplit < 0 \<Longrightarrow> \<not> occurs_at sep S i" for i
      using True r(2) by (auto simp: is_first_def)
    then show ?thesis using u by (intro exI [of _ "[S]"]) auto
  next
    case False
    then obtain Idx where Idx: "r = Some Idx" "MaxSplit \<noteq> 0" by auto
    have o: "occurs_at sep S Idx" "\<And>j. j < Idx \<Longrightarrow> \<not> occurs_at sep S j"
      using r(2) Idx(1) by (auto simp: is_first_def)
    define T where "T = drop (Idx + length sep) S"
    have S: "S = take Idx S @ sep @ T" "Idx + length sep \<le> length S"
    proof -
      have "drop Idx S = take (length sep) (drop Idx S) @ drop (length sep) (drop Idx S)" by (simp only: append_take_drop_id)
      also have "\<dots> = sep @ T" using o(1) by (simp add: occurs_at_def T_def add.commute)
      finally show "S = take Idx S @ sep @ T" by (metis append_take_drop_id)
      show "Idx + length sep \<le> length S" using o(1) by (simp add: occurs_at_def)
    qed
    have "length T < length S" using S(2) assms by (cases sep) (auto simp: T_def)
    have "sint MaxSplit \<noteq> 0" using Idx(2) by (metis of_int_0 word_of_int_sint)
    note dec = sint_dec [OF min]
    have "0 \<le> sint (MaxSplit - 1) \<or> int (length T) < 2 ^ 31 + sint (MaxSplit - 1)"
      using less.prems \<open>sint MaxSplit \<noteq> 0\<close> \<open>length T < length S\<close> unfolding dec by auto
    from less.hyps [OF \<open>length T < length S\<close> this] obtain ws where ws: "ws \<noteq> []" "join sep ws = T"
      "0 \<le> sint MaxSplit - 1 \<longrightarrow> int (length ws) \<le> sint MaxSplit"
      "sint MaxSplit - 1 < 0 \<longrightarrow> (\<forall>w \<in> set ws. \<forall>i. \<not> occurs_at sep w i)"
      "\<And>A. split_loop search (length sep) True (MaxSplit - 1) T A = Some (A @ ws)"
      "\<And>A. split_loop search (length sep) False (MaxSplit - 1) T A = Some (A @ filter (\<lambda>w. w \<noteq> []) ws)"
      unfolding dec by auto
    have none: "\<not> occurs_at sep (take Idx S) i" for i
    proof
      assume a: "occurs_at sep (take Idx S) i"
      then have i: "i + length sep \<le> Idx" using S(2) by (simp add: occurs_at_def)
      then have "occurs_at sep S i" using a S(2) by (simp add: occurs_at_def drop_take)
      then show False using o(2) [of i] i assms by (cases sep) auto
    qed
    have "join sep (take Idx S # ws) = S" using ws(1,2) S(1) by (simp add: join_Cons)
    moreover have "split_loop search (length sep) True MaxSplit S A = Some (A @ take Idx S # ws)" for A
      using unfold [of True A] Idx ws(5) by (simp add: T_def)
    moreover have "split_loop search (length sep) False MaxSplit S A =
        Some (A @ filter (\<lambda>w. w \<noteq> []) (take Idx S # ws))" for A
      using unfold [of False A] Idx S(2) ws(6) assms by (auto simp: T_def)
    ultimately show ?thesis using ws(3,4) none \<open>sint MaxSplit \<noteq> 0\<close>
      by (intro exI [of _ "take Idx S # ws"]) auto
  qed
qed

end

interpretation str_sep: separator_search "\<lambda>S. find_str S sep 0" sep for sep
  by unfold_locales (rule find_str_some)

interpretation char_sep: separator_search "\<lambda>S. Some (find_char S C 0)" "[C]" for C
  by unfold_locales (simp add: find_char_first)

text \<open>C38: splitting at a nonempty separator returns when the limit is not negative, and with a negative
  limit (\<open>-1\<close> for none) when the string is shorter than \<open>2 ^ 31\<close> bytes less its distance from 0, so that
  the count cannot overflow. The pieces, joined with the separator, are the string; at most one more
  than a limit \<open>MaxSplit\<close> come back, and without a limit none contains the separator; dropping empty
  pieces is all that \<open>KeepEmpty\<close> changes. The overload for a character is the one for the string of
  that character.\<close>
theorem split_joins:
  fixes MaxSplit :: u32
  assumes "sep \<noteq> []" "0 \<le> sint MaxSplit \<or> int (length s) < 2 ^ 31 + sint MaxSplit"
  shows "(\<exists>ws. split_str s sep MaxSplit True = Some ws \<and> join sep ws = s \<and>
      (0 \<le> sint MaxSplit \<longrightarrow> int (length ws) \<le> sint MaxSplit + 1) \<and>
      (sint MaxSplit < 0 \<longrightarrow> (\<forall>w \<in> set ws. \<forall>i. \<not> occurs_at sep w i)) \<and>
      split_str s sep MaxSplit False = Some (filter (\<lambda>w. w \<noteq> []) ws)) \<and>
    (\<forall>C. sep = [C] \<longrightarrow> split_char s C MaxSplit = split_str s sep MaxSplit)"
proof (rule conjI)
  from str_sep.split_loop_some [OF assms]
  obtain ws where "join sep ws = s" "0 \<le> sint MaxSplit \<longrightarrow> int (length ws) \<le> sint MaxSplit + 1"
    "sint MaxSplit < 0 \<longrightarrow> (\<forall>w \<in> set ws. \<forall>i. \<not> occurs_at sep w i)"
    "\<forall>A. split_loop (\<lambda>S. find_str S sep 0) (length sep) True MaxSplit s A = Some (A @ ws)"
    "\<forall>A. split_loop (\<lambda>S. find_str S sep 0) (length sep) False MaxSplit s A = Some (A @ filter (\<lambda>w. w \<noteq> []) ws)"
    by (elim exE conjE) (rule that)
  then show "\<exists>ws. split_str s sep MaxSplit True = Some ws \<and> join sep ws = s \<and>
      (0 \<le> sint MaxSplit \<longrightarrow> int (length ws) \<le> sint MaxSplit + 1) \<and>
      (sint MaxSplit < 0 \<longrightarrow> (\<forall>w \<in> set ws. \<forall>i. \<not> occurs_at sep w i)) \<and>
      split_str s sep MaxSplit False = Some (filter (\<lambda>w. w \<noteq> []) ws)"
    by (intro exI [of _ ws] conjI) (simp_all only: split_str_def append_Nil)
  have "find_str S [C] 0 = Some (find_char S C 0)" for S C
    by (cases S) (simp_all add: find_str_def find_char_def find_if_def)
  then show "\<forall>C. sep = [C] \<longrightarrow> split_char s C MaxSplit = split_str s sep MaxSplit"
    by (simp add: split_char_def split_str_def fun_eq_iff)
qed

lemma split_joins_witness:
  "split_str ''a::b::::c'' ''::'' (- 1) True = Some [''a'', ''b'', '''', ''c''] \<and>
   split_str ''a::b::::c'' ''::'' (- 1) False = Some [''a'', ''b'', ''c''] \<and>
   join ''::'' [''a'', ''b'', '''', ''c''] = ''a::b::::c''"
proof -
  have 1: "split_str ''a::b::::c'' ''::'' (- 1) True = Some [''a'', ''b'', '''', ''c'']"
    unfolding split_str_def
    by ((subst split_loop.simps, simp add: find_str_def naive_find.simps slice_def)+)
  show ?thesis using split_joins [where sep = "''::''" and s = "''a::b::::c''" and MaxSplit = "- 1"] 1 by auto
qed

section \<open>Searching for sets of characters, trimming\<close>

lemma find_first_of_first: "is_first (\<lambda>i. i < length s \<and> s ! i \<in> set Chars) From (find_first_of s Chars From)"
  using find_if_first [of s "\<lambda>D. CharBits Chars ! char_code D" From] by (simp add: find_first_of_def CharBits_nth)

lemma find_first_not_of_first: "is_first (\<lambda>i. i < length s \<and> s ! i \<notin> set Chars) From (find_first_not_of s Chars From)"
  using find_if_first [of s "\<lambda>D. \<not> CharBits Chars ! char_code D" From] by (simp add: find_first_not_of_def CharBits_nth)

lemma find_last_not_of_last: "is_last (\<lambda>i. s ! i \<notin> set Chars) (min From (length s)) (find_last_not_of s Chars From)"
  using rfind_loop_last [of "\<lambda>D. \<not> CharBits Chars ! char_code D" s "min From (length s)"]
  by (simp add: find_last_not_of_def CharBits_nth)

lemma drop_first_not:
  assumes "is_first (\<lambda>i. i < length s \<and> s ! i \<notin> X) 0 r"
  shows "drop (case r of None \<Rightarrow> length s | Some i \<Rightarrow> min (length s) i) s = dropWhile (\<lambda>c. c \<in> X) s"
proof (cases r)
  case None
  then have "\<forall>c \<in> set s. c \<in> X" using assms by (auto simp: is_first_def in_set_conv_nth)
  then have "dropWhile (\<lambda>c. c \<in> X) s = []" by (simp add: dropWhile_eq_Nil_conv)
  then show ?thesis using None by (metis drop_all option.simps(4) order_refl)
next
  case (Some i)
  then have i: "i < length s" "s ! i \<notin> X" "\<forall>j < i. s ! j \<in> X" using assms by (auto simp: is_first_def)
  have "takeWhile (\<lambda>c. c \<in> X) s = take i s"
    by (rule takeWhile_eq_take_P_nth) (use i in auto)
  then show ?thesis using Some i(1) by (simp add: dropWhile_eq_drop)
qed

lemma ltrim_dropWhile: "ltrim s Chars = dropWhile (\<lambda>c. c \<in> set Chars) s"
  unfolding ltrim_def by (rule drop_first_not [OF find_first_not_of_first])

lemma take_last_not:
  assumes "is_last (\<lambda>i. s ! i \<notin> X) (length s) r"
  shows "take (case r of None \<Rightarrow> 0 | Some i \<Rightarrow> i + 1) s = rev (dropWhile (\<lambda>c. c \<in> X) (rev s))"
proof (cases r)
  case None
  then have "\<forall>c \<in> set s. c \<in> X" using assms by (auto simp: is_last_def in_set_conv_nth)
  then show ?thesis using None by (simp add: dropWhile_eq_Nil_conv)
next
  case (Some i)
  then have i: "i < length s" "s ! i \<notin> X" "\<forall>j. i < j \<and> j < length s \<longrightarrow> s ! j \<in> X" using assms by (auto simp: is_last_def)
  have "s = take i s @ [s ! i] @ drop (Suc i) s" using i(1) by (simp add: id_take_nth_drop)
  then have "rev s = rev (drop (Suc i) s) @ s ! i # rev (take i s)" by (metis append.assoc rev.simps(2) rev_append append_Cons append_Nil rev_rev_ident rev_singleton_conv)
  moreover have "\<forall>c \<in> set (drop (Suc i) s). c \<in> X" using i(3) by (auto simp: in_set_conv_nth)
  ultimately have "dropWhile (\<lambda>c. c \<in> X) (rev s) = s ! i # rev (take i s)"
    using i(2) dropWhile_append2 [of "rev (drop (Suc i) s)" "\<lambda>c. c \<in> X"] by simp
  then show ?thesis using Some i(1) by (simp add: take_Suc_conv_app_nth)
qed

lemma rtrim_dropWhile: "rtrim s Chars = rev (dropWhile (\<lambda>c. c \<in> set Chars) (rev s))"
proof -
  have l: "is_last (\<lambda>i. s ! i \<notin> set Chars) (length s) (find_last_not_of s Chars (length s))"
    using find_last_not_of_last [of s Chars "length s"] by simp
  then have "(case find_last_not_of s Chars (length s) of None \<Rightarrow> 0 | Some i \<Rightarrow> i + 1) \<le> length s"
    by (auto simp: is_last_def split: option.splits)
  then show ?thesis unfolding take_last_not [OF l, symmetric] by (simp add: rtrim_def substr_def Let_def)
qed

text \<open>Trimming takes the longest prefix and the longest suffix of listed characters off, and no other
  character, also where the position behind the last other character wraps to 0.\<close>
theorem trim_both_ends:
  "trim s Chars = rev (dropWhile (\<lambda>c. c \<in> set Chars) (rev (dropWhile (\<lambda>c. c \<in> set Chars) s)))"
  by (simp add: trim_def ltrim_dropWhile rtrim_dropWhile)

section \<open>Reading integers\<close>

definition is_radix_digit :: "nat \<Rightarrow> char \<Rightarrow> bool" where
  "is_radix_digit R c \<longleftrightarrow> (case char_val c of None \<Rightarrow> False | Some d \<Rightarrow> d < R)"

definition radix_value :: "nat \<Rightarrow> nat \<Rightarrow> string \<Rightarrow> nat" where
  "radix_value R v ds = foldl (\<lambda>v c. v * R + the (char_val c)) v ds"

lemma radix_value_Cons [simp]: "radix_value R v (c # ds) = radix_value R (v * R + the (char_val c)) ds"
  by (simp add: radix_value_def)

lemma radix_value_ge: "0 < R \<Longrightarrow> v \<le> radix_value R v ds"
proof (induction ds arbitrary: v)
  case (Cons c ds)
  then have "v \<le> v * R + the (char_val c)" by (cases R) auto
  also have "\<dots> \<le> radix_value R (v * R + the (char_val c)) ds" by (rule Cons.IH [OF Cons.prems])
  finally show ?case by simp
qed (simp add: radix_value_def)

lemma char_val_less: "char_val c = Some d \<Longrightarrow> d < 256"
  using char_code_less [of c] unfolding char_val_def by (auto split: if_splits simp: char_code_def char_le_code)

lemma unat_less_64: "unat w < 2 ^ 64" for w :: u64
  using unsigned_less [of w] by simp

text \<open>The test for lost bits is exact.\<close>

lemma overflow_test:
  fixes P Radix :: u64
  assumes "d < unat Radix" "d < 256"
  shows "(P * Radix + of_nat d) div Radix < P \<longleftrightarrow> 2 ^ 64 \<le> unat P * unat Radix + d"
    "unat P * unat Radix + d < 2 ^ 64 \<Longrightarrow> unat (P * Radix + of_nat d) = unat P * unat Radix + d"
proof -
  let ?n = "unat P * unat Radix + d"
  have u: "unat (P * Radix + of_nat d) = ?n mod 2 ^ 64"
    using assms(2) by (simp add: unat_word_ariths unat_of_nat mod_simps)
  then show "unat (P * Radix + of_nat d) = ?n" if "?n < 2 ^ 64" using that by simp
  have R: "0 < unat Radix" using assms(1) by simp
  have "unat ((P * Radix + of_nat d) div Radix) = ?n mod 2 ^ 64 div unat Radix" by (simp add: unat_div u)
  moreover have "?n mod 2 ^ 64 div unat Radix < unat P \<longleftrightarrow> 2 ^ 64 \<le> ?n"
  proof (cases "?n < 2 ^ 64")
    case True
    then have "?n mod 2 ^ 64 div unat Radix = ?n div unat Radix" by simp
    also have "\<dots> = unat P" using R assms(1) by simp
    finally show ?thesis using True by simp
  next
    case False
    then have "?n mod 2 ^ 64 \<le> ?n - 2 ^ 64" by (simp add: le_mod_geq not_less)
    also have "\<dots> < unat P * unat Radix"
    proof -
      have "d < 2 ^ 64" using assms(2) by simp
      then show ?thesis using False by linarith
    qed
    finally have "?n mod 2 ^ 64 div unat Radix < unat P" using R by (simp add: less_mult_imp_div_less)
    then show ?thesis using False by simp
  qed
  ultimately show "(P * Radix + of_nat d) div Radix < P \<longleftrightarrow> 2 ^ 64 \<le> ?n"
    by (simp only: word_less_nat_alt)
qed

lemma consume_digits_exact:
  assumes "Radix \<noteq> 0"
  shows "consume_digits Radix Str Result =
    (let v = radix_value (unat Radix) (unat Result) (takeWhile (is_radix_digit (unat Radix)) Str)
     in if v < 2 ^ 64 then Some (of_nat v, dropWhile (is_radix_digit (unat Radix)) Str) else None)"
proof (induction Str arbitrary: Result)
  case Nil
  then show ?case using unat_less_64 [of Result] by (simp add: radix_value_def Let_def)
next
  case (Cons c Str)
  have R: "0 < unat Radix" using assms by (simp add: unat_gt_0)
  show ?case
  proof (cases "is_radix_digit (unat Radix) c")
    case False
    have "unat (of_nat d :: u64) = d" if "char_val c = Some d" for d
      using char_val_less [OF that] by (simp add: unat_of_nat)
    then show ?thesis using False unat_less_64 [of Result]
      by (auto simp: is_radix_digit_def radix_value_def word_le_nat_alt split: option.splits)
  next
    case True
    then obtain d where d: "char_val c = Some d" "d < unat Radix" by (auto simp: is_radix_digit_def split: option.splits)
    have d8: "d < 256" by (rule char_val_less [OF d(1)])
    then have ud: "unat (of_nat d :: u64) = d" by (simp add: unat_of_nat)
    note ov = overflow_test [OF d(2) d8, of Result]
    let ?w = "unat Result * unat Radix + d"
    have ge: "?w \<le> radix_value (unat Radix) ?w ds" for ds by (rule radix_value_ge [OF R])
    show ?thesis
    proof (cases "?w < 2 ^ 64")
      case fits: True
      then have "consume_digits Radix (c # Str) Result = consume_digits Radix Str (Result * Radix + of_nat d)"
        using d ud ov(1) by (simp add: Let_def word_le_nat_alt)
      then show ?thesis using Cons.IH [of "Result * Radix + of_nat d"] True d(1) ov(2) [OF fits] by (simp add: Let_def)
    next
      case False
      then have "consume_digits Radix (c # Str) Result = None"
        using d ud ov(1) by (simp add: Let_def word_le_nat_alt)
      moreover have "\<not> radix_value (unat Radix) ?w ds < 2 ^ 64" for ds using ge [of ds] False by linarith
      ultimately show ?thesis using True d(1) by (simp add: Let_def)
    qed
  qed
qed

text \<open>The integer a string spells: an optional minus sign and digits of the radix.\<close>

definition spelled :: "nat \<Rightarrow> string \<Rightarrow> int option" where
  "spelled R Str =
    (let (neg, ds) = (if Str \<noteq> [] \<and> hd Str = CHR ''-'' then (True, tl Str) else (False, Str))
     in if ds \<noteq> [] \<and> list_all (is_radix_digit R) ds
        then Some (if neg then - int (radix_value R 0 ds) else int (radix_value R 0 ds))
        else None)"

lemma consumeUnsigned_exact:
  assumes "Radix \<noteq> 0"
  shows "consumeUnsignedInteger Str Radix =
    (let ds = takeWhile (is_radix_digit (unat Radix)) Str; v = radix_value (unat Radix) 0 ds
     in if ds \<noteq> [] \<and> v < 2 ^ 64 then Some (of_nat v, dropWhile (is_radix_digit (unat Radix)) Str) else None)"
proof -
  have "length Str = length (dropWhile P Str) \<longleftrightarrow> takeWhile P Str = []" for P
  proof -
    have "length (takeWhile P Str) + length (dropWhile P Str) = length Str"
      by (metis length_append takeWhile_dropWhile_id)
    then show ?thesis by auto
  qed
  then show ?thesis
    using assms consume_digits_exact [OF assms, of Str 0]
    by (auto simp: consumeUnsignedInteger_def Let_def split: option.splits if_splits)
qed

lemma sless_zero: "w <s 0 \<longleftrightarrow> 2 ^ 63 \<le> unat w" for w :: u64
proof -
  have "w <s 0 \<longleftrightarrow> bit w 63" using bit_last_iff [of w] by (simp add: word_sless_alt)
  also have "\<dots> \<longleftrightarrow> odd (unat w div 2 ^ 63)" using bit_unsigned_iff [of w 63, where 'a = nat] by (simp add: bit_iff_odd)
  also have "\<dots> \<longleftrightarrow> 2 ^ 63 \<le> unat w"
  proof -
    have "unat w div 2 ^ 63 < 2" using unat_less_64 [of w] by (simp add: div_less_iff_less_mult)
    then have "unat w div 2 ^ 63 = 0 \<or> unat w div 2 ^ 63 = 1" by auto
    then show ?thesis by (auto simp: div_eq_0_iff dest: div_greater_zero_iff [THEN iffD1])
  qed
  finally show ?thesis .
qed

lemma unat_negated:
  assumes "v \<noteq> 0" "v < 2 ^ 64"
  shows "unat (- (of_nat v :: u64)) = 2 ^ 64 - v"
proof -
  have "(of_nat (2 ^ 64 - v) :: u64) = of_nat (2 ^ 64) - of_nat v" by (rule of_nat_diff) (use assms in simp)
  also have "\<dots> = - of_nat v" by simp
  finally have e: "- (of_nat v :: u64) = of_nat (2 ^ 64 - v)" by simp
  show ?thesis unfolding e by (rule unat_of_nat64) (use assms in simp)
qed

lemma positive_iff: "0 <s x \<longleftrightarrow> x \<noteq> 0 \<and> \<not> x <s 0" for x :: u64
proof -
  have "sint x = 0 \<longleftrightarrow> x = 0" by (metis signed_0 signed_word_eqI)
  then show ?thesis unfolding word_sless_alt signed_0 by linarith
qed

lemma of_nat_eq_0_64:
  assumes "v < 2 ^ 64"
  shows "(of_nat v :: u64) = 0 \<longleftrightarrow> v = 0"
proof
  assume "(of_nat v :: u64) = 0"
  then have "unat (of_nat v :: u64) = 0" by (simp only: unat_0)
  then show "v = 0" by (simp only: unat_of_nat64 [OF assms])
next
  assume "v = 0"
  then have "(of_nat v :: u64) = of_nat 0" by (rule arg_cong)
  also have "\<dots> = 0" by (rule semiring_1_class.of_nat_0)
  finally show "(of_nat v :: u64) = 0" .
qed

lemma minus_positive:
  assumes "v < 2 ^ 64"
  shows "0 <s - (of_nat v :: u64) \<longleftrightarrow> 2 ^ 63 < v"
proof (cases "v = 0")
  case False
  have "0 <s - (of_nat v :: u64) \<longleftrightarrow> \<not> 2 ^ 63 \<le> (2 ^ 64 - v :: nat)"
    unfolding positive_iff sless_zero unat_negated [OF False assms] neg_equal_0_iff_equal of_nat_eq_0_64 [OF assms]
    using False by blast
  then show ?thesis using assms by simp linarith
qed simp

lemma dropWhile_Nil: "dropWhile P xs = [] \<longleftrightarrow> list_all P xs"
  by (auto simp: dropWhile_eq_Nil_conv list_all_iff)

lemma takeWhile_all: "list_all P xs \<Longrightarrow> takeWhile P xs = xs"
  by (simp add: list_all_iff takeWhile_eq_all_conv)

lemma consume_whole:
  assumes "Radix \<noteq> 0"
  shows "(case (case consumeUnsignedInteger ds Radix of
         None \<Rightarrow> None
       | Some (ULLVal, Rest) \<Rightarrow> if bad ULLVal then None else Some (f ULLVal, Rest)) of
      None \<Rightarrow> None | Some (Result, Rest) \<Rightarrow> if Rest \<noteq> [] then None else Some Result) =
    (let v = radix_value (unat Radix) 0 ds
     in if ds \<noteq> [] \<and> list_all (is_radix_digit (unat Radix)) ds \<and> v < 2 ^ 64 \<and> \<not> bad (of_nat v)
        then Some (f (of_nat v)) else None)"
proof (cases "list_all (is_radix_digit (unat Radix)) ds")
  case True
  then show ?thesis
    unfolding consumeUnsigned_exact [OF assms] takeWhile_all [OF True] dropWhile_Nil [THEN iffD2, OF True] Let_def
    by simp
next
  case False
  then have "dropWhile (is_radix_digit (unat Radix)) ds \<noteq> []" by (simp only: dropWhile_Nil simp_thms)
  then show ?thesis unfolding consumeUnsigned_exact [OF assms] Let_def using False by simp
qed

text \<open>C39: reading a signed integer in a given radix succeeds exactly on an optional minus sign and digits
  that spell a number of 64 bits, and gives that number; every other string, and every overflow, is
  rejected.\<close>
theorem getAsSignedInteger_exact:
  assumes "Radix \<noteq> 0"
  shows "getAsSignedInteger Str Radix =
    (case spelled (unat Radix) Str of
       None \<Rightarrow> None
     | Some v \<Rightarrow> if - (2 ^ 63) \<le> v \<and> v < 2 ^ 63 then Some (word_of_int v) else None)"
proof (cases "Str \<noteq> [] \<and> hd Str = CHR ''-''")
  case False
  let ?v = "radix_value (unat Radix) 0 Str"
  have nominus: "Str = [] \<or> hd Str \<noteq> CHR ''-''" using False by blast
  have "getAsSignedInteger Str Radix =
      (if Str \<noteq> [] \<and> list_all (is_radix_digit (unat Radix)) Str \<and> ?v < 2 ^ 64 \<and> \<not> (of_nat ?v :: u64) <s 0
       then Some (of_nat ?v) else None)"
    using consume_whole [OF assms, of "\<lambda>w. w <s 0" "\<lambda>w. w" Str, unfolded Let_def]
    unfolding getAsSignedInteger_def consumeSignedInteger_def if_P [OF nominus] .
  also have "?v < 2 ^ 64 \<and> \<not> (of_nat ?v :: u64) <s 0 \<longleftrightarrow> int ?v < 2 ^ 63"
  proof -
    have "int ?v < 2 ^ 63 \<longleftrightarrow> ?v < 2 ^ 63" by (metis of_nat_less_iff of_nat_numeral of_nat_power)
    moreover have "(of_nat ?v :: u64) <s 0 \<longleftrightarrow> 2 ^ 63 \<le> ?v" if "?v < 2 ^ 64"
      using unat_of_nat64 [OF that] by (simp add: sless_zero)
    ultimately show ?thesis by (cases "?v < 2 ^ 64") auto
  qed
  finally show ?thesis
    using False order.trans [of "- (2 ^ 63)" 0 "int ?v"] by (auto simp: spelled_def)
next
  case True
  then obtain ds where ds: "Str = CHR ''-'' # ds" by (cases Str) auto
  let ?v = "radix_value (unat Radix) 0 ds"
  have minus: "\<not> (CHR ''-'' # ds = [] \<or> hd (CHR ''-'' # ds) \<noteq> CHR ''-'')" by simp
  have "getAsSignedInteger Str Radix =
      (if ds \<noteq> [] \<and> list_all (is_radix_digit (unat Radix)) ds \<and> ?v < 2 ^ 64 \<and> \<not> 0 <s - (of_nat ?v :: u64)
       then Some (- of_nat ?v) else None)"
    using consume_whole [OF assms, of "\<lambda>w. 0 <s - w" "\<lambda>w. - w" ds, unfolded Let_def]
    unfolding getAsSignedInteger_def consumeSignedInteger_def if_not_P [OF minus] ds drop_Suc_Cons One_nat_def drop_0 .
  also have "?v < 2 ^ 64 \<and> \<not> 0 <s - (of_nat ?v :: u64) \<longleftrightarrow> - (2 ^ 63) \<le> - int ?v"
  proof -
    have "- (2 ^ 63) \<le> - int ?v \<longleftrightarrow> ?v \<le> 2 ^ 63"
      by (metis neg_le_iff_le of_nat_le_iff of_nat_numeral of_nat_power)
    then show ?thesis by (cases "?v < 2 ^ 64") (auto simp: minus_positive)
  qed
  finally show ?thesis
    using ds order.strict_trans1 [of "- int ?v" 0 "2 ^ 63"] by (auto simp: spelled_def)
qed

lemma getAsSignedInteger_exact_witness:
  "getAsSignedInteger ''-8000000000000000'' 16 = Some 0x8000000000000000 \<and>
   getAsSignedInteger ''8000000000000000'' 16 = None"
proof -
  have "spelled 16 ''-8000000000000000'' = Some (- (2 ^ 63))" "spelled 16 ''8000000000000000'' = Some (2 ^ 63)"
    by (simp_all add: spelled_def is_radix_digit_def char_val_def char_code_def char_le_code radix_value_def)
  then show ?thesis
    using getAsSignedInteger_exact [of 16 "''-8000000000000000''"] getAsSignedInteger_exact [of 16 "''8000000000000000''"]
    by simp
qed

section \<open>Integers of any width\<close>

lemma Log2Radix_ge: "R \<le> 2 ^ Log2Radix R k"
proof (induction R k rule: Log2Radix.induct)
  case (1 R k)
  then show ?case by (cases "2 ^ k < R") (subst Log2Radix.simps, simp)+
qed

lemma or_digit: "d < 2 ^ k \<Longrightarrow> push_bit k v OR d = v * 2 ^ k + d" for d :: nat
proof -
  assume "d < 2 ^ k"
  then have "take_bit k d = d" by (rule take_bit_nat_eq_self)
  then have "n < k" if "bit d n" for n using that by (metis bit_take_bit_iff)
  then have "push_bit k v AND d = 0" by (intro bit_eqI) (auto simp: bit_and_iff bit_push_bit_iff not_le)
  then show ?thesis by (simp add: disjunctive_add_eq_or [symmetric] push_bit_eq_mult)
qed

text \<open>The estimated width is enough for the digits to come.\<close>

lemma ap_digits_exact:
  assumes "R \<le> 2 ^ L" "0 < R" "(v + 1) * 2 ^ (L * length Str) \<le> 2 ^ W" "pow2 \<longleftrightarrow> 2 ^ L = R"
  shows "ap_digits W R L pow2 Str v =
    (radix_value R v (takeWhile (is_radix_digit R) Str), dropWhile (is_radix_digit R) Str)"
  using assms(3)
proof (induction Str arbitrary: v)
  case Nil
  then show ?case by (simp add: radix_value_def)
next
  case (Cons c Str)
  show ?case
  proof (cases "is_radix_digit R c")
    case False
    then show ?thesis by (auto simp: is_radix_digit_def radix_value_def split: option.splits)
  next
    case True
    then obtain d where d: "char_val c = Some d" "d < R" by (auto simp: is_radix_digit_def split: option.splits)
    let ?n = "L * length Str" and ?w = "v * R + d"
    have dl: "d < 2 ^ L" using d(2) assms(1) by simp
    have "?w + 1 \<le> (v + 1) * R" using d(2) by simp
    also have "\<dots> \<le> (v + 1) * 2 ^ L" using assms(1) by (rule mult_le_mono2)
    finally have "(?w + 1) * 2 ^ ?n \<le> (v + 1) * 2 ^ L * 2 ^ ?n" by (rule mult_le_mono1)
    also have "\<dots> = (v + 1) * 2 ^ (L * length (c # Str))" by (simp only: length_Cons mult_Suc_right power_add mult.assoc)
    also have "\<dots> \<le> 2 ^ W" by (rule Cons.prems)
    finally have fit: "(?w + 1) * 2 ^ ?n \<le> 2 ^ W" .
    have w: "?w < 2 ^ W"
    proof -
      have "(?w + 1) * 1 \<le> (?w + 1) * 2 ^ ?n" by (intro mult_le_mono2) simp
      from le_trans [OF this fit] show ?thesis by simp
    qed
    have step: "(if pow2 then take_bit W (take_bit W (push_bit L v) OR d)
        else take_bit W (take_bit W (v * take_bit W R) + take_bit W d)) = ?w"
    proof (cases pow2)
      case True
      then have R: "2 ^ L = R" using assms(4) by simp
      have "push_bit L v \<le> ?w" using R by (simp add: push_bit_eq_mult)
      then have "take_bit W (push_bit L v) = push_bit L v" using w by (intro take_bit_nat_eq_self) simp
      then show ?thesis using True or_digit [OF dl, of v] w R by (simp add: take_bit_nat_eq_self)
    next
      case False
      have "take_bit W ?w = ?w" using w by (rule take_bit_nat_eq_self)
      then show ?thesis using False by (simp add: take_bit_eq_mod mod_simps)
    qed
    show ?thesis using d True Cons.IH [OF fit] step by simp
  qed
qed

lemma radix_value_zeros: "\<forall>c \<in> set zs. c = CHR ''0'' \<Longrightarrow> radix_value R 0 (zs @ ds) = radix_value R 0 ds"
  by (induction zs) (simp_all add: radix_value_def char_val_def char_code_def)

text \<open>Reading into an \<open>APInt\<close> never loses a digit, whatever width it starts with.\<close>

lemma consumeInteger_APInt_exact:
  assumes "2 \<le> unat Radix"
  shows "let ds = takeWhile (is_radix_digit (unat Radix)) s in
    if ds = [] then consumeInteger_APInt width s Radix = None
    else \<exists>W. consumeInteger_APInt width s Radix =
      Some (W, radix_value (unat Radix) 0 ds, dropWhile (is_radix_digit (unat Radix)) s)"
proof -
  let ?R = "unat Radix"
  define zs where "zs = takeWhile (\<lambda>c. c = CHR ''0'') s"
  define t where "t = dropWhile (\<lambda>c. c = CHR ''0'') s"
  have s: "s = zs @ t" by (simp add: zs_def t_def)
  have zero: "\<forall>c \<in> set zs. c = CHR ''0''" by (auto simp: zs_def dest: set_takeWhileD)
  have dz: "is_radix_digit ?R (CHR ''0'')" using assms by (simp add: is_radix_digit_def char_val_def char_code_def)
  have zd: "is_radix_digit ?R x" if "x \<in> set zs" for x using zero dz that by auto
  have tw: "takeWhile (is_radix_digit ?R) s = zs @ takeWhile (is_radix_digit ?R) t"
    "dropWhile (is_radix_digit ?R) s = dropWhile (is_radix_digit ?R) t"
    unfolding s by (rule takeWhile_append2 [OF zd] dropWhile_append2 [OF zd], assumption)+
  have nz: "Radix \<noteq> 0" using assms by auto
  show ?thesis
  proof (cases "t = []")
    case True
    then have z: "takeWhile (is_radix_digit ?R) s = s" "dropWhile (is_radix_digit ?R) s = []" "zs = s"
      using tw s by simp_all
    have "radix_value ?R 0 s = 0" using radix_value_zeros [OF zero, of ?R "[]"] by (simp add: z radix_value_def)
    then show ?thesis using True unfolding Let_def z consumeInteger_APInt_def if_not_P [OF nz] t_def by auto
  next
    case False
    let ?L = "Log2Radix ?R 0"
    define W where "W = (if ?L * length t < width then width else ?L * length t)"
    have "(0 + 1) * (2 :: nat) ^ (?L * length t) \<le> 2 ^ W"
      unfolding add_0 mult_1 by (intro power_increasing) (auto simp: W_def)
    then have ap: "ap_digits W ?R ?L (2 ^ ?L = ?R) t 0 =
        (radix_value ?R 0 (takeWhile (is_radix_digit ?R) t), dropWhile (is_radix_digit ?R) t)"
      using assms by (intro ap_digits_exact Log2Radix_ge) auto
    have res: "consumeInteger_APInt width s Radix =
        (if length s = length (dropWhile (is_radix_digit ?R) t) then None
         else Some (W, radix_value ?R 0 (takeWhile (is_radix_digit ?R) t), dropWhile (is_radix_digit ?R) t))"
    proof -
      have "s \<noteq> []" using False s by simp
      then show ?thesis
        by (simp only: consumeInteger_APInt_def nz Let_def prod.case if_False t_def [symmetric] False W_def [symmetric] ap)
    qed
    have "length s = length (dropWhile (is_radix_digit ?R) t) \<longleftrightarrow> takeWhile (is_radix_digit ?R) s = []"
    proof -
      have "length (takeWhile (is_radix_digit ?R) s) + length (dropWhile (is_radix_digit ?R) s) = length s"
        by (metis length_append takeWhile_dropWhile_id)
      then show ?thesis using tw(2) by auto
    qed
    then show ?thesis unfolding Let_def res tw radix_value_zeros [OF zero] by auto
  qed
qed

text \<open>With a sensed radix, a prefix without digits is consumed and read as 0, where the fixed-width
  reader rejects the string.\<close>

lemma consumeInteger_APInt_prefix:
  "consumeInteger_APInt 64 ''0xg'' 0 = Some (64, 0, ''g'') \<and> consumeUnsignedInteger ''0xg'' 0 = None"
  by code_simp

end
