(* ===== verification/EditDistance.thy ===== *)
theory EditDistance
  imports StringSearch
begin

text \<open>
  The edit distance. The table of the dynamic program is the recursion on the last characters of two
  prefixes, which is the smallest number of edits; a row never has a smaller minimum than the row
  above, which is why the routine may stop at a row beyond the limit.
\<close>

section \<open>Edits\<close>

text \<open>Turning a sequence into another with a number of edits: an element may be kept if the map does not
  tell it from the new one, inserted, removed, or replaced where that is allowed.\<close>

inductive edits :: "bool \<Rightarrow> ('a \<Rightarrow> 'b) \<Rightarrow> nat \<Rightarrow> 'a list \<Rightarrow> 'a list \<Rightarrow> bool" for r f where
  none: "edits r f 0 [] []"
| keep: "f a = f b \<Longrightarrow> edits r f n xs ys \<Longrightarrow> edits r f n (a # xs) (b # ys)"
| insert: "edits r f n xs ys \<Longrightarrow> edits r f (Suc n) xs (b # ys)"
| remove: "edits r f n xs ys \<Longrightarrow> edits r f (Suc n) (a # xs) ys"
| replace: "r \<Longrightarrow> edits r f n xs ys \<Longrightarrow> edits r f (Suc n) (a # xs) (b # ys)"

fun lev :: "bool \<Rightarrow> ('a \<Rightarrow> 'b) \<Rightarrow> 'a list \<Rightarrow> 'a list \<Rightarrow> nat" where
  "lev r f [] ys = length ys"
| "lev r f (a # xs) [] = Suc (length xs)"
| "lev r f (a # xs) (b # ys) =
    (if r then min (lev r f xs ys + (if f a = f b then 0 else 1)) (min (lev r f (a # xs) ys) (lev r f xs (b # ys)) + 1)
     else if f a = f b then lev r f xs ys
     else min (lev r f (a # xs) ys) (lev r f xs (b # ys)) + 1)"

lemma lev_Nil2 [simp]: "lev r f xs [] = length xs"
  by (cases xs) simp_all

lemma edits_insert_all: "edits r f (length ys) [] ys"
  by (induction ys) (auto intro: edits.intros)

lemma edits_remove_all: "edits r f (length xs) xs []"
  by (induction xs) (auto intro: edits.intros)

lemma edits_lev: "edits r f (lev r f xs ys) xs ys"
proof (induction r f xs ys rule: lev.induct)
  case (3 r f a xs b ys)
  let ?k = "min (lev r f (a # xs) ys) (lev r f xs (b # ys))"
  have k: "edits r f (Suc ?k) (a # xs) (b # ys)" if "edits r f (lev r f (a # xs) ys) (a # xs) ys" "edits r f (lev r f xs (b # ys)) xs (b # ys)"
    using that by (auto simp: min_def intro: edits.intros)
  show ?case
  proof (cases r)
    case True
    then have "edits r f (lev r f xs ys + (if f a = f b then 0 else 1)) (a # xs) (b # ys)"
      using "3.IH"(1) by (auto intro: edits.intros)
    moreover have "edits r f (Suc ?k) (a # xs) (b # ys)" using "3.IH"(2,3) True k by blast
    ultimately show ?thesis using True by (simp add: min_def split: if_splits)
  next
    case False
    then show ?thesis using 3 k by (auto intro: edits.keep)
  qed
qed (auto simp: edits_insert_all intro: edits_remove_all [of _ _ "_ # _", simplified])

text \<open>One more element changes the distance by at most one.\<close>

lemma lev_neighbours:
  "lev r f (a # xs) ys \<le> Suc (lev r f xs ys) \<and> lev r f xs ys \<le> Suc (lev r f (a # xs) ys) \<and>
   lev r f xs (b # ys) \<le> Suc (lev r f xs ys) \<and> lev r f xs ys \<le> Suc (lev r f xs (b # ys))"
proof (induction "length xs + length ys" arbitrary: xs ys a b rule: less_induct)
  case less
  have A: "lev r f (a # xs) ys \<le> Suc (lev r f xs ys) \<and> lev r f xs ys \<le> Suc (lev r f (a # xs) ys)" for a
  proof (cases ys)
    case (Cons d zs)
    have "lev r f xs zs \<le> Suc (lev r f xs (d # zs)) \<and> lev r f xs (d # zs) \<le> Suc (lev r f xs zs)"
      "lev r f xs zs \<le> Suc (lev r f (a # xs) zs) \<and> lev r f (a # xs) zs \<le> Suc (lev r f xs zs)"
      using less [of xs zs a d] Cons by simp_all
    then show ?thesis using Cons by auto
  qed simp
  have B: "lev r f xs (b # ys) \<le> Suc (lev r f xs ys) \<and> lev r f xs ys \<le> Suc (lev r f xs (b # ys))" for b
  proof (cases xs)
    case (Cons c zs)
    have "lev r f zs ys \<le> Suc (lev r f (c # zs) ys) \<and> lev r f (c # zs) ys \<le> Suc (lev r f zs ys)"
      "lev r f zs ys \<le> Suc (lev r f zs (b # ys)) \<and> lev r f zs (b # ys) \<le> Suc (lev r f zs ys)"
      using less [of zs ys c b] Cons by simp_all
    then show ?thesis using Cons by auto
  qed simp
  show ?case using A B by blast
qed

lemma lev_least: "edits r f n xs ys \<Longrightarrow> lev r f xs ys \<le> n"
proof (induction rule: edits.induct)
  case (keep a b n xs ys)
  then show ?case by auto
next
  case (insert n xs ys b)
  then show ?case using lev_neighbours [of r f _ xs ys b] by (meson Suc_le_mono le_trans)
next
  case (remove n xs ys a)
  then show ?case using lev_neighbours [of r f a xs ys] by (meson Suc_le_mono le_trans)
next
  case (replace n xs ys a b)
  then show ?case by auto
qed simp

lemma edits_append: "edits r f n xs ys \<Longrightarrow> edits r f k us vs \<Longrightarrow> edits r f (n + k) (xs @ us) (ys @ vs)"
  by (induction rule: edits.induct) (auto intro: edits.intros)

lemma edits_rev: "edits r f n xs ys \<Longrightarrow> edits r f n (rev xs) (rev ys)"
proof (induction rule: edits.induct)
  case (keep a b n xs ys)
  have "edits r f (n + 0) (rev xs @ [a]) (rev ys @ [b])"
    by (rule edits_append [OF keep.IH]) (use keep.hyps in \<open>auto intro: edits.intros\<close>)
  then show ?case by simp
next
  case (insert n xs ys b)
  have "edits r f (n + Suc 0) (rev xs @ []) (rev ys @ [b])"
    by (rule edits_append [OF insert.IH]) (auto intro: edits.intros)
  then show ?case by simp
next
  case (remove n xs ys a)
  have "edits r f (n + Suc 0) (rev xs @ [a]) (rev ys @ [])"
    by (rule edits_append [OF remove.IH]) (auto intro: edits.intros)
  then show ?case by simp
next
  case (replace n xs ys a b)
  have "edits r f (n + Suc 0) (rev xs @ [a]) (rev ys @ [b])"
    by (rule edits_append [OF replace.IH]) (use replace.hyps in \<open>auto intro: edits.intros\<close>)
  then show ?case by simp
qed (auto intro: edits.intros)

lemma lev_bounds: "lev r f xs ys \<le> length xs + length ys" "length xs \<le> lev r f xs ys + length ys" "length ys \<le> lev r f xs ys + length xs"
  by (induction r f xs ys rule: lev.induct) (auto simp: min_def)

section \<open>The table\<close>

definition edit_table :: "bool \<Rightarrow> ('a \<Rightarrow> 'b) \<Rightarrow> 'a list \<Rightarrow> 'a list \<Rightarrow> nat \<Rightarrow> nat \<Rightarrow> nat" where
  "edit_table r f F T y x = lev r f (rev (take y F)) (rev (take x T))"

lemma edit_table_step:
  assumes "y < length F" "x < length T"
  shows "edit_table r f F T (Suc y) (Suc x) =
    (if r then min (edit_table r f F T y x + (if f (F ! y) = f (T ! x) then 0 else 1))
        (min (edit_table r f F T (Suc y) x) (edit_table r f F T y (Suc x)) + 1)
     else if f (F ! y) = f (T ! x) then edit_table r f F T y x
     else min (edit_table r f F T (Suc y) x) (edit_table r f F T y (Suc x)) + 1)"
  using assms by (simp add: edit_table_def take_Suc_conv_app_nth)

lemma edit_table_edges:
  "x \<le> length T \<Longrightarrow> edit_table r f F T 0 x = x" "y \<le> length F \<Longrightarrow> edit_table r f F T y 0 = y"
  by (simp_all add: edit_table_def)

lemma edit_table_le: "edit_table r f F T y x \<le> y + x"
  using lev_bounds(1) [of r f "rev (take y F)" "rev (take x T)"] by (simp add: edit_table_def min_def split: if_splits)

lemma min_of_nat32: "a < 2 ^ 32 \<Longrightarrow> b < 2 ^ 32 \<Longrightarrow> min (of_nat a) (of_nat b :: u32) = of_nat (min a b)"
  using unat_of_nat32 [of a] unat_of_nat32 [of b] by (auto simp: min_def word_le_nat_alt)

lemma entry_of_nat:
  assumes "p < 2 ^ 31" "q < 2 ^ 31" "s < 2 ^ 31" "d \<le> 1"
  shows "min (of_nat p + of_nat d) (min (of_nat q) (of_nat s) + 1 :: u32) = of_nat (min (p + d) (min q s + 1))"
    "min (of_nat q) (of_nat s) + (1 :: u32) = of_nat (min q s + 1)"
proof -
  show "min (of_nat q) (of_nat s) + (1 :: u32) = of_nat (min q s + 1)"
    using assms by (simp add: min_of_nat32)
  then have "min (of_nat p + of_nat d) (min (of_nat q) (of_nat s) + 1 :: u32) = min (of_nat (p + d)) (of_nat (min q s + 1))"
    by (simp only: of_nat_add)
  also have "\<dots> = of_nat (min (p + d) (min q s + 1))" using assms by (intro min_of_nat32) auto
  finally show "min (of_nat p + of_nat d) (min (of_nat q) (of_nat s) + 1 :: u32) = of_nat (min (p + d) (min q s + 1))" .
qed

text \<open>The row in the middle of an iteration: new up to \<open>x\<close>, old from there on.\<close>

definition mixed_row :: "bool \<Rightarrow> ('a \<Rightarrow> 'b) \<Rightarrow> 'a list \<Rightarrow> 'a list \<Rightarrow> nat \<Rightarrow> nat \<Rightarrow> u32 list" where
  "mixed_row r f F T y x =
    map (\<lambda>j. of_nat (edit_table r f F T (if j < x then Suc y else y) j)) [0..<length T + 1]"

lemma mixed_row_nth: "j \<le> length T \<Longrightarrow> mixed_row r f F T y x ! j = of_nat (edit_table r f F T (if j < x then Suc y else y) j)"
  unfolding mixed_row_def by (subst nth_map) (simp_all del: upt_Suc)

lemma mixed_row_update:
  "x \<le> length T \<Longrightarrow> (mixed_row r f F T y x)[x := of_nat (edit_table r f F T (Suc y) x)] = mixed_row r f F T y (Suc x)"
  by (rule nth_equalityI) (auto simp: mixed_row_nth nth_list_update less_Suc_eq mixed_row_def simp del: upt_Suc)

definition row_min :: "bool \<Rightarrow> ('a \<Rightarrow> 'b) \<Rightarrow> 'a list \<Rightarrow> 'a list \<Rightarrow> nat \<Rightarrow> nat \<Rightarrow> nat" where
  "row_min r f F T y x = Min (edit_table r f F T y ` {..<x})"

lemma row_min_Suc: "0 < x \<Longrightarrow> row_min r f F T y (Suc x) = min (row_min r f F T y x) (edit_table r f F T y x)"
  unfolding row_min_def lessThan_Suc image_insert by (subst Min_insert) (auto simp: min.commute)

lemma row_min_le: "j < x \<Longrightarrow> row_min r f F T y x \<le> edit_table r f F T y j"
  by (simp add: row_min_def)

lemma row_min_bound: "0 < x \<Longrightarrow> row_min r f F T y x \<le> y"
  using row_min_le [of 0 x r f F T y] edit_table_le [of r f F T y 0] by simp

lemma edit_row_table:
  assumes "y < length F" "length F + length T < 2 ^ 31" "1 \<le> x" "x \<le> length T + 1"
  shows "edit_row r f (f (F ! y)) (drop (x - 1) T) x (mixed_row r f F T y x) (of_nat (edit_table r f F T y (x - 1)))
      (of_nat (row_min r f F T (Suc y) x)) =
    (mixed_row r f F T y (length T + 1), of_nat (row_min r f F T (Suc y) (length T + 1)))"
  using assms(3,4)
proof (induction "length T + 1 - x" arbitrary: x)
  case 0
  then show ?case by simp
next
  case (Suc k)
  define i where "i = x - 1"
  have x: "x = Suc i" "i < length T" using Suc by (simp_all add: i_def)
  let ?D = "edit_table r f F T"
  have small: "?D u v < 2 ^ 31" if "u \<le> Suc y" "v \<le> length T" for u v
    using edit_table_le [of r f F T u v] that assms(1,2) by linarith
  have m: "row_min r f F T (Suc y) x < 2 ^ 32" "?D (Suc y) x < 2 ^ 32"
    using row_min_bound [of x r f F T "Suc y"] small [of "Suc y" x] x assms(1,2) by auto
  have d: "drop i T = T ! i # drop x T"
    using x by (simp add: Cons_nth_drop_Suc)
  have n: "mixed_row r f F T y x ! x = of_nat (?D y x)" "mixed_row r f F T y x ! i = of_nat (?D (Suc y) i)"
    using x by (simp_all add: mixed_row_nth)
  have z: "(if P then 0 else 1 :: u32) = of_nat (if P then 0 else 1)" for P by simp
  have entry: "(if r then min (of_nat (?D y i) + (if f (F ! y) = f (T ! i) then 0 else 1)) (min (of_nat (?D (Suc y) i)) (of_nat (?D y x)) + 1)
       else if f (F ! y) = f (T ! i) then of_nat (?D y i)
       else min (of_nat (?D (Suc y) i)) (of_nat (?D y x)) + 1) = (of_nat (?D (Suc y) x) :: u32)"
  proof -
    have s: "?D y i < 2 ^ 31" "?D (Suc y) i < 2 ^ 31" "?D y x < 2 ^ 31"
      by (rule small; use x in simp)+
    have le1: "(if P then 0 else 1) \<le> (1 :: nat)" for P by simp
    note step = edit_table_step [OF assms(1) x(2), of r f, folded x(1)]
    show ?thesis
    proof (cases r)
      case True
      show ?thesis unfolding z entry_of_nat(1) [OF s le1] step if_P [OF True] ..
    next
      case False
      show ?thesis unfolding entry_of_nat(2) [OF s order_refl] step if_not_P [OF False] by (rule if_distrib [symmetric])
    qed
  qed
  have "edit_row r f (f (F ! y)) (drop (x + 1 - 1) T) (x + 1) (mixed_row r f F T y (x + 1)) (of_nat (?D y (x + 1 - 1)))
      (of_nat (row_min r f F T (Suc y) (x + 1))) =
    (mixed_row r f F T y (length T + 1), of_nat (row_min r f F T (Suc y) (length T + 1)))"
    by (rule Suc.hyps(1)) (use Suc x in auto)
  note IH = this [unfolded add_diff_cancel_right']
  have best: "min (of_nat (row_min r f F T (Suc y) x)) (of_nat (?D (Suc y) x) :: u32) = of_nat (row_min r f F T (Suc y) (x + 1))"
    using m x by (simp add: row_min_Suc min_of_nat32)
  have upd: "(mixed_row r f F T y x)[x := of_nat (?D (Suc y) x)] = mixed_row r f F T y (x + 1)"
    using mixed_row_update [of x T r f F y] x by simp
  show ?case
    unfolding d edit_row.simps Let_def i_def [symmetric] n entry upd best by (rule IH)
qed

text \<open>No entry of a row is below the minimum of the row above.\<close>

lemma row_min_mono:
  assumes "y < length F" "j \<le> length T"
  shows "row_min r f F T y (length T + 1) \<le> edit_table r f F T (Suc y) j"
  using assms(2)
proof (induction j)
  case 0
  have "row_min r f F T y (length T + 1) \<le> y" by (rule row_min_bound) simp
  then show ?case using edit_table_edges(2) [of "Suc y" F r f T] assms(1) by simp
next
  case (Suc j)
  have "row_min r f F T y (length T + 1) \<le> edit_table r f F T y j" "row_min r f F T y (length T + 1) \<le> edit_table r f F T y (Suc j)"
    using Suc.prems by (auto intro: row_min_le)
  then show ?case
    using Suc edit_table_step [OF assms(1), of j T r f] by (auto simp: min_def)
qed

lemma row_min_below:
  "y \<le> k \<Longrightarrow> k \<le> length F \<Longrightarrow> row_min r f F T y (length T + 1) \<le> row_min r f F T k (length T + 1)"
proof (induction k rule: dec_induct)
  case (step k)
  have "row_min r f F T k (length T + 1) \<le> row_min r f F T (Suc k) (length T + 1)"
    unfolding row_min_def [of r f F T "Suc k"]
    by (rule Min.boundedI) (use step.prems row_min_mono [of k F _ T r f] in auto)
  then show ?case using step by simp
qed simp

lemma edit_rows_table:
  assumes "length F + length T < 2 ^ 31" "y \<le> length F"
  shows "\<exists>d. d = edit_table r f F T (length F) (length T) \<and>
    (let res = edit_rows r f limit T (drop y F) (y + 1) (mixed_row r f F T y 0) in
     if limit = 0 \<or> d \<le> unat limit then res = of_nat d else res = of_nat d \<or> res = limit + 1)"
  using assms(2)
proof (induction "length F - y" arbitrary: y)
  case 0
  then have "y = length F" by simp
  then show ?case by (simp add: mixed_row_nth)
next
  case (Suc k)
  let ?D = "edit_table r f F T"
  have y: "y < length F" using Suc by simp
  have d: "drop y F = F ! y # drop (y + 1) F" using y by (simp add: Cons_nth_drop_Suc)
  have row0: "(mixed_row r f F T y 0)[0 := of_nat (y + 1)] = mixed_row r f F T y 1"
    using mixed_row_update [of 0 T r f F y] edit_table_edges(2) [of "Suc y" F r f T] y by simp
  have best0: "mixed_row r f F T y 1 ! 0 = of_nat (row_min r f F T (Suc y) 1)"
    by (simp add: mixed_row_nth row_min_def lessThan_Suc)
  have prev: "of_nat (y + 1 - 1) = (of_nat (?D y (1 - 1)) :: u32)" using edit_table_edges(2) [of y F r f T] y by simp
  have row: "edit_row r f (f (F ! y)) T 1 (mixed_row r f F T y 1) (of_nat (y + 1 - 1)) (mixed_row r f F T y 1 ! 0) =
      (mixed_row r f F T y (length T + 1), of_nat (row_min r f F T (Suc y) (length T + 1)))"
    unfolding best0 prev using edit_row_table [OF y assms(1), of 1 r f] by simp
  have next_row: "mixed_row r f F T y (length T + 1) = mixed_row r f F T (y + 1) 0"
    unfolding mixed_row_def by (rule map_cong) auto
  let ?best = "row_min r f F T (Suc y) (length T + 1)"
  have eq: "edit_rows r f limit T (drop y F) (y + 1) (mixed_row r f F T y 0) =
      (if limit \<noteq> 0 \<and> of_nat ?best > limit then limit + 1
       else edit_rows r f limit T (drop (y + 1) F) (y + 1 + 1) (mixed_row r f F T (y + 1) 0))"
    unfolding d edit_rows.simps Let_def row0 row next_row by simp
  show ?case
  proof (cases "limit \<noteq> 0 \<and> of_nat ?best > limit")
    case True
    have "?best < 2 ^ 32" using row_min_bound [of "length T + 1" r f F T "Suc y"] y assms(1) by simp
    then have "unat limit < ?best" using True unat_of_nat32 [of ?best] by (simp add: word_less_nat_alt)
    also have "\<dots> \<le> row_min r f F T (length F) (length T + 1)" by (rule row_min_below) (use y in auto)
    also have "\<dots> \<le> ?D (length F) (length T)" by (rule row_min_le) simp
    finally show ?thesis using True eq by (simp add: Let_def)
  next
    case False
    show ?thesis unfolding eq if_not_P [OF False]
      by (rule Suc.hyps(1)) (use Suc.hyps(2) y in auto)
  qed
qed

section \<open>The smallest number of edits\<close>

text \<open>C40: the routine returns the smallest number of insertions, removals and, where allowed, replacements
  that turn the first sequence into the second, as the map tells elements apart; with a limit it does
  so whenever that number is within the limit, and beyond it returns that number or the limit plus
  one.\<close>
theorem edit_distance_least:
  assumes "length From + length To < 2 ^ 31"
  shows "\<exists>d. edits AllowReplacements f d From To \<and> (\<forall>k. edits AllowReplacements f k From To \<longrightarrow> d \<le> k) \<and>
    (let res = unat (ComputeMappedEditDistance From To f AllowReplacements limit) in
     if limit = 0 \<or> d \<le> unat limit then res = d else res = d \<or> res = unat limit + 1)"
proof -
  define d where "d = edit_table AllowReplacements f From To (length From) (length To)"
  have d: "d = lev AllowReplacements f (rev From) (rev To)" by (simp add: d_def edit_table_def)
  have least: "edits AllowReplacements f d From To" "\<forall>k. edits AllowReplacements f k From To \<longrightarrow> d \<le> k"
    using edits_rev [OF edits_lev [of AllowReplacements f "rev From" "rev To"]]
    by (auto simp: d intro: lev_least [OF edits_rev])
  have small: "d < 2 ^ 31" using edit_table_le [of AllowReplacements f From To "length From" "length To"] assms by (simp add: d_def)
  then have ud: "unat (of_nat d :: u32) = d" by (intro unat_of_nat32) simp
  have diff: "length From \<le> d + length To" "length To \<le> d + length From"
    using lev_bounds(2,3) [where r = AllowReplacements and f = f and xs = "rev From" and ys = "rev To"]
    by (simp_all add: d)
  have next_up: "unat (limit + 1) = unat limit + 1" if "unat limit < d"
    using that small by (simp add: unat_word_ariths)
  let ?res = "ComputeMappedEditDistance From To f AllowReplacements limit"
  have row0: "map of_nat [0..<length To + 1] = mixed_row AllowReplacements f From To 0 0"
    unfolding mixed_row_def by (rule map_cong) (auto simp: edit_table_edges)
  let ?far = "limit \<noteq> 0 \<and> (if length From > length To then length From - length To else length To - length From) > unat limit"
  have "if limit = 0 \<or> d \<le> unat limit then ?res = of_nat d else ?res = of_nat d \<or> ?res = limit + 1"
  proof (cases ?far)
    case True
    then have "?res = limit + 1" by (simp add: ComputeMappedEditDistance_def Let_def)
    moreover have "\<not> d \<le> unat limit" using True diff by (auto split: if_splits)
    ultimately show ?thesis using True by simp
  next
    case False
    then have "?res = edit_rows AllowReplacements f limit To From 1 (mixed_row AllowReplacements f From To 0 0)"
      unfolding ComputeMappedEditDistance_def Let_def row0 by (rule if_not_P)
    then show ?thesis using edit_rows_table [OF assms, of 0 AllowReplacements f limit] by (simp add: d_def Let_def)
  qed
  then show ?thesis using least ud next_up
    by (intro exI [of _ d]) (auto simp: Let_def split: if_splits)
qed

lemma edit_distance_least_witness:
  "\<exists>d. edits True (\<lambda>c. c) d ''kitten'' ''sitting'' \<and> edit_distance ''kitten'' ''sitting'' True 0 = 3 \<and> d = 3"
proof -
  have "edit_distance ''kitten'' ''sitting'' True 0 = 3" by code_simp
  then show ?thesis
    using edit_distance_least [of "''kitten''" "''sitting''" True "\<lambda>c. c" 0] by (auto simp: edit_distance_def)
qed

text \<open>Beyond the limit the routine need not return the limit plus one: here the limit is 2 and the result
  is the distance, 4.\<close>

lemma edit_distance_beyond_limit: "edit_distance ''aabb'' ''bbcc'' True 2 = 4"
  by code_simp

end
