(* ===== verification/Spec2Isabelle.thy ===== *)
theory Spec2Isabelle
  imports MathFacts LEB128 MatIntSound RVFinalize RVGPSound ISAProps RVAttributesSound AsmDwarfSound AsmLayoutSound StringSearchSound EditDistance
begin

text \<open>
  A verification library for the RISC-V object-code path of this LLVM tree: how a constant becomes
  instructions, how an instruction with an open operand becomes bytes, fixups and relocations, how the
  linker patches, shortens and rewrites the code, and how the ISA strings and build attributes that
  select between these are parsed, completed, merged and printed, down to the string operations they use.

  \<^bold>\<open>The parts and how they interact.\<close> The code generator calls \<open>RISCVMatInt::generateInstSeq\<close> for a
  sequence of instructions; \<open>RISCVInstrInfo::movImm\<close> emits it. The assembler
  (\<open>MCAssembler::layout\<close>) lays the fragments of a section out, asks \<open>RISCVAsmBackend\<close> whether a fixup
  forces a branch to be relaxed, applies the fixups it can resolve and turns the others into relocations
  with \<open>RISCVELFObjectWriter::getRelocType\<close>. The linker (\<open>lld/ELF/Arch/RISCV.cpp\<close>) applies relocations
  with \<open>RISCV::relocate\<close>; before that it may shorten code: \<open>initSymbolAnchors\<close> collects where symbols
  start and end, \<open>relaxOnce\<close> decides per relocation how many bytes to drop and moves the symbols, and
  \<open>finalizeRelax\<close> rewrites contents and relocations. \<open>RISCVGP.cpp\<close> chooses the global pointer, which the
  decisions of \<open>relax\<close> read. \<open>RISCVISAInfo\<close> turns an architecture string into a map from extensions to
  versions and back; the linker uses it to merge the architecture attribute of its inputs, which
  \<open>ELFAttributeParser\<close> reads and \<open>RISCVAttributesSection::writeTo\<close> writes. All of them rest on the bit
  and integer helpers of \<open>MathExtras.h\<close> and \<open>bit.h\<close>, and several on the LEB128 code.

  \<^bold>\<open>Which theory models what.\<close> A theory with the name of a part holds its state and operations in the
  order of the source; the theory with \<open>Sound\<close>, \<open>Facts\<close>, \<open>Finalize\<close> or \<open>Props\<close> in its name proves what
  they promise. Definitions keep the names of the source; the paths are under \<open>src/\<close>.

  \<^item> \<open>Prelude\<close>: names of the machine integers, lemma collections, generic facts.
  \<^item> \<open>MathExtras\<close>, \<open>MathFacts\<close>: \<open>llvm/include/llvm/Support/MathExtras.h\<close>, \<open>llvm/include/llvm/ADT/bit.h\<close>.
    The counters are the positions of the extreme set bits on the builtin and on the bisection path;
    rounding, sign extension, rotation and the saturating and checked arithmetic are the operations on
    the integers.
  \<^item> \<open>LEB128\<close>: \<open>llvm/include/llvm/Support/LEB128.h\<close> and \<open>llvm/lib/Support/LEB128.cpp\<close>. Round trips of both
    encodings, what a successful decode means, and when a decoder shifts too far.
  \<^item> \<open>MatInt\<close>, \<open>MatIntSound\<close>: \<open>llvm/lib/Target/RISCV/MCTargetDesc/RISCVMatInt.cpp\<close> and
    \<open>RISCVInstrInfo::movImm\<close>. The locale \<open>seq_generator\<close> states what a generator of sequences promises and
    is interpreted on \<open>generateInstSeqImpl\<close>; each optimisation step keeps the promise. Running the
    emitted code on a register file leaves the constant in the destination, for RV32 and RV64.
  \<^item> \<open>RVReloc\<close>, \<open>RVRelocSound\<close>: the first half of \<open>lld/ELF/Arch/RISCV.cpp\<close>. The locale \<open>field_patcher\<close>,
    interpreted on the four jump and branch encoders, gives what \<open>relocate\<close> leaves in an instruction, read
    back by decoders written from the RISC-V specification.
  \<^item> \<open>RVRelax\<close>, \<open>RVRelaxSound\<close>, \<open>RVFinalize\<close>: the second half of that file. The abstract view of a pass is
    the list of bytes dropped before an offset; the anchors, the deltas and the rewriting are proved to
    agree with it (a refinement), and the assertions of \<open>finalizeRelax\<close> never fail on what \<open>relax\<close> left.
    The range of a shortened call is stated over the symbol table the pass has computed when it reaches
    the call (\<open>moved_symbols\<close>), which is the final one in a pass that changes nothing.
  \<^item> \<open>RVGP\<close>, \<open>RVGPSound\<close>: \<open>lld/ELF/RISCVGP.cpp\<close>. The sliding window finds the maximum over all addresses.
  \<^item> \<open>Strings\<close>: what the parser uses of \<open>llvm/lib/Support/StringRef.cpp\<close>, \<open>llvm/ADT/StringRef.h\<close> and
    \<open>llvm/lib/Support/NativeFormatting.cpp\<close>.
  \<^item> \<open>StringSearch\<close>, \<open>StringSearchSound\<close>, \<open>EditDistance\<close>: the rest of \<open>StringRef.cpp\<close> and
    \<open>llvm/ADT/edit_distance.h\<close>. Every search gives the first or last position of its predicate, the
    skipping search for a string included; the locale \<open>separator_search\<close>, interpreted on the search for a
    string and for a character, gives the two overloads of \<open>split\<close>; reading integers is exact; the
    dynamic program is the smallest number of edits.
  \<^item> \<open>ISATables\<close>, \<open>ISAInfo\<close>, \<open>ISAInfoSound\<close>, \<open>ISAProps\<close>: \<open>llvm/lib/Support/RISCVISAInfo.cpp\<close>. The locale
    \<open>sorted_table\<close>, interpreted on the three tables, gives the binary searches. Completing a description
    is the least map closed under the tables; a parsed description is supported, complete and free of
    conflicts; it survives printing and reading.
  \<^item> \<open>ELFAttributes\<close>, \<open>RVAttributes\<close>, \<open>RVAttributesSound\<close>: \<open>llvm/lib/Support/ELFAttributeParser.cpp\<close>, the cursor
    of \<open>DataExtractor.cpp\<close>, \<open>RISCVAttributeParser.cpp\<close>, and the merging and writing of attributes in
    \<open>lld/ELF/Arch/RISCV.cpp\<close>. What is written reads back, merging is a join, and the parser ends.
  \<^item> \<open>AsmBackend\<close>, \<open>AsmBackendSound\<close>, \<open>AsmDwarfSound\<close>:
    \<open>llvm/lib/Target/RISCV/MCTargetDesc/RISCVAsmBackend.cpp\<close>, \<open>RISCVELFObjectWriter.cpp\<close> and
    \<open>MCAssembler::evaluateFixup\<close>. The locale \<open>le_word\<close>, interpreted on words of two, four and eight bytes,
    compares the byte loop of \<open>applyFixup\<close> with the accessors of the linker. What the assembler stores is
    what the linker would store; a branch is relaxed exactly when the linker would reject it; the padding of
    alignments and the fixups of DWARF tables are what the linker makes use of.
  \<^item> \<open>AsmLayout\<close>, \<open>AsmLayoutSound\<close>: the layout and relaxation loops of \<open>llvm/lib/MC/MCAssembler.cpp\<close> and the
    cache of offsets of \<open>MCFragment.cpp\<close>. The cache agrees with the offsets of the section up to the first
    relaxed fragment; the loops end; the section they leave is settled, without linker relaxation and forced
    relocations in the sense that every branch reaches its label. A LEB128 fragment only grows, and keeps
    its value or, after an error, the constant 0.

  \<^bold>\<open>State, errors and undefined steps.\<close> A struct is a record, an enumeration a datatype with its
  constructors, an integer a word of its width, a pointer a number into a map of records. A function that
  changes its arguments returns them. A reported diagnostic is data beside the result, because the code
  goes on; an \<open>Error\<close> or \<open>fatal\<close> ends the run and is a summand of the result; a failed assertion, an
  access out of bounds or an undefined operation is a value of its own (\<open>None\<close>, \<open>Undefined\<close> or
  an error constructor), and theorems say when it cannot occur.

  \<^bold>\<open>Loops and fuel.\<close> Loops are recursive functions with a termination measure: the unsigned value still to
  be encoded, the rest of the input of a parser, the entries a table can still add, the size of a
  constant still to be split. The signed size function of LEB128, the skipping search for a string and the
  loop of \<open>split\<close> are partial functions that are proved to return, the last for a separator that is not
  empty and a count of 32 bits that does not overflow. Two things have fuel. The loops of the layout take
  it because they end only if the generated \<open>uncompress\<close> gives the opcode it should; running out of it is a
  result of its own (\<open>OutOfFuel\<close>, apart from \<open>Failed\<close>, an assertion), and one more than the rank of the section, which is the number of relaxations its
  instructions still have (two for a compressed conditional branch, one for another relaxable
  instruction), is proved to be enough. The reader of line number programs, a specification of the
  DWARF standard, takes one more than the number of bytes.

  \<^bold>\<open>Parameters.\<close> The instruction encoder and \<open>uncompress\<close> are generated by TableGen; they are components of
  the assembler's environment. The hypothesis on \<open>uncompress\<close> is that where it accepts a compressed branch
  it gives the instruction \<open>getRelaxedOpcode\<close> names, with three operands for a conditional branch, as the
  patterns of \<open>RISCVInstrInfoC.td\<close> do; that it accepts one is not assumed, since it rejects operands and
  features outside its table, and a rejected branch that has to be relaxed is the failed assertion
  ``Can't uncompress instruction''. The evaluation of an assembler expression that is not a constant is a
  parameter too. The addresses of sections, symbols and the global pointer come from the
  layout of the linker; the answers of the object writer about symbols are inputs of the assembler.

  \<^bold>\<open>Not modelled.\<close> Of the linker: symbol resolution, section layout, thunks, input and output files, and
  the driver that repeats \<open>relaxOnce\<close>, which also assigns addresses. Of the assembler: parsing, several
  sections whose fragments refer to one another, bundles, fills, CodeView and pseudo-probe fragments,
  and the writing of the object file. Of \<open>StringRef\<close>: the conversion to \<open>double\<close>, which is one of
  \<open>APFloat\<close>, and hashing. The rest of the RISC-V back end (instruction selection, lowering, frames) runs over
  SelectionDAG and MachineInstr graphs with tables generated by TableGen, which are not in the tree. LLVM IR
  and its transformations, Clang, BOLT and the runtimes are programs of their own, defined against
  language or platform standards outside the tree; nothing of them is modelled.
\<close>

end
